(* ===== verification/Prelude.thy ===== *)
theory Prelude
  imports Main "HOL-Library.Word" "HOL-Library.Multiset" "HOL-Library.Monad_Syntax"
    "HOL-Library.List_Lexorder"
begin

text \<open>
  Shared vocabulary of the development: names for the machine types of the Rust source, the
  panic monad, the standard-library operations on vectors that the modelled code calls, the
  facts on index permutations the play queue rests on, the reversed order of a sort key, and loops
  whose steps commute or absorb repetition (the locales \<open>commuting_steps\<close> and \<open>absorbing_steps\<close>),
  on which the order-independence results of the ledger rest.

  Conventions.  A \<open>usize\<close> that indexes or counts an in-memory collection is a \<open>nat\<close>; where the
  source writes \<open>saturating_sub\<close> the model writes the truncating subtraction of \<open>nat\<close>.  A value
  whose width matters is a word.  A function that can panic (an \<open>assert!\<close>, an indexed access, a
  \<open>Vec::insert\<close> out of range) returns \<open>'a run\<close>, where \<open>None\<close> is the panic.
\<close>

type_synonym u8 = "8 word"
type_synonym u32 = "32 word"
type_synonym u64 = "64 word"
type_synonym 'a run = "'a option"

named_theorems wf_intros
named_theorems step_simps

section \<open>Vectors\<close>

text \<open>\<open>Vec::insert\<close> panics when the index is beyond the length, \<open>Vec::remove\<close> when it is not
  below it; \<open>Vec::truncate\<close> and \<open>Iterator::take\<close> are \<open>take\<close>.\<close>

definition vec_insert :: "nat \<Rightarrow> 'a \<Rightarrow> 'a list \<Rightarrow> 'a list run" where
  "vec_insert i x xs = (if i \<le> length xs then Some (take i xs @ x # drop i xs) else None)"

definition drop_at :: "nat \<Rightarrow> 'a list \<Rightarrow> 'a list" where
  "drop_at i xs = take i xs @ drop (Suc i) xs"

definition vec_remove :: "nat \<Rightarrow> 'a list \<Rightarrow> ('a \<times> 'a list) run" where
  "vec_remove i xs = (if i < length xs then Some (xs ! i, drop_at i xs) else None)"

definition vec_get :: "'a list \<Rightarrow> nat \<Rightarrow> 'a option" where
  "vec_get xs i = (if i < length xs then Some (xs ! i) else None)"

lemma length_drop_at [simp]: "i < length xs \<Longrightarrow> length (drop_at i xs) = length xs - 1"
  by (simp add: drop_at_def)

lemma nth_drop_at: "i < length xs \<Longrightarrow> j < length xs - 1 \<Longrightarrow>
    drop_at i xs ! j = (if j < i then xs ! j else xs ! Suc j)"
  by (auto simp: drop_at_def nth_append min_def)

lemma map_drop_at: "map f (drop_at i xs) = drop_at i (map f xs)"
  by (simp add: drop_at_def take_map drop_map)

lemma set_drop_at_subset: "set (drop_at i xs) \<subseteq> set xs"
  by (auto simp: drop_at_def dest: in_set_takeD in_set_dropD)

lemma set_drop_at:
  assumes "distinct xs" "i < length xs"
  shows "set (drop_at i xs) = set xs - {xs ! i}"
proof -
  have "xs = take i xs @ xs ! i # drop (Suc i) xs" using assms(2) by (simp add: id_take_nth_drop)
  then have "distinct (take i xs @ xs ! i # drop (Suc i) xs)"
    and "set xs = set (take i xs @ xs ! i # drop (Suc i) xs)" using assms(1) by metis+
  then show ?thesis by (auto simp: drop_at_def)
qed

lemma distinct_drop_at: "distinct xs \<Longrightarrow> distinct (drop_at i xs)"
  by (metis distinct_append drop_at_def distinct_take distinct_drop set_take_disj_set_drop_if_distinct lessI less_imp_le_nat)

lemma vec_get_Some [simp]: "i < length xs \<Longrightarrow> vec_get xs i = Some (xs ! i)"
  by (simp add: vec_get_def)

lemma vec_get_None [simp]: "\<not> i < length xs \<Longrightarrow> vec_get xs i = None"
  by (simp add: vec_get_def)

lemma min_pred_less [simp]:
  "xs \<noteq> [] \<Longrightarrow> min k (length xs - Suc 0) < length xs"
  "0 < n \<Longrightarrow> min k (n - Suc 0) < n"
  by (cases xs) auto

lemma mset_splice: "mset (take i xs @ ys @ drop i xs) = mset xs + mset ys"
proof -
  have "mset (take i xs) + mset (drop i xs) = mset xs" by (metis append_take_drop_id mset_append)
  then show ?thesis by (simp add: ac_simps)
qed

text \<open>\<open>Iterator::position\<close>: the index of the first match.\<close>

fun position :: "('a \<Rightarrow> bool) \<Rightarrow> 'a list \<Rightarrow> nat option" where
  "position P [] = None"
| "position P (x # xs) = (if P x then Some 0 else map_option Suc (position P xs))"

lemma position_SomeD: "position P xs = Some i \<Longrightarrow> i < length xs \<and> P (xs ! i)"
  by (induction xs arbitrary: i) (auto split: if_splits)

lemma position_NoneD: "position P xs = None \<Longrightarrow> x \<in> set xs \<Longrightarrow> \<not> P x"
  by (induction xs) (auto split: if_splits)

lemma distinct_map_sort: "distinct (map f xs) \<Longrightarrow> distinct (map f (sort_key g xs))"
proof -
  have "mset (map f (sort_key g xs)) = mset (map f xs)" by (simp only: mset_map mset_sort)
  then show "distinct (map f xs) \<Longrightarrow> distinct (map f (sort_key g xs))" using mset_eq_imp_distinct_iff by blast
qed

section \<open>Index permutations\<close>

text \<open>\<open>is_perm n p\<close>: the list \<open>p\<close> lists every index below \<open>n\<close> exactly once.\<close>

definition is_perm :: "nat \<Rightarrow> nat list \<Rightarrow> bool" where
  "is_perm n p \<longleftrightarrow> distinct p \<and> set p = {..<n}"

lemma is_perm_length: "is_perm n p \<Longrightarrow> length p = n"
  by (metis card_lessThan distinct_card is_perm_def)

lemma is_perm_nth: "is_perm n p \<Longrightarrow> i < n \<Longrightarrow> p ! i < n"
  by (metis is_perm_def is_perm_length lessThan_iff nth_mem)

lemma is_perm_upt [simp]: "is_perm n [0..<n]"
  by (auto simp: is_perm_def)

lemma is_perm_mset: "is_perm n p \<longleftrightarrow> mset p = mset [0..<n]"
proof
  assume p: "is_perm n p"
  have "set p = set [0..<n]" using p unfolding is_perm_def by (simp only: set_upt atLeast0LessThan)
  moreover have "distinct p" using p unfolding is_perm_def by (rule conjunct1)
  ultimately show "mset p = mset [0..<n]" using set_eq_iff_mset_eq_distinct [OF \<open>distinct p\<close> distinct_upt] by blast
next
  assume eq: "mset p = mset [0..<n]"
  have "distinct p" using mset_eq_imp_distinct_iff [OF eq] distinct_upt by blast
  moreover from eq have "set p = set [0..<n]" by (rule mset_eq_setD)
  ultimately show "is_perm n p" unfolding is_perm_def by (simp only: set_upt atLeast0LessThan)
qed

text \<open>Removing position \<open>pos\<close> of a permutation and closing the gap its index leaves.\<close>

definition close_gap :: "nat \<Rightarrow> nat \<Rightarrow> nat" where
  "close_gap k i = (if i > k then i - 1 else i)"

lemma close_gap_nth:
  "k < length xs \<Longrightarrow> i < length xs \<Longrightarrow> i \<noteq> k \<Longrightarrow> drop_at k xs ! close_gap k i = xs ! i"
  by (auto simp: nth_drop_at close_gap_def)

lemma is_perm_drop_at:
  assumes "is_perm n p" "pos < n"
  shows "is_perm (n - 1) (map (close_gap (p ! pos)) (drop_at pos p))"
proof -
  let ?k = "p ! pos"
  have len: "pos < length p" using assms is_perm_length by metis
  have k: "?k < n" using assms by (rule is_perm_nth)
  have set: "set (drop_at pos p) = {..<n} - {?k}"
    using assms(1) len set_drop_at unfolding is_perm_def by metis
  have "inj_on (close_gap ?k) (set (drop_at pos p))"
    unfolding set by (auto simp: inj_on_def close_gap_def split: if_splits)
  moreover have "close_gap ?k ` ({..<n} - {?k}) = {..<n - 1}"
  proof (intro equalityI subsetI)
    fix x assume "x \<in> close_gap ?k ` ({..<n} - {?k})"
    then show "x \<in> {..<n - 1}" using k by (auto simp: close_gap_def split: if_splits)
  next
    fix x assume "x \<in> {..<n - 1}"
    then have "x = close_gap ?k (if x < ?k then x else Suc x)"
      and "(if x < ?k then x else Suc x) \<in> {..<n} - {?k}" by (auto simp: close_gap_def)
    then show "x \<in> close_gap ?k ` ({..<n} - {?k})" by blast
  qed
  ultimately show ?thesis
    using assms(1) by (simp add: is_perm_def distinct_map distinct_drop_at set)
qed

text \<open>Inserting a run of fresh indices anywhere keeps a permutation.\<close>

lemma is_perm_insert_block:
  assumes "is_perm n p" "mset q = mset p + mset [n..<n + m]"
  shows "is_perm (n + m) q"
proof -
  have "mset [0..<n + m] = mset [0..<n] + mset [n..<n + m]"
    by (metis le_add1 le0 mset_append upt_add_eq_append)
  then show ?thesis using assms by (simp add: is_perm_mset)
qed

lemma map_nth_append: "set p \<subseteq> {..<length xs} \<Longrightarrow> map ((!) (xs @ ys)) p = map ((!) xs) p"
  by (auto simp: nth_append)

lemma map_nth_upt_append: "map ((!) (xs @ ys)) [length xs..<length xs + length ys] = ys"
  by (rule nth_equalityI) (simp_all add: nth_append)

lemma map_nth_drop_at:
  assumes "is_perm (length xs) p" "pos < length xs"
  shows "map ((!) (drop_at (p ! pos) xs)) (map (close_gap (p ! pos)) (drop_at pos p))
    = drop_at pos (map ((!) xs) p)"
proof -
  let ?k = "p ! pos"
  have len: "pos < length p" using assms is_perm_length by metis
  have k: "?k < length xs" using assms by (rule is_perm_nth)
  have set: "set (drop_at pos p) = {..<length xs} - {?k}"
    using assms(1) len set_drop_at unfolding is_perm_def by metis
  have "drop_at ?k xs ! close_gap ?k i = xs ! i" if "i \<in> set (drop_at pos p)" for i
    using that k by (intro close_gap_nth) (auto simp: set)
  then show ?thesis by (simp add: map_drop_at [symmetric])
qed

section \<open>Reversed order\<close>

text \<open>\<open>b.cmp(&a)\<close> in a sort: the same values, compared the other way round.\<close>

datatype 'a reversed = Reversed (unreversed: 'a)

instantiation reversed :: (linorder) linorder
begin

definition less_eq_reversed :: "'a reversed \<Rightarrow> 'a reversed \<Rightarrow> bool" where
  "less_eq_reversed a b \<longleftrightarrow> unreversed b \<le> unreversed a"

definition less_reversed :: "'a reversed \<Rightarrow> 'a reversed \<Rightarrow> bool" where
  "less_reversed a b \<longleftrightarrow> unreversed b < unreversed a"

instance
  by standard (auto simp: less_eq_reversed_def less_reversed_def intro: reversed.expand)

end

lemma reversed_less [simp]: "Reversed a < Reversed b \<longleftrightarrow> b < a" "Reversed a \<le> Reversed b \<longleftrightarrow> b \<le> a"
  by (simp_all add: less_eq_reversed_def less_reversed_def)

section \<open>Steps that commute\<close>

text \<open>A loop of fallible steps.  When two steps can be exchanged in every state of an invariant, the
  outcome of the loop depends only on the multiset of its inputs.\<close>

fun run_steps :: "('x \<Rightarrow> 's \<Rightarrow> 's option) \<Rightarrow> 'x list \<Rightarrow> 's \<Rightarrow> 's option" where
  "run_steps step [] s = Some s"
| "run_steps step (x # xs) s = Option.bind (step x s) (run_steps step xs)"

locale commuting_steps =
  fixes ok :: "'s \<Rightarrow> bool" and input :: "'x \<Rightarrow> bool" and step :: "'x \<Rightarrow> 's \<Rightarrow> 's option"
  assumes step_ok: "ok s \<Longrightarrow> input x \<Longrightarrow> step x s = Some t \<Longrightarrow> ok t"
    and step_comm: "ok s \<Longrightarrow> input x \<Longrightarrow> input y \<Longrightarrow>
      Option.bind (step x s) (step y) = Option.bind (step y s) (step x)"
begin

lemma steps_front: "ok s \<Longrightarrow> (\<And>u. u \<in> set us \<Longrightarrow> input u) \<Longrightarrow> input x \<Longrightarrow>
    run_steps step (us @ x # vs) s = run_steps step (x # us @ vs) s"
proof (induction us arbitrary: s)
  case Nil
  then show ?case by simp
next
  case (Cons u us)
  have "run_steps step ((u # us) @ x # vs) s = Option.bind (step u s) (run_steps step (x # us @ vs))"
    using Cons by (cases "step u s") (auto dest: step_ok)
  also have "\<dots> = Option.bind (Option.bind (step u s) (step x)) (run_steps step (us @ vs))"
    by (cases "step u s") simp_all
  also have "\<dots> = Option.bind (Option.bind (step x s) (step u)) (run_steps step (us @ vs))"
    using step_comm [OF Cons.prems(1), of u x] Cons.prems by simp
  also have "\<dots> = run_steps step (x # (u # us) @ vs) s" by (cases "step x s") simp_all
  finally show ?case .
qed

lemma steps_mset: "ok s \<Longrightarrow> (\<And>x. x \<in> set xs \<Longrightarrow> input x) \<Longrightarrow> mset xs = mset ys \<Longrightarrow>
    run_steps step xs s = run_steps step ys s"
proof (induction xs arbitrary: ys s)
  case Nil
  then show ?case by simp
next
  case (Cons x xs)
  have set: "set ys = insert x (set xs)" using mset_eq_setD [OF Cons.prems(3)] by simp
  then obtain us vs where ys: "ys = us @ x # vs" using split_list [of x ys] by auto
  then have inputs: "\<And>u. u \<in> set us \<Longrightarrow> input u" "input x" using set Cons.prems(2) by auto
  have "mset xs = mset (us @ vs)" using Cons.prems(3) ys by simp
  then have "run_steps step xs t = run_steps step (us @ vs) t" if "step x s = Some t" for t
    using Cons.IH [of t "us @ vs"] step_ok [OF Cons.prems(1) inputs(2) that] Cons.prems(2) by simp
  then have "run_steps step (x # xs) s = run_steps step (x # us @ vs) s" by (cases "step x s") auto
  then show ?case using steps_front [OF Cons.prems(1) inputs] ys by simp
qed

end

text \<open>When repeating a step changes nothing, not even the number of repetitions matters.\<close>

locale absorbing_steps = commuting_steps +
  assumes step_idem: "ok s \<Longrightarrow> input x \<Longrightarrow> Option.bind (step x s) (step x) = step x s"
begin

lemma steps_repeat:
  assumes "ok s" "\<And>u. u \<in> set xs \<Longrightarrow> input u" "x \<in> set xs"
  shows "run_steps step (x # xs) s = run_steps step xs s"
proof -
  obtain us vs where xs: "xs = us @ x # vs" using assms(3) by (meson split_list)
  have inputs: "input x" "\<And>u. u \<in> set us \<Longrightarrow> input u" "\<And>u. u \<in> set (x # us) \<Longrightarrow> input u"
    using assms(2) by (auto simp: xs)
  have "run_steps step (x # xs) s = run_steps step ((x # us) @ x # vs) s" by (simp add: xs)
  also have "\<dots> = run_steps step (x # x # us @ vs) s"
    using steps_front [OF assms(1), of "x # us" x vs] inputs by simp
  also have "\<dots> = Option.bind (Option.bind (step x s) (step x)) (run_steps step (us @ vs))"
    by (cases "step x s") simp_all
  also have "\<dots> = run_steps step (x # us @ vs) s" using step_idem [OF assms(1)] assms(2,3) by simp
  also have "\<dots> = run_steps step xs s"
    using steps_front [OF assms(1), of us x vs] inputs by (simp add: xs)
  finally show ?thesis .
qed

lemma steps_remdups: "ok s \<Longrightarrow> (\<And>u. u \<in> set xs \<Longrightarrow> input u) \<Longrightarrow>
    run_steps step (remdups xs) s = run_steps step xs s"
proof (induction xs arbitrary: s)
  case Nil
  then show ?case by simp
next
  case (Cons x xs)
  show ?case
  proof (cases "x \<in> set xs")
    case True
    then show ?thesis using Cons steps_repeat [of s xs x] by simp
  next
    case False
    have "run_steps step (remdups xs) t = run_steps step xs t" if "step x s = Some t" for t
      using Cons.IH [of t] step_ok [OF Cons.prems(1) _ that] Cons.prems(2) by simp
    then show ?thesis using False by (cases "step x s") simp_all
  qed
qed

lemma steps_set:
  assumes "ok s" "\<And>x. x \<in> set xs \<Longrightarrow> input x" "set xs = set ys"
  shows "run_steps step xs s = run_steps step ys s"
proof -
  have "run_steps step (remdups xs) s = run_steps step (remdups ys) s"
    using assms by (intro steps_mset) (auto simp: set_eq_iff_mset_remdups_eq [symmetric])
  then show ?thesis using steps_remdups assms by metis
qed

end

end
