(* ===== verification/Text.thy ===== *)
theory Text
  imports Prelude
begin

text \<open>
  Rust strings.  A \<open>str\<close> is the list of its Unicode scalar values (\<open>ustring\<close>), so that
  \<open>chars().count()\<close> is the length and the order of \<open>String\<close> (bytewise on UTF-8, which is the
  order of scalar values) is the lexicographic order of \<open>HOL-Library.List_Lexorder\<close>.  The
  operations below are the ones of the Rust standard library the modelled code calls:
  \<open>char::is_control\<close> (general category Cc), \<open>char::is_whitespace\<close> (White\_Space), \<open>str::trim\<close>,
  and the ASCII case operations.
\<close>

type_synonym ustring = "nat list"

definition utf :: "string \<Rightarrow> ustring" where
  "utf s = map of_char s"

definition is_control :: "nat \<Rightarrow> bool" where
  "is_control c \<longleftrightarrow> c < 32 \<or> (127 \<le> c \<and> c < 160)"

definition is_whitespace :: "nat \<Rightarrow> bool" where
  "is_whitespace c \<longleftrightarrow> (9 \<le> c \<and> c \<le> 13) \<or> c = 32 \<or> c = 133 \<or> c = 160 \<or> c = 5760
     \<or> (8192 \<le> c \<and> c \<le> 8202) \<or> c = 8232 \<or> c = 8233 \<or> c = 8239 \<or> c = 8287 \<or> c = 12288"

definition is_ascii_uppercase :: "nat \<Rightarrow> bool" where
  "is_ascii_uppercase c \<longleftrightarrow> 65 \<le> c \<and> c \<le> 90"

definition is_ascii_digit :: "nat \<Rightarrow> bool" where
  "is_ascii_digit c \<longleftrightarrow> 48 \<le> c \<and> c \<le> 57"

definition is_ascii_lowercase :: "nat \<Rightarrow> bool" where
  "is_ascii_lowercase c \<longleftrightarrow> 97 \<le> c \<and> c \<le> 122"

definition is_ascii_alphabetic :: "nat \<Rightarrow> bool" where
  "is_ascii_alphabetic c \<longleftrightarrow> is_ascii_uppercase c \<or> is_ascii_lowercase c"

definition to_ascii_lower :: "nat \<Rightarrow> nat" where
  "to_ascii_lower c = (if is_ascii_uppercase c then c + 32 else c)"

definition to_ascii_upper :: "nat \<Rightarrow> nat" where
  "to_ascii_upper c = (if is_ascii_lowercase c then c - 32 else c)"

definition str_lower :: "ustring \<Rightarrow> ustring" where
  "str_lower s = map to_ascii_lower s"

definition trim_start :: "ustring \<Rightarrow> ustring" where
  "trim_start s = dropWhile is_whitespace s"

definition trim_end :: "ustring \<Rightarrow> ustring" where
  "trim_end s = rev (dropWhile is_whitespace (rev s))"

definition trim :: "ustring \<Rightarrow> ustring" where
  "trim s = trim_end (trim_start s)"

definition starts_with :: "ustring \<Rightarrow> ustring \<Rightarrow> bool" where
  "starts_with p s \<longleftrightarrow> take (length p) s = p"

text \<open>\<open>str::split_whitespace\<close>, \<open>[\&str]::join\<close>, \<open>str::contains\<close> and \<open>str::strip_prefix\<close>.\<close>

fun split_on :: "('a \<Rightarrow> bool) \<Rightarrow> 'a list \<Rightarrow> 'a list list" where
  "split_on P [] = [[]]"
| "split_on P (c # s) = (if P c then [] # split_on P s
     else (case split_on P s of [] \<Rightarrow> [[c]] | w # ws \<Rightarrow> (c # w) # ws))"

definition split_whitespace :: "ustring \<Rightarrow> ustring list" where
  "split_whitespace s = filter (\<lambda>w. w \<noteq> []) (split_on is_whitespace s)"

fun join_with :: "ustring \<Rightarrow> ustring list \<Rightarrow> ustring" where
  "join_with sep [] = []"
| "join_with sep [w] = w"
| "join_with sep (w # v # ws) = w @ sep @ join_with sep (v # ws)"

fun text_contains :: "ustring \<Rightarrow> ustring \<Rightarrow> bool" where
  "text_contains [] p \<longleftrightarrow> p = []"
| "text_contains (c # s) p \<longleftrightarrow> starts_with p (c # s) \<or> text_contains s p"

definition strip_prefix :: "ustring \<Rightarrow> ustring \<Rightarrow> ustring option" where
  "strip_prefix p s = (if starts_with p s then Some (drop (length p) s) else None)"

text \<open>\<open>str::len\<close>: the length in UTF-8.\<close>

definition utf8_len :: "nat \<Rightarrow> nat" where
  "utf8_len c = (if c < 0x80 then 1 else if c < 0x800 then 2 else if c < 0x10000 then 3 else 4)"

definition byte_len :: "ustring \<Rightarrow> nat" where
  "byte_len s = sum_list (map utf8_len s)"

text \<open>\<open>str::as_bytes\<close>.\<close>

definition utf8_char :: "nat \<Rightarrow> nat list" where
  "utf8_char c = (if c < 0x80 then [c]
     else if c < 0x800 then [0xc0 + c div 64, 0x80 + c mod 64]
     else if c < 0x10000 then [0xe0 + c div 4096, 0x80 + c div 64 mod 64, 0x80 + c mod 64]
     else [0xf0 + c div 262144, 0x80 + c div 4096 mod 64, 0x80 + c div 64 mod 64, 0x80 + c mod 64])"

definition utf8 :: "ustring \<Rightarrow> nat list" where
  "utf8 s = concat (map utf8_char s)"

section \<open>Trimming\<close>

text \<open>\<open>trimmed s\<close>: no white space at either end.\<close>

definition trimmed :: "ustring \<Rightarrow> bool" where
  "trimmed s \<longleftrightarrow> s = [] \<or> (\<not> is_whitespace (hd s) \<and> \<not> is_whitespace (last s))"

lemma trim_Nil [simp]: "trim [] = []"
  by (simp add: trim_def trim_start_def trim_end_def)

lemma dropWhile_id: "xs = [] \<or> \<not> P (hd xs) \<Longrightarrow> dropWhile P xs = xs"
  by (cases xs) auto

lemma trim_id: "trimmed s \<Longrightarrow> trim s = s"
  by (cases "s = []") (simp_all add: trimmed_def trim_def trim_start_def trim_end_def dropWhile_id hd_rev)

lemma hd_dropWhile_not: "dropWhile P xs \<noteq> [] \<Longrightarrow> \<not> P (hd (dropWhile P xs))"
  by (rule hd_dropWhile)

lemma trim_end_prefix: "\<exists>ws. s = trim_end s @ ws"
proof -
  have "rev s = takeWhile is_whitespace (rev s) @ dropWhile is_whitespace (rev s)" by simp
  then have "s = trim_end s @ rev (takeWhile is_whitespace (rev s))"
    unfolding trim_end_def by (metis rev_append rev_rev_ident)
  then show ?thesis by blast
qed

lemma trim_trimmed: "trimmed (trim s)"
proof (cases "trim s = []")
  case True
  then show ?thesis by (simp add: trimmed_def)
next
  case False
  let ?t = "trim_start s"
  obtain ws where t: "?t = trim s @ ws" using trim_end_prefix [of ?t] by (auto simp: trim_def)
  then have "?t \<noteq> []" using False by auto
  then have "\<not> is_whitespace (hd ?t)" unfolding trim_start_def by (rule hd_dropWhile_not)
  moreover have "hd ?t = hd (trim s)" using t False by simp
  moreover have "\<not> is_whitespace (last (trim s))"
    using False hd_dropWhile_not [of is_whitespace "rev ?t"]
    by (simp add: trim_def trim_end_def last_rev)
  ultimately show ?thesis by (simp add: trimmed_def)
qed

lemma trim_trim [simp]: "trim (trim s) = trim s"
  by (simp add: trim_id trim_trimmed)

lemma set_trim: "set (trim s) \<subseteq> set s"
proof
  fix x assume "x \<in> set (trim s)"
  then have "x \<in> set (trim_start s)" using trim_end_prefix [of "trim_start s"]
    by (metis Un_iff set_append trim_def)
  then show "x \<in> set s" unfolding trim_start_def by (rule set_dropWhileD)
qed

lemma length_trim: "length (trim s) \<le> length s"
  unfolding trim_def trim_end_def trim_start_def
  by (metis length_dropWhile_le length_rev order_trans)

lemma starts_with_append [simp]: "starts_with p (p @ s)"
  by (simp add: starts_with_def)

lemma starts_with_D: "starts_with p s \<Longrightarrow> s = p @ drop (length p) s"
  by (metis append_take_drop_id starts_with_def)

section \<open>Words\<close>

definition is_word :: "ustring \<Rightarrow> bool" where
  "is_word w \<longleftrightarrow> w \<noteq> [] \<and> (\<forall>c \<in> set w. \<not> is_whitespace c)"

lemma split_on_not_Nil [simp]: "split_on P s \<noteq> []"
  by (induction s) (auto split: list.splits)

lemma split_on_free: "w \<in> set (split_on P s) \<Longrightarrow> c \<in> set w \<Longrightarrow> \<not> P c"
  by (induction s arbitrary: w) (fastforce split: list.splits if_splits)+

lemma split_whitespace_words: "w \<in> set (split_whitespace s) \<Longrightarrow> is_word w"
  by (auto simp: split_whitespace_def is_word_def dest: split_on_free)

lemma split_on_word: "(\<forall>c \<in> set w. \<not> P c) \<Longrightarrow> split_on P w = [w]"
  by (induction w) auto

lemma split_on_sep: "(\<forall>c \<in> set w. \<not> P c) \<Longrightarrow> P b \<Longrightarrow> split_on P (w @ b # s) = w # split_on P s"
  by (induction w) auto

text \<open>Splitting a text of words joined by blanks gives the words back.\<close>

lemma split_join: "(\<And>w. w \<in> set ws \<Longrightarrow> is_word w) \<Longrightarrow> split_whitespace (join_with [32] ws) = ws"
proof (induction "[32] :: ustring" ws rule: join_with.induct)
  case 1
  then show ?case by (simp add: split_whitespace_def)
next
  case (2 w)
  then show ?case by (simp add: split_whitespace_def is_word_def split_on_word)
next
  case (3 w v ws)
  have w: "is_word w" "split_whitespace (join_with [32] (v # ws)) = v # ws" using 3 by simp_all
  then show ?case using split_on_sep [of w is_whitespace 32 "join_with [32] (v # ws)"]
    by (simp add: split_whitespace_def is_word_def is_whitespace_def)
qed

section \<open>Bytes\<close>

lemma length_utf8: "length (utf8 s) = byte_len s"
  by (induction s) (simp_all add: utf8_def byte_len_def utf8_char_def utf8_len_def)

text \<open>The character the first bytes stand for: bytes determine the text.\<close>

definition utf8_decode :: "nat list \<Rightarrow> nat" where
  "utf8_decode bs = (let b = bs ! 0 in
     if b < 0x80 then b
     else if b < 0xe0 then (b - 0xc0) * 64 + (bs ! 1 - 0x80)
     else if b < 0xf0 then ((b - 0xe0) * 64 + (bs ! 1 - 0x80)) * 64 + (bs ! 2 - 0x80)
     else (((b - 0xf0) * 64 + (bs ! 1 - 0x80)) * 64 + (bs ! 2 - 0x80)) * 64 + (bs ! 3 - 0x80))"


lemma sixty_four:
  "(c :: nat) div 4096 * 64 + c div 64 mod 64 = c div 64" "c div 262144 * 64 + c div 4096 mod 64 = c div 4096"
  "c div 64 * 64 + c mod 64 = c"
  using div_mult_mod_eq [of "c div 64" 64] div_mult2_eq [of c 64 64]
    div_mult_mod_eq [of "c div 4096" 64] div_mult2_eq [of c 4096 64] by simp_all

lemma decode_utf8: "utf8_decode (utf8_char c @ xs) = c"
proof -
  consider "c < 0x80" | "\<not> c < 0x80" "c < 0x800" | "\<not> c < 0x800" "c < 0x10000" | "\<not> c < 0x10000" by linarith
  then show ?thesis
  proof cases
    case 1
    then show ?thesis by (simp add: utf8_decode_def utf8_char_def Let_def)
  next
    case 2
    then have "c div 64 < 32" by auto
    then show ?thesis using 2 sixty_four(3) [of c] by (simp add: utf8_decode_def utf8_char_def Let_def)
  next
    case 3
    then have "c div 4096 < 16" by auto
    then show ?thesis using 3 sixty_four [of c] by (simp add: utf8_decode_def utf8_char_def Let_def)
  next
    case 4
    then show ?thesis using sixty_four [of c] by (simp add: utf8_decode_def utf8_char_def Let_def)
  qed
qed

lemma utf8_inject [simp]: "utf8 s = utf8 t \<longleftrightarrow> s = t"
proof
  show "utf8 s = utf8 t \<Longrightarrow> s = t"
  proof (induction s arbitrary: t)
    case Nil
    then show ?case by (cases t) (auto simp: utf8_def utf8_char_def split: if_splits)
  next
    case (Cons c s)
    then obtain d u where t: "t = d # u" by (cases t) (auto simp: utf8_def utf8_char_def split: if_splits)
    have "utf8_char c @ utf8 s = utf8_char d @ utf8 u" using Cons.prems by (simp add: t utf8_def)
    moreover from this have "c = d" using decode_utf8 by metis
    ultimately show ?case using Cons.IH by (simp add: t)
  qed
qed simp

section \<open>ASCII case\<close>

lemma length_str_lower [simp]: "length (str_lower s) = length s"
  by (simp add: str_lower_def)

lemma to_ascii_lower_idem [simp]: "to_ascii_lower (to_ascii_lower c) = to_ascii_lower c"
  by (simp add: to_ascii_lower_def is_ascii_uppercase_def)

lemma to_ascii_lower_not_upper [simp]: "\<not> is_ascii_uppercase (to_ascii_lower c)"
  by (simp add: to_ascii_lower_def is_ascii_uppercase_def)

lemma str_lower_append [simp]: "str_lower (s @ t) = str_lower s @ str_lower t"
  by (simp add: str_lower_def)

section \<open>Decimal numbers\<close>

text \<open>\<open>{}\<close> and \<open>{:02}\<close> of an unsigned integer, and the value of a run of digits.\<close>

fun decimal :: "nat \<Rightarrow> ustring" where
  "decimal n = (if n < 10 then [48 + n] else decimal (n div 10) @ [48 + n mod 10])"

declare decimal.simps [simp del]

definition decimal2 :: "nat \<Rightarrow> ustring" where
  "decimal2 n = (if n < 10 then 48 # decimal n else decimal n)"

definition dec_value :: "ustring \<Rightarrow> nat" where
  "dec_value ds = foldl (\<lambda>n c. 10 * n + (c - 48)) 0 ds"

lemma decimal_digits: "c \<in> set (decimal n) \<Longrightarrow> is_ascii_digit c"
proof (induction n rule: decimal.induct)
  case (1 n)
  then show ?case by (cases "n < 10") (auto simp: decimal.simps [of n] is_ascii_digit_def)
qed

lemma decimal_not_Nil [simp]: "decimal n \<noteq> []"
  by (simp add: decimal.simps [of n])

lemma hd_decimal: "hd (decimal n) = 48 \<longleftrightarrow> n = 0"
proof (induction n rule: decimal.induct)
  case (1 n)
  then show ?case by (cases "n < 10") (simp_all add: decimal.simps [of n])
qed

lemma dec_value_decimal [simp]: "dec_value (decimal n) = n"
proof (induction n rule: decimal.induct)
  case (1 n)
  then show ?case by (cases "n < 10") (simp_all add: decimal.simps [of n] dec_value_def)
qed

lemma dec_value_decimal2 [simp]: "dec_value (decimal2 n) = n"
  using dec_value_decimal [of n] by (simp add: decimal2_def dec_value_def)

lemma length_decimal: "n < 10 ^ k \<Longrightarrow> 0 < k \<Longrightarrow> length (decimal n) \<le> k"
proof (induction n arbitrary: k rule: decimal.induct)
  case (1 n)
  show ?case
  proof (cases "n < 10")
    case False
    then obtain j where k: "k = Suc j" "0 < j" using 1(2,3) by (cases k; cases "k - 1") auto
    then have "n div 10 < 10 ^ j" using 1(2) by auto
    then have "length (decimal (n div 10)) \<le> j" using 1(1) False k(2) by blast
    then show ?thesis using False k by (simp add: decimal.simps [of n])
  qed (use 1 in \<open>simp add: decimal.simps [of n]\<close>)
qed

lemma decimal_take: "s = [] \<or> \<not> is_ascii_digit (hd s) \<Longrightarrow>
    takeWhile is_ascii_digit (decimal n @ s) = decimal n \<and> dropWhile is_ascii_digit (decimal n @ s) = s"
proof -
  assume s: "s = [] \<or> \<not> is_ascii_digit (hd s)"
  have "takeWhile is_ascii_digit s = []" "dropWhile is_ascii_digit s = s" using s by (cases s; simp)+
  then show ?thesis using decimal_digits [of _ n]
    by (simp add: takeWhile_append2 dropWhile_append2)
qed

end
