(* ===== verification/SearchSource.thy ===== *)
theory SearchSource
  imports Text
begin

text \<open>
  \<open>src/search_source.rs\<close>: the search/playback source enumeration and the persisted search
  configuration, whose normalisation keeps the selected sources inside the enabled ones.  The
  search screen and the streaming engine choose from two menus built the same way; the
  \<open>source_menu\<close> locale states what both promise and its lemmas are proved once.
\<close>

datatype search_source = Youtube | SoundCloud | Audius | Jamendo | InternetArchive
  | OpenSubsonicSource | RadioBrowser | AllSources

definition concrete_sources :: "search_source list" where
  "concrete_sources = [Youtube, SoundCloud, Audius, Jamendo, InternetArchive, OpenSubsonicSource,
     RadioBrowser]"

fun source_code :: "search_source \<Rightarrow> string" where
  "source_code Youtube = ''YT''"
| "source_code SoundCloud = ''SC''"
| "source_code Audius = ''AU''"
| "source_code Jamendo = ''JA''"
| "source_code InternetArchive = ''IA''"
| "source_code OpenSubsonicSource = ''SUB''"
| "source_code RadioBrowser = ''RAD''"
| "source_code AllSources = ''ALL''"

fun source_label :: "search_source \<Rightarrow> string" where
  "source_label Youtube = ''YouTube''"
| "source_label SoundCloud = ''SoundCloud''"
| "source_label Audius = ''Audius''"
| "source_label Jamendo = ''Jamendo''"
| "source_label InternetArchive = ''Internet Archive''"
| "source_label OpenSubsonicSource = ''Music server''"
| "source_label RadioBrowser = ''Radio Browser''"
| "source_label AllSources = ''All enabled''"

fun source_id_prefix :: "search_source \<Rightarrow> string" where
  "source_id_prefix Youtube = ''yt''"
| "source_id_prefix SoundCloud = ''sc''"
| "source_id_prefix Audius = ''au''"
| "source_id_prefix Jamendo = ''ja''"
| "source_id_prefix InternetArchive = ''ia''"
| "source_id_prefix OpenSubsonicSource = ''sub''"
| "source_id_prefix RadioBrowser = ''rad''"
| "source_id_prefix AllSources = ''all''"

definition source_is_youtube :: "search_source \<Rightarrow> bool" where
  "source_is_youtube s \<longleftrightarrow> s = Youtube"

record search_config =
  cfg_source :: search_source
  cfg_streaming_source :: search_source
  cfg_youtube :: bool
  cfg_soundcloud :: bool
  cfg_audius :: bool
  cfg_jamendo :: bool
  cfg_internet_archive :: bool
  cfg_open_subsonic :: bool
  cfg_radio_browser :: bool
  cfg_audius_app_name :: "ustring option"
  cfg_jamendo_client_id :: "ustring option"

definition search_config_default :: search_config where
  "search_config_default = \<lparr>cfg_source = Youtube, cfg_streaming_source = Youtube,
     cfg_youtube = True, cfg_soundcloud = True, cfg_audius = True, cfg_jamendo = True,
     cfg_internet_archive = True, cfg_open_subsonic = False, cfg_radio_browser = True,
     cfg_audius_app_name = None, cfg_jamendo_client_id = None\<rparr>"

fun is_enabled :: "search_config \<Rightarrow> search_source \<Rightarrow> bool" where
  "is_enabled c Youtube = cfg_youtube c"
| "is_enabled c SoundCloud = cfg_soundcloud c"
| "is_enabled c Audius = cfg_audius c"
| "is_enabled c Jamendo = cfg_jamendo c"
| "is_enabled c InternetArchive = cfg_internet_archive c"
| "is_enabled c OpenSubsonicSource = cfg_open_subsonic c"
| "is_enabled c RadioBrowser = cfg_radio_browser c"
| "is_enabled c AllSources = True"

definition enabled_sources :: "search_config \<Rightarrow> search_source list" where
  "enabled_sources c = filter (is_enabled c) concrete_sources"

definition enabled_public_sources :: "search_config \<Rightarrow> search_source list" where
  "enabled_public_sources c = filter (\<lambda>s. s \<noteq> OpenSubsonicSource) (enabled_sources c)"

text \<open>Both menus push \<open>All\<close> when there is more than one choice and fall back to YouTube when
  there is none.\<close>

definition selectable_sources :: "search_config \<Rightarrow> search_source list" where
  "selectable_sources c =
     (let sources = enabled_sources c;
          sources = (if length sources > 1 then sources @ [AllSources] else sources)
      in if sources = [] then [Youtube] else sources)"

definition streaming_enabled_sources :: "search_config \<Rightarrow> search_source list" where
  "streaming_enabled_sources c =
     filter (\<lambda>s. \<not> (s = OpenSubsonicSource \<or> s = RadioBrowser)) (enabled_sources c)"

definition selectable_streaming_sources :: "search_config \<Rightarrow> search_source list" where
  "selectable_streaming_sources c =
     (let sources = streaming_enabled_sources c;
          sources = (if length sources > 1 then sources @ [AllSources] else sources)
      in if sources = [] then [Youtube] else sources)"

definition first_or_youtube :: "search_source list \<Rightarrow> search_source" where
  "first_or_youtube xs = (case xs of [] \<Rightarrow> Youtube | x # _ \<Rightarrow> x)"

definition normalized_source :: "search_config \<Rightarrow> search_source \<Rightarrow> search_source" where
  "normalized_source c s =
     (if s = AllSources then
        if length (enabled_sources c) > 1 then AllSources else first_or_youtube (enabled_sources c)
      else if is_enabled c s then s
      else first_or_youtube (enabled_sources c))"

definition normalized_streaming_source :: "search_config \<Rightarrow> search_source \<Rightarrow> search_source" where
  "normalized_streaming_source c s =
     (if s = AllSources then
        if length (streaming_enabled_sources c) > 1 then AllSources
        else first_or_youtube (streaming_enabled_sources c)
      else if \<not> (s = OpenSubsonicSource \<or> s = RadioBrowser) \<and> is_enabled c s then s
      else first_or_youtube (streaming_enabled_sources c))"

definition cycle_in :: "search_source list \<Rightarrow> search_source \<Rightarrow> bool \<Rightarrow> search_source" where
  "cycle_in sources current forward =
     (let i = (case position (\<lambda>s. s = current) sources of None \<Rightarrow> 0 | Some i \<Rightarrow> i);
          n = length sources
      in if n = 0 then Youtube
         else sources ! (if forward then (i + 1) mod n else (i + n - 1) mod n))"

definition cycled_source :: "search_config \<Rightarrow> search_source \<Rightarrow> bool \<Rightarrow> search_source" where
  "cycled_source c current forward = cycle_in (selectable_sources c) current forward"

definition cycled_streaming_source :: "search_config \<Rightarrow> search_source \<Rightarrow> bool \<Rightarrow> search_source" where
  "cycled_streaming_source c current forward =
     cycle_in (selectable_streaming_sources c) current forward"

definition renormalize :: "search_config \<Rightarrow> search_config" where
  "renormalize c =
     (let c = c\<lparr>cfg_source := normalized_source c (cfg_source c)\<rparr>
      in c\<lparr>cfg_streaming_source := normalized_streaming_source c (cfg_streaming_source c)\<rparr>)"

fun set_flag :: "search_config \<Rightarrow> search_source \<Rightarrow> bool \<Rightarrow> search_config" where
  "set_flag c Youtube b = c\<lparr>cfg_youtube := b\<rparr>"
| "set_flag c SoundCloud b = c\<lparr>cfg_soundcloud := b\<rparr>"
| "set_flag c Audius b = c\<lparr>cfg_audius := b\<rparr>"
| "set_flag c Jamendo b = c\<lparr>cfg_jamendo := b\<rparr>"
| "set_flag c InternetArchive b = c\<lparr>cfg_internet_archive := b\<rparr>"
| "set_flag c OpenSubsonicSource b = c\<lparr>cfg_open_subsonic := b\<rparr>"
| "set_flag c RadioBrowser b = c\<lparr>cfg_radio_browser := b\<rparr>"
| "set_flag c AllSources b = c"

definition set_enabled :: "search_config \<Rightarrow> search_source \<Rightarrow> bool \<Rightarrow> search_config" where
  "set_enabled c s b = renormalize (set_flag c s b)"

definition trim_to_option :: "ustring option \<Rightarrow> ustring option" where
  "trim_to_option s = (case s of None \<Rightarrow> None
     | Some t \<Rightarrow> if trim t = [] then None else Some (trim t))"

definition search_config_normalized :: "search_config \<Rightarrow> search_config" where
  "search_config_normalized c =
     (let c = renormalize c;
          c = c\<lparr>cfg_audius_app_name := trim_to_option (cfg_audius_app_name c)\<rparr>
      in c\<lparr>cfg_jamendo_client_id := trim_to_option (cfg_jamendo_client_id c)\<rparr>)"

definition effective_audius_app_name :: "search_config \<Rightarrow> ustring" where
  "effective_audius_app_name c = (case trim_to_option (cfg_audius_app_name c) of
     None \<Rightarrow> utf ''yututui'' | Some s \<Rightarrow> s)"

definition jamendo_client_id :: "search_config \<Rightarrow> ustring option" where
  "jamendo_client_id c = trim_to_option (cfg_jamendo_client_id c)"

section \<open>Menus\<close>

lemma position_nth:
  assumes "distinct xs" "i < length xs"
  shows "position (\<lambda>s. s = xs ! i) xs = Some i"
  using assms
proof (induction xs arbitrary: i)
  case Nil
  then show ?case by simp
next
  case (Cons x xs)
  then show ?case by (cases i) (auto simp: nth_mem)
qed

lemma cycle_in_nth:
  assumes "distinct xs" "i < length xs"
  shows "cycle_in xs (xs ! i) True = xs ! ((i + 1) mod length xs)"
    and "cycle_in xs (xs ! i) False = xs ! ((i + length xs - 1) mod length xs)"
  using assms position_nth [OF assms] by (auto simp: cycle_in_def Let_def)

lemma first_or_youtube_in: "xs \<noteq> [] \<Longrightarrow> first_or_youtube xs \<in> set xs"
  by (cases xs) (auto simp: first_or_youtube_def)

text \<open>What a source menu promises: the menu is never empty and lists no source twice, the
  normalised selection is on the menu, and a selection on the menu is already normal.\<close>

locale source_menu =
  fixes choices :: "'c \<Rightarrow> search_source list"
    and normal :: "'c \<Rightarrow> search_source \<Rightarrow> search_source"
  assumes choices_nonempty: "choices c \<noteq> []"
    and choices_distinct: "distinct (choices c)"
    and normal_in: "normal c s \<in> set (choices c)"
    and normal_id: "s \<in> set (choices c) \<Longrightarrow> normal c s = s"
begin

lemma normal_idem: "normal c (normal c s) = normal c s"
  by (rule normal_id [OF normal_in])

lemma cycle_in_menu: "cycle_in (choices c) s fwd \<in> set (choices c)"
  using choices_nonempty by (auto simp: cycle_in_def Let_def)

lemma cycle_back:
  assumes "s \<in> set (choices c)"
  shows "cycle_in (choices c) (cycle_in (choices c) s True) False = s"
proof -
  let ?n = "length (choices c)"
  obtain i where i: "i < ?n" "s = choices c ! i" using assms by (metis in_set_conv_nth)
  have j: "(i + 1) mod ?n < ?n" using choices_nonempty by (intro mod_less_divisor) simp
  have "cycle_in (choices c) (cycle_in (choices c) s True) False
      = choices c ! (((i + 1) mod ?n + ?n - 1) mod ?n)"
    using cycle_in_nth [OF choices_distinct i(1)] cycle_in_nth [OF choices_distinct j]
    by (simp add: i(2))
  moreover have "((i + 1) mod ?n + ?n - 1) mod ?n = i"
    using i(1) by (cases "i + 1 = ?n") auto
  ultimately show ?thesis by (simp add: i(2))
qed

lemma cycle_reaches:
  assumes "i < length (choices c)"
  shows "((\<lambda>s. cycle_in (choices c) s True) ^^ k) (choices c ! i)
    = choices c ! ((i + k) mod length (choices c))"
proof (induction k)
  case 0
  then show ?case using assms by simp
next
  case (Suc k)
  have "(i + k) mod length (choices c) < length (choices c)"
    using choices_nonempty by (intro mod_less_divisor) simp
  then show ?case using Suc cycle_in_nth(1) [OF choices_distinct] by (simp add: mod_Suc_eq)
qed

end

lemma enabled_sources_set: "set (enabled_sources c) = {s. s \<noteq> AllSources \<and> is_enabled c s}"
proof -
  have "s \<in> set concrete_sources \<longleftrightarrow> s \<noteq> AllSources" for s
    by (cases s) (simp_all add: concrete_sources_def)
  then show ?thesis by (auto simp: enabled_sources_def)
qed

lemma streaming_enabled_set: "set (streaming_enabled_sources c)
    = {s. s \<noteq> AllSources \<and> s \<noteq> OpenSubsonicSource \<and> s \<noteq> RadioBrowser \<and> is_enabled c s}"
  by (auto simp: streaming_enabled_sources_def enabled_sources_set)

lemma enabled_distinct: "distinct (enabled_sources c)" "distinct (streaming_enabled_sources c)"
  by (simp_all add: enabled_sources_def streaming_enabled_sources_def concrete_sources_def)

lemma length_gt_1_D: "s \<in> set xs \<Longrightarrow> \<not> length xs > 1 \<Longrightarrow> xs = [s]"
  by (cases xs; cases "tl xs") auto

text \<open>Both menus have this shape over their list of enabled sources.\<close>

definition menu_of :: "search_source list \<Rightarrow> search_source list" where
  "menu_of xs = (if xs = [] then [Youtube] else if length xs > 1 then xs @ [AllSources] else xs)"

definition pick_of :: "search_source list \<Rightarrow> search_source \<Rightarrow> search_source" where
  "pick_of xs s = (if s = AllSources then
       if length xs > 1 then AllSources else first_or_youtube xs
     else if s \<in> set xs then s else first_or_youtube xs)"

lemma pick_of_in: "pick_of xs s \<in> set (menu_of xs)"
proof (cases xs)
  case Nil
  then show ?thesis by (simp add: pick_of_def menu_of_def first_or_youtube_def)
next
  case (Cons y ys)
  then show ?thesis by (auto simp: pick_of_def menu_of_def first_or_youtube_def)
qed

lemma pick_of_id: "AllSources \<notin> set xs \<Longrightarrow> s \<in> set (menu_of xs) \<Longrightarrow> pick_of xs s = s"
  by (auto simp: pick_of_def menu_of_def first_or_youtube_def split: if_splits)

lemma menu_of_nonempty: "menu_of xs \<noteq> []"
  by (simp add: menu_of_def)

lemma menu_of_distinct: "AllSources \<notin> set xs \<Longrightarrow> distinct xs \<Longrightarrow> distinct (menu_of xs)"
  by (simp add: menu_of_def)

lemma menus:
  "selectable_sources c = menu_of (enabled_sources c)"
  "selectable_streaming_sources c = menu_of (streaming_enabled_sources c)"
  "normalized_source c = pick_of (enabled_sources c)"
  "normalized_streaming_source c = pick_of (streaming_enabled_sources c)"
  by (simp_all add: selectable_sources_def selectable_streaming_sources_def menu_of_def pick_of_def
      normalized_source_def normalized_streaming_source_def Let_def fun_eq_iff enabled_sources_set
      streaming_enabled_set conj_commute)

interpretation search_menu: source_menu selectable_sources normalized_source
  unfolding menus
  by unfold_locales (simp_all add: menu_of_nonempty menu_of_distinct pick_of_in pick_of_id
      enabled_distinct enabled_sources_set)

interpretation streaming_menu: source_menu selectable_streaming_sources normalized_streaming_source
  unfolding menus
  by unfold_locales (simp_all add: menu_of_nonempty menu_of_distinct pick_of_in pick_of_id
      enabled_distinct streaming_enabled_set)

section \<open>Properties\<close>

lemma is_enabled_frame [simp]:
  "is_enabled (c\<lparr>cfg_source := x\<rparr>) z = is_enabled c z"
  "is_enabled (c\<lparr>cfg_streaming_source := x\<rparr>) z = is_enabled c z"
  by (cases z; simp)+

lemma sources_frame [simp]:
  "enabled_sources (c\<lparr>cfg_source := x\<rparr>) = enabled_sources c"
  "enabled_sources (c\<lparr>cfg_streaming_source := x\<rparr>) = enabled_sources c"
  "streaming_enabled_sources (c\<lparr>cfg_source := x\<rparr>) = streaming_enabled_sources c"
  "streaming_enabled_sources (c\<lparr>cfg_streaming_source := x\<rparr>) = streaming_enabled_sources c"
proof -
  have e: "is_enabled (c\<lparr>cfg_source := x\<rparr>) = is_enabled c" "is_enabled (c\<lparr>cfg_streaming_source := x\<rparr>) = is_enabled c"
    by (simp_all add: fun_eq_iff)
  show "enabled_sources (c\<lparr>cfg_source := x\<rparr>) = enabled_sources c"
    "enabled_sources (c\<lparr>cfg_streaming_source := x\<rparr>) = enabled_sources c"
    "streaming_enabled_sources (c\<lparr>cfg_source := x\<rparr>) = streaming_enabled_sources c"
    "streaming_enabled_sources (c\<lparr>cfg_streaming_source := x\<rparr>) = streaming_enabled_sources c"
    by (simp_all add: enabled_sources_def streaming_enabled_sources_def e)
qed

lemma renormalize_eq: "renormalize c = c\<lparr>cfg_source := normalized_source c (cfg_source c),
    cfg_streaming_source := normalized_streaming_source c (cfg_streaming_source c)\<rparr>"
  by (simp add: renormalize_def Let_def menus)

lemma renormalize_sources [simp]:
  "enabled_sources (renormalize c) = enabled_sources c"
  "streaming_enabled_sources (renormalize c) = streaming_enabled_sources c"
  by (simp_all add: renormalize_eq)

lemma renormalize_idem: "renormalize (renormalize c) = renormalize c"
  using search_menu.normal_idem [of c "cfg_source c"] streaming_menu.normal_idem [of c "cfg_streaming_source c"]
  by (simp add: renormalize_eq [of "renormalize c"] menus) (simp add: renormalize_eq menus)

lemma renormalize_on_menu:
  "cfg_source (renormalize c) \<in> set (selectable_sources (renormalize c))"
  "cfg_streaming_source (renormalize c) \<in> set (selectable_streaming_sources (renormalize c))"
  using search_menu.normal_in [of c "cfg_source c"] streaming_menu.normal_in [of c "cfg_streaming_source c"]
  by (simp_all add: menus) (simp_all add: renormalize_eq menus)

text \<open>Whatever is toggled in the settings, the selected search source and the selected streaming
  source stay on their menus, and normalizing a configuration once is enough.\<close>

theorem selected_sources_on_menu:
  "cfg_source (set_enabled c s b) \<in> set (selectable_sources (set_enabled c s b))
   \<and> cfg_streaming_source (set_enabled c s b) \<in> set (selectable_streaming_sources (set_enabled c s b))
   \<and> renormalize (set_enabled c s b) = set_enabled c s b"
  by (simp add: set_enabled_def renormalize_on_menu renormalize_idem)

text \<open>Cycling through the source menus: stepping forward and back returns to the same source, and
  stepping forward reaches every source of the menu.\<close>

theorem source_cycling:
  assumes "s \<in> set (selectable_sources c)" "t \<in> set (selectable_sources c)"
  shows "cycled_source c (cycled_source c s True) False = s
    \<and> (\<exists>k < length (selectable_sources c). ((\<lambda>s. cycled_source c s True) ^^ k) s = t)"
proof -
  let ?m = "selectable_sources c"
  let ?n = "length ?m"
  obtain i j where ij: "i < ?n" "?m ! i = s" "j < ?n" "?m ! j = t" using assms by (auto simp: in_set_conv_nth)
  let ?k = "(j + ?n - i) mod ?n"
  have "(i + ?k) mod ?n = j" using ij(1,3) by (simp add: mod_add_right_eq)
  moreover have "?k < ?n" using ij(1) by (intro mod_less_divisor) linarith
  moreover have "((\<lambda>s. cycle_in ?m s True) ^^ ?k) s = ?m ! ((i + ?k) mod ?n)"
    using search_menu.cycle_reaches [OF ij(1), of ?k] ij(2) by simp
  ultimately have "\<exists>k < ?n. ((\<lambda>s. cycle_in ?m s True) ^^ k) s = t" using ij(4) by metis
  then show ?thesis using search_menu.cycle_back [OF assms(1)] by (simp add: cycled_source_def)
qed

theorem source_cycling_witness:
  "cycled_source search_config_default (cycled_source search_config_default AllSources True) False = AllSources"
proof -
  have "AllSources \<in> set (selectable_sources search_config_default)"
    "Audius \<in> set (selectable_sources search_config_default)"
    by (simp_all add: selectable_sources_def enabled_sources_def concrete_sources_def search_config_default_def Let_def)
  then show ?thesis using source_cycling [of AllSources search_config_default Audius] by blast
qed

end
