(* ===== verification/Song.thy ===== *)
theory Song
  imports SearchSource
begin

text \<open>
  \<open>src/api/domain.rs\<close>: the playable-track model every queue, library and transfer component
  shares, and the metadata sanitiser all catalog strings pass through.
\<close>

definition MAX_TITLE_CHARS :: nat where "MAX_TITLE_CHARS = 300"
definition MAX_ARTIST_CHARS :: nat where "MAX_ARTIST_CHARS = 200"
definition MAX_ALBUM_CHARS :: nat where "MAX_ALBUM_CHARS = 200"
definition MAX_DURATION_CHARS :: nat where "MAX_DURATION_CHARS = 32"
definition MAX_PROVIDER_ID_CHARS :: nat where "MAX_PROVIDER_ID_CHARS = 256"

definition is_forbidden_metadata_char :: "nat \<Rightarrow> bool" where
  "is_forbidden_metadata_char c \<longleftrightarrow> is_control c
     \<or> c \<in> {0x200b, 0x200c, 0x200d, 0x200e, 0x200f}
     \<or> (0x202a \<le> c \<and> c \<le> 0x202e) \<or> (0x2066 \<le> c \<and> c \<le> 0x2069) \<or> c = 0xfeff"

text \<open>The loop of the sanitiser, with \<open>kept\<close> the characters already pushed.\<close>

fun sanitize_loop :: "nat \<Rightarrow> nat \<Rightarrow> ustring \<Rightarrow> ustring" where
  "sanitize_loop max_chars kept [] = []"
| "sanitize_loop max_chars kept (ch # rest) =
     (if kept \<ge> max_chars then []
      else if is_forbidden_metadata_char ch then sanitize_loop max_chars kept rest
      else ch # sanitize_loop max_chars (kept + 1) rest)"

definition sanitize_metadata_text :: "ustring \<Rightarrow> nat \<Rightarrow> ustring" where
  "sanitize_metadata_text raw max_chars = trim (sanitize_loop max_chars 0 (trim raw))"

definition sanitize_optional_metadata :: "ustring option \<Rightarrow> nat \<Rightarrow> ustring option" where
  "sanitize_optional_metadata raw max_chars = (case raw of None \<Rightarrow> None
     | Some v \<Rightarrow> let w = sanitize_metadata_text v max_chars in if trim w = [] then None else Some w)"

definition sanitize_metadata_vec :: "ustring list \<Rightarrow> nat \<Rightarrow> ustring list" where
  "sanitize_metadata_vec raw max_chars =
     filter (\<lambda>v. trim v \<noteq> []) (map (\<lambda>v. sanitize_metadata_text v max_chars) raw)"

record open_subsonic_item_ref =
  backend_id :: ustring
  account_scope_id :: ustring
  item_id :: ustring

datatype playable_ref =
    YoutubeVideo ustring
  | DirectUrl search_source ustring
  | YtdlpUrl search_source ustring
  | AudiusTrackId ustring ustring
  | JamendoTrackId ustring ustring
  | ArchiveFile ustring ustring ustring
  | OpenSubsonicRef open_subsonic_item_ref "ustring option"
  | RadioStream ustring

record song =
  video_id :: ustring
  title :: ustring
  artist :: ustring
  artists :: "ustring list"
  duration :: ustring
  album :: "ustring option"
  album_artist :: "ustring option"
  album_artists :: "ustring list"
  album_release_date :: "ustring option"
  album_release_date_precision :: "ustring option"
  album_total_tracks :: "u32 option"
  album_type :: "ustring option"
  album_art_url :: "ustring option"
  disc_number :: "u32 option"
  track_number :: "u32 option"
  explicit :: "bool option"
  isrc :: "ustring option"
  origin_key :: "ustring option"
  origin_url :: "ustring option"
  import_session_id :: "ustring option"
  import_source_order :: "u32 option"
  duration_secs :: "u32 option"
  source :: search_source
  playable :: "playable_ref option"
  local_path :: "ustring option"
  yt_video_id :: "ustring option"
  radio_country_code :: "ustring option"

definition song_remote :: "ustring \<Rightarrow> ustring \<Rightarrow> ustring \<Rightarrow> ustring \<Rightarrow> song" where
  "song_remote vid ttl art dur = \<lparr>
     video_id = sanitize_metadata_text vid MAX_PROVIDER_ID_CHARS,
     title = sanitize_metadata_text ttl MAX_TITLE_CHARS,
     artist = sanitize_metadata_text art MAX_ARTIST_CHARS,
     artists = [], duration = sanitize_metadata_text dur MAX_DURATION_CHARS,
     album = None, album_artist = None, album_artists = [], album_release_date = None,
     album_release_date_precision = None, album_total_tracks = None, album_type = None,
     album_art_url = None, disc_number = None, track_number = None, explicit = None, isrc = None,
     origin_key = None, origin_url = None, import_session_id = None, import_source_order = None,
     duration_secs = None, source = Youtube, playable = None, local_path = None,
     yt_video_id = None, radio_country_code = None\<rparr>"

definition is_local :: "song \<Rightarrow> bool" where
  "is_local s \<longleftrightarrow> local_path s \<noteq> None"

definition is_radio_station :: "song \<Rightarrow> bool" where
  "is_radio_station s \<longleftrightarrow> source s = RadioBrowser
     \<or> (case playable s of Some (RadioStream _) \<Rightarrow> True | _ \<Rightarrow> False)"

section \<open>The sanitiser\<close>

text \<open>\<open>clean n s\<close>: at most \<open>n\<close> characters, none of them forbidden, no white space at the ends.\<close>

definition clean :: "nat \<Rightarrow> ustring \<Rightarrow> bool" where
  "clean n s \<longleftrightarrow> length s \<le> n \<and> (\<forall>c \<in> set s. \<not> is_forbidden_metadata_char c) \<and> trimmed s"

lemma sanitize_loop_take:
  "sanitize_loop m k s = take (m - k) (filter (\<lambda>c. \<not> is_forbidden_metadata_char c) s)"
  by (induction m k s rule: sanitize_loop.induct) (auto simp: take_Cons' Suc_diff_le not_le)

lemma sanitize_clean: "clean m (sanitize_metadata_text raw m)"
proof -
  let ?t = "sanitize_loop m 0 (trim raw)"
  have "length (trim ?t) \<le> m"
    by (rule order_trans [OF length_trim]) (simp add: sanitize_loop_take)
  moreover have "set (trim ?t) \<subseteq> {c. \<not> is_forbidden_metadata_char c}"
    by (rule order_trans [OF set_trim]) (auto simp: sanitize_loop_take dest: in_set_takeD)
  ultimately show ?thesis
    by (auto simp: clean_def sanitize_metadata_text_def trim_trimmed)
qed

lemma sanitize_id: "clean m s \<Longrightarrow> sanitize_metadata_text s m = s"
  by (simp add: clean_def sanitize_metadata_text_def trim_id sanitize_loop_take)

section \<open>Properties\<close>

text \<open>The metadata sanitizer delivers text without control or bidirectional-override characters,
  without white space at its ends and within its bound, and sanitizing again changes nothing; so the
  identifiers and labels of every remote song are clean.\<close>

theorem sanitizer_clean_idempotent:
  "clean m (sanitize_metadata_text raw m)
   \<and> sanitize_metadata_text (sanitize_metadata_text raw m) m = sanitize_metadata_text raw m
   \<and> clean MAX_PROVIDER_ID_CHARS (video_id (song_remote vid ttl art dur))
   \<and> clean MAX_TITLE_CHARS (title (song_remote vid ttl art dur))
   \<and> clean MAX_ARTIST_CHARS (artist (song_remote vid ttl art dur))"
  by (simp add: sanitize_clean sanitize_id song_remote_def)

end
