(* ===== verification/PlaybackPolicy.thy ===== *)
theory PlaybackPolicy
  imports Song
begin

text \<open>
  The crate \<open>crates/yututui-core\<close>: playback rules shared by the interactive and the headless
  owner.  \<open>lib.rs\<close> holds the repeat mode, \<open>playback.rs\<close> the mode transitions and the autoplay
  refill admission, \<open>sleep_timer.rs\<close> the sleep-timer state machine.

  Durations and instants are nanosecond counts.  The one expression of the sleep timer computed
  in binary floating point (how far the fade has dropped) is the parameter \<open>fall\<close> of the model.
\<close>

datatype repeat = RepeatOff | RepeatAll | RepeatOne

fun cycled :: "repeat \<Rightarrow> repeat" where
  "cycled RepeatOff = RepeatAll"
| "cycled RepeatAll = RepeatOne"
| "cycled RepeatOne = RepeatOff"

definition is_on :: "repeat \<Rightarrow> bool" where
  "is_on r \<longleftrightarrow> r \<noteq> RepeatOff"

section \<open>Mode transitions\<close>

record mode_state =
  ms_repeat :: repeat
  ms_streaming :: bool

datatype mode_action = CycleRepeat | SetRepeat repeat | SetStreaming bool

datatype mode_error = IncompatiblePlaybackModes

record mode_transition =
  mt_state :: mode_state
  mt_changed :: bool

definition mode_new :: "repeat \<Rightarrow> bool \<Rightarrow> mode_state" where
  "mode_new r b = \<lparr>ms_repeat = r, ms_streaming = b\<rparr>"

fun mode_target :: "mode_state \<Rightarrow> mode_action \<Rightarrow> mode_error + mode_state" where
  "mode_target s CycleRepeat =
     (if ms_repeat s = RepeatOff \<and> ms_streaming s then Inl IncompatiblePlaybackModes
      else Inr (mode_new (cycled (ms_repeat s)) (ms_streaming s)))"
| "mode_target s (SetRepeat r) =
     (if is_on r \<and> ms_streaming s then Inl IncompatiblePlaybackModes
      else Inr (mode_new r (ms_streaming s)))"
| "mode_target s (SetStreaming b) =
     (if b \<and> is_on (ms_repeat s) then Inl IncompatiblePlaybackModes
      else Inr (mode_new (ms_repeat s) b))"

definition transition :: "mode_state \<Rightarrow> mode_action \<Rightarrow> mode_error + mode_transition" where
  "transition s a = (case mode_target s a of Inl e \<Rightarrow> Inl e
     | Inr t \<Rightarrow> Inr \<lparr>mt_state = t, mt_changed = (t \<noteq> s)\<rparr>)"

definition set_blocked_by_streaming :: "repeat \<Rightarrow> bool \<Rightarrow> bool" where
  "set_blocked_by_streaming r b =
     (case transition (mode_new r b) (SetRepeat r) of Inl _ \<Rightarrow> True | Inr _ \<Rightarrow> False)"

definition cycle_blocked_by_streaming :: "repeat \<Rightarrow> bool \<Rightarrow> bool" where
  "cycle_blocked_by_streaming r b =
     (case transition (mode_new r b) CycleRepeat of Inl _ \<Rightarrow> True | Inr _ \<Rightarrow> False)"

definition streaming_enabled_with_repeat :: "bool \<Rightarrow> repeat \<Rightarrow> bool" where
  "streaming_enabled_with_repeat b r \<longleftrightarrow> b \<and> \<not> is_on r"

text \<open>An owner applies accepted transitions and keeps its state on a rejection.\<close>

fun mode_run :: "mode_state \<Rightarrow> mode_action list \<Rightarrow> mode_state" where
  "mode_run s [] = s"
| "mode_run s (a # as) =
     (case transition s a of Inl _ \<Rightarrow> mode_run s as | Inr t \<Rightarrow> mode_run (mt_state t) as)"

definition exclusive :: "mode_state \<Rightarrow> bool" where
  "exclusive s \<longleftrightarrow> \<not> (is_on (ms_repeat s) \<and> ms_streaming s)"

lemma mode_target_exclusive: "exclusive s \<Longrightarrow> mode_target s a = Inr t \<Longrightarrow> exclusive t"
  by (cases a; cases "ms_repeat s") (auto simp: exclusive_def is_on_def mode_new_def split: if_splits)

lemma mode_run_exclusive: "exclusive s \<Longrightarrow> exclusive (mode_run s as)"
  by (induction as arbitrary: s)
    (auto simp: transition_def dest: mode_target_exclusive split: sum.splits)

section \<open>Autoplay refill admission\<close>

definition AUTOPLAY_THRESHOLD :: nat where "AUTOPLAY_THRESHOLD = 3"
definition AUTOPLAY_COOLDOWN :: nat where "AUTOPLAY_COOLDOWN = 60 * 10 ^ 9"

record refill_seed_track =
  seed_title :: ustring
  seed_artist :: ustring
  seed_track_video_id :: ustring
  seed_is_radio_station :: bool

record autoplay_refill =
  refill_seed :: ustring
  refill_seed_video_id :: ustring

text \<open>The separator of \<open>format!("{} \<emdash> {}")\<close> is a space, U+2014 and a space.\<close>

definition plan_autoplay_refill :: "bool \<Rightarrow> bool \<Rightarrow> bool \<Rightarrow> nat \<Rightarrow> nat option
    \<Rightarrow> refill_seed_track option \<Rightarrow> autoplay_refill option" where
  "plan_autoplay_refill active refill_pending force remaining since_last current =
     (if \<not> active \<or> refill_pending then None
      else if \<not> force \<and> remaining > AUTOPLAY_THRESHOLD then None
      else if \<not> force \<and> (case since_last of None \<Rightarrow> False | Some e \<Rightarrow> e < AUTOPLAY_COOLDOWN) then None
      else case current of None \<Rightarrow> None
        | Some t \<Rightarrow> if seed_is_radio_station t then None
            else Some \<lparr>refill_seed = seed_title t @ [32, 0x2014, 32] @ seed_artist t,
                       refill_seed_video_id = seed_track_video_id t\<rparr>)"

section \<open>Sleep timer\<close>

definition SLEEP_MAX_MINUTES :: nat where "SLEEP_MAX_MINUTES = 12 * 60"

definition nanos :: "nat \<Rightarrow> nat" where "nanos secs = secs * 10 ^ 9"

record sleep_timer =
  deadline :: nat
  fade :: nat
  pre_fade_volume :: "int option"
  fading :: bool
  last_sent :: "int option"

datatype sleep_step = StepIdle | StepVolume int | StepFired

definition armed :: "nat \<Rightarrow> u32 \<Rightarrow> u32 \<Rightarrow> sleep_timer" where
  "armed now minutes fade_secs =
     \<lparr>deadline = now + nanos (min (unat minutes) SLEEP_MAX_MINUTES * 60),
      fade = nanos (unat fade_secs), pre_fade_volume = None, fading = False, last_sent = None\<rparr>"

definition remaining_secs :: "sleep_timer \<Rightarrow> nat \<Rightarrow> nat option" where
  "remaining_secs t now =
     (if now \<le> deadline t then Some ((deadline t - now) div 10 ^ 9) else None)"

definition fired :: "sleep_timer \<Rightarrow> nat \<Rightarrow> bool" where
  "fired t now \<longleftrightarrow> now \<ge> deadline t"

text \<open>\<open>fall pre fade elapsed\<close> stands for \<open>((pre as f64) * (step_index as f64 / steps as f64)).round()\<close>.
  \<open>Instant::checked_sub\<close> yields no instant before the clock's origin.\<close>

definition advance :: "(int \<Rightarrow> nat \<Rightarrow> nat \<Rightarrow> int) \<Rightarrow> sleep_timer \<Rightarrow> nat \<Rightarrow> int
    \<Rightarrow> sleep_step \<times> sleep_timer" where
  "advance fall t now current_volume =
     (if fired t now then (StepFired, t)
      else if fade t = 0 then (StepIdle, t)
      else if fading t \<and> last_sent t \<noteq> Some current_volume then
        (StepIdle, t\<lparr>fading := False, pre_fade_volume := None, last_sent := None\<rparr>)
      else
        let fade_start = (if fade t \<le> deadline t then deadline t - fade t else deadline t)
        in if now < fade_start then (StepIdle, t)
        else
          let t = (if \<not> fading t
                   then t\<lparr>fading := True, pre_fade_volume := Some current_volume\<rparr> else t);
              pre = (case pre_fade_volume t of None \<Rightarrow> current_volume | Some p \<Rightarrow> p);
              remaining = deadline t - now;
              elapsed = fade t - remaining;
              nxt = max (pre - fall pre (fade t) elapsed) 0
          in if last_sent t = Some nxt then (StepIdle, t)
             else (StepVolume nxt, t\<lparr>last_sent := Some nxt\<rparr>))"

lemma advance_frame: "advance d t now v = (r, t') \<Longrightarrow> deadline t' = deadline t \<and> fade t' = fade t"
  by (auto simp: advance_def Let_def split: if_splits)

section \<open>Properties\<close>

text \<open>Repeat and streaming exclude each other: from a state with at most one of them on, no
  sequence of accepted and rejected mode actions turns on both, and a rejected action changes
  nothing.\<close>

theorem modes_stay_exclusive:
  assumes "exclusive s"
  shows "exclusive (mode_run s as) \<and> (transition s a = Inl err \<longrightarrow> mode_run s (a # as) = mode_run s as)"
  using mode_run_exclusive [OF assms] by simp

theorem modes_stay_exclusive_witness:
  "exclusive (mode_run (mode_new RepeatOff True) [CycleRepeat, SetStreaming False, SetRepeat RepeatOne, SetStreaming True])"
proof -
  have "exclusive (mode_new RepeatOff True)" by (simp add: exclusive_def mode_new_def is_on_def)
  then show ?thesis using modes_stay_exclusive by blast
qed

text \<open>The sleep timer fires exactly from its deadline on, whatever the volume and the fade do, and
  a volume it asks for on the way is never negative; it is asked for only inside the fade window, and
  the deadline and the fade length never change.\<close>

theorem sleep_timer_fires_at_deadline:
  "(fst (advance fall t now v) = StepFired \<longleftrightarrow> deadline t \<le> now)
   \<and> (\<forall>w. fst (advance fall t now v) = StepVolume w \<longrightarrow>
        0 \<le> w \<and> now < deadline t \<and> (fade t \<le> deadline t \<longrightarrow> deadline t - fade t \<le> now))
   \<and> deadline (snd (advance fall t now v)) = deadline t \<and> fade (snd (advance fall t now v)) = fade t"
  by (auto simp: advance_def fired_def Let_def split: if_splits)

theorem sleep_timer_fires_at_deadline_witness:
  "fst (advance (\<lambda>p f e. 0) (armed 0 1 0) 60000000000 50) = StepFired"
  using sleep_timer_fires_at_deadline [of "\<lambda>p f e. 0" "armed 0 1 0" 60000000000 50]
  by (simp add: armed_def nanos_def SLEEP_MAX_MINUTES_def)

text \<open>A manual volume change during the fade cancels it for one tick only: the next tick inside the
  window starts a new fade from the manual volume.\<close>

theorem cancelled_fade_restarts:
  assumes "fading t" "last_sent t \<noteq> Some v" "0 < fade t" "fade t \<le> deadline t"
    "deadline t - fade t \<le> now" "now < deadline t" "deadline t - fade t \<le> now'" "now' < deadline t"
    "advance fall t now v = (r, t1)"
  shows "r = StepIdle \<and> \<not> fading t1
    \<and> fst (advance fall t1 now' v) = StepVolume (max (v - fall v (fade t) (fade t - (deadline t - now'))) 0)"
  using assms by (auto simp: advance_def fired_def Let_def)

theorem cancelled_fade_restarts_witness:
  "\<exists>t1. advance (\<lambda>p f e. int (e div 10)) \<lparr>deadline = 100, fade = 50, pre_fade_volume = Some 80, fading = True,
      last_sent = Some 79\<rparr> 60 70 = (StepIdle, t1)
    \<and> fst (advance (\<lambda>p f e. int (e div 10)) t1 70 70) = StepVolume 68"
  using cancelled_fade_restarts [of "\<lparr>deadline = 100, fade = 50, pre_fade_volume = Some 80, fading = True,
      last_sent = Some 79\<rparr>" 70 60 70 "\<lambda>p f e. int (e div 10)"]
  by (simp add: advance_def fired_def)

end
