(* ===== verification/Queue.thy ===== *)
theory Queue
  imports PlaybackPolicy
begin

text \<open>
  \<open>src/queue.rs\<close>: the play queue.  \<open>songs\<close> holds the tracks in insertion order, \<open>order\<close> is the
  permutation of their indices that is played, \<open>cursor\<close> a position in \<open>order\<close>.

  The process-global revision counter \<open>QUEUE_REV\<close> is passed explicitly (\<open>g\<close>, a 64-bit word,
  wrapping).  The random generator is \<open>fastrand\<close>, a crate the program only calls: its shuffle is
  the parameter \<open>shuf\<close>, of which the code relies on one documented fact, that it permutes
  (\<open>permuting\<close>).  A function of type \<open>\<dots> run\<close> can panic; debug assertions count as panics.
\<close>

definition MAX_QUEUE_LEN :: nat where "MAX_QUEUE_LEN = 999"

type_synonym 'rng shuffler = "'rng \<Rightarrow> nat list \<Rightarrow> nat list \<times> 'rng"

definition permuting :: "'rng shuffler \<Rightarrow> bool" where
  "permuting shuf \<longleftrightarrow> (\<forall>r xs. mset (fst (shuf r xs)) = mset xs)"

record 'rng queue =
  q_songs :: "song list"
  q_order :: "nat list"
  q_cursor :: nat
  q_shuffle :: bool
  q_repeat :: repeat
  q_rev :: u64
  q_rng :: 'rng

record queue_snapshot =
  s_songs :: "song list"
  s_order :: "nat list"
  s_cursor :: nat
  s_shuffle :: bool
  s_repeat :: repeat

section \<open>Revisions\<close>

definition next_queue_rev :: "u64 \<Rightarrow> u64 \<times> u64" where
  "next_queue_rev g = (g, g + 1)"

definition bump_rev :: "'rng queue \<Rightarrow> u64 \<Rightarrow> 'rng queue \<times> u64" where
  "bump_rev q g = (let (r, g') = next_queue_rev g in (q\<lparr>q_rev := r\<rparr>, g'))"

definition queue_default :: "'rng \<Rightarrow> u64 \<Rightarrow> 'rng queue \<times> u64" where
  "queue_default rng g = (let (r, g') = next_queue_rev g in
     (\<lparr>q_songs = [], q_order = [], q_cursor = 0, q_shuffle = False, q_repeat = RepeatOff,
       q_rev = r, q_rng = rng\<rparr>, g'))"

section \<open>Queries\<close>

definition queue_is_empty :: "'rng queue \<Rightarrow> bool" where
  "queue_is_empty q \<longleftrightarrow> q_songs q = []"

definition queue_len :: "'rng queue \<Rightarrow> nat" where
  "queue_len q = length (q_songs q)"

definition remaining_capacity :: "'rng queue \<Rightarrow> nat" where
  "remaining_capacity q = MAX_QUEUE_LEN - length (q_songs q)"

definition contains_video_id :: "'rng queue \<Rightarrow> ustring \<Rightarrow> bool" where
  "contains_video_id q v \<longleftrightarrow> (\<exists>s \<in> set (q_songs q). video_id s = v)"

definition snapshot :: "'rng queue \<Rightarrow> queue_snapshot" where
  "snapshot q = \<lparr>s_songs = q_songs q, s_order = q_order q, s_cursor = q_cursor q,
     s_shuffle = q_shuffle q, s_repeat = q_repeat q\<rparr>"

definition song_at_cursor :: "'rng queue \<Rightarrow> nat \<Rightarrow> song option" where
  "song_at_cursor q cursor = Option.bind (vec_get (q_order q) cursor) (vec_get (q_songs q))"

definition current :: "'rng queue \<Rightarrow> song option" where
  "current q = song_at_cursor q (q_cursor q)"

definition queue_position :: "'rng queue \<Rightarrow> nat \<times> nat" where
  "queue_position q = (q_cursor q + 1, length (q_songs q))"

definition ordered_iter :: "'rng queue \<Rightarrow> song list" where
  "ordered_iter q = List.map_filter (vec_get (q_songs q)) (q_order q)"

definition plan_next_cursor :: "'rng queue \<Rightarrow> nat \<Rightarrow> bool \<Rightarrow> nat option" where
  "plan_next_cursor q from auto =
     (if q_songs q = [] \<or> from \<ge> length (q_order q) then None
      else if auto \<and> q_repeat q = RepeatOne then Some from
      else if from + 1 < length (q_order q) then Some (from + 1)
      else if q_repeat q = RepeatAll then Some 0
      else None)"

definition plan_prev_cursor :: "'rng queue \<Rightarrow> nat \<Rightarrow> nat option" where
  "plan_prev_cursor q from =
     (if q_songs q = [] \<or> from \<ge> length (q_order q) then None
      else if from > 0 then Some (from - 1)
      else if q_repeat q = RepeatAll then Some (length (q_order q) - 1)
      else Some from)"

definition plan_goto_cursor :: "'rng queue \<Rightarrow> nat \<Rightarrow> nat option" where
  "plan_goto_cursor q target = (if target < length (q_order q) then Some target else None)"

definition planned_transition_matches ::
    "'rng queue \<Rightarrow> u64 \<Rightarrow> nat \<Rightarrow> ustring option \<Rightarrow> nat option \<Rightarrow> bool" where
  "planned_transition_matches q expected_rev expected_cursor expected_video_id target_cursor \<longleftrightarrow>
     q_rev q = expected_rev
     \<and> q_cursor q = expected_cursor
     \<and> map_option video_id (current q) = expected_video_id
     \<and> (case target_cursor of None \<Rightarrow> True | Some c \<Rightarrow> c < length (q_order q))"

text \<open>The four assertions in the order of the source; \<open>None\<close> is the panic of the first failing one.\<close>

definition validate_planned_transition ::
    "'rng queue \<Rightarrow> u64 \<Rightarrow> nat \<Rightarrow> ustring option \<Rightarrow> nat option \<Rightarrow> unit run" where
  "validate_planned_transition q expected_rev expected_cursor expected_video_id target_cursor =
     (if q_rev q \<noteq> expected_rev then None
      else if q_cursor q \<noteq> expected_cursor then None
      else if map_option video_id (current q) \<noteq> expected_video_id then None
      else case target_cursor of None \<Rightarrow> Some ()
        | Some c \<Rightarrow> if c < length (q_order q) then Some () else None)"

definition commit_planned_cursor ::
    "'rng queue \<Rightarrow> u64 \<Rightarrow> nat \<Rightarrow> ustring option \<Rightarrow> nat \<Rightarrow> 'rng queue run" where
  "commit_planned_cursor q expected_rev expected_cursor expected_video_id target_cursor = do {
     validate_planned_transition q expected_rev expected_cursor expected_video_id (Some target_cursor);
     Some (q\<lparr>q_cursor := target_cursor\<rparr>) }"

definition remaining :: "'rng queue \<Rightarrow> nat" where
  "remaining q = length (q_order q) - (q_cursor q + 1)"

definition upcoming :: "'rng queue \<Rightarrow> nat \<Rightarrow> song list" where
  "upcoming q n = List.map_filter (vec_get (q_songs q)) (take n (drop (q_cursor q + 1) (q_order q)))"

definition peek_next :: "'rng queue \<Rightarrow> song option" where
  "peek_next q =
     (if q_songs q = [] then None
      else if q_cursor q + 1 < length (q_order q) then song_at_cursor q (q_cursor q + 1)
      else if q_repeat q = RepeatAll then song_at_cursor q 0
      else None)"

section \<open>Order rebuilding\<close>

definition swap :: "nat \<Rightarrow> nat \<Rightarrow> 'a list \<Rightarrow> 'a list" where
  "swap i j xs = xs[i := xs ! j, j := xs ! i]"

definition rebuild_order :: "'rng shuffler \<Rightarrow> 'rng queue \<Rightarrow> nat \<Rightarrow> 'rng queue" where
  "rebuild_order shuf q keep =
     (let n = length (q_songs q); order = [0..<n]
      in if n = 0 then q\<lparr>q_order := order, q_cursor := 0\<rparr>
         else if q_shuffle q then
           let (shuffled, rng) = shuf (q_rng q) order;
               order = (case position (\<lambda>x. x = keep) shuffled of
                   Some pos \<Rightarrow> swap 0 pos shuffled | None \<Rightarrow> shuffled)
           in q\<lparr>q_order := order, q_cursor := 0, q_rng := rng\<rparr>
         else q\<lparr>q_order := order, q_cursor := min keep (n - 1)\<rparr>)"

definition replace_without_revision ::
    "'rng shuffler \<Rightarrow> 'rng queue \<Rightarrow> song list \<Rightarrow> nat \<Rightarrow> 'rng queue" where
  "replace_without_revision shuf q songs start =
     (let songs = take MAX_QUEUE_LEN songs; start = min start (length songs - 1)
      in rebuild_order shuf (q\<lparr>q_songs := songs\<rparr>) start)"

definition set_shuffle_without_revision ::
    "'rng shuffler \<Rightarrow> 'rng queue \<Rightarrow> bool \<Rightarrow> bool \<times> 'rng queue" where
  "set_shuffle_without_revision shuf q b =
     (if q_shuffle q = b then (False, q)
      else let q = q\<lparr>q_shuffle := b\<rparr>
        in (True, case vec_get (q_order q) (q_cursor q) of
              Some current_idx \<Rightarrow> rebuild_order shuf q current_idx | None \<Rightarrow> q))"

text \<open>The permutation test of the snapshot: the loop over \<open>order\<close> with the \<open>seen\<close> vector.\<close>

fun all_fresh :: "nat \<Rightarrow> bool list \<Rightarrow> nat list \<Rightarrow> bool" where
  "all_fresh n seen [] = True"
| "all_fresh n seen (i # is) = (i < n \<and> \<not> seen ! i \<and> all_fresh n (seen[i := True]) is)"

definition is_permutation :: "nat \<Rightarrow> nat list \<Rightarrow> bool" where
  "is_permutation n order \<longleftrightarrow> length order = n \<and> all_fresh n (replicate n False) order"

definition restore_snapshot_without_revision ::
    "'rng shuffler \<Rightarrow> 'rng queue \<Rightarrow> queue_snapshot \<Rightarrow> 'rng queue" where
  "restore_snapshot_without_revision shuf q s =
     (let q = q\<lparr>q_songs := take MAX_QUEUE_LEN (s_songs s), q_order := s_order s,
                q_shuffle := s_shuffle s, q_repeat := s_repeat s\<rparr>;
          n = length (q_songs q)
      in if \<not> is_permutation n (q_order q) then rebuild_order shuf q (min (s_cursor s) (n - 1))
         else q\<lparr>q_cursor := (if q_order q = [] then 0
                             else min (s_cursor s) (length (q_order q) - 1))\<rparr>)"

section \<open>Appending and inserting\<close>

definition extend_without_revision ::
    "'rng shuffler \<Rightarrow> 'rng queue \<Rightarrow> song list \<Rightarrow> nat \<times> 'rng queue" where
  "extend_without_revision shuf q extra =
     (let free = MAX_QUEUE_LEN - length (q_songs q)
      in if free = 0 then (0, q)
      else
        let taken = take free extra;
            new_indices = [length (q_songs q)..<length (q_songs q) + length taken];
            q = q\<lparr>q_songs := q_songs q @ taken\<rparr>
        in if new_indices = [] then (0, q)
        else
          let added = length new_indices;
              (new_indices, rng) =
                (if q_shuffle q then shuf (q_rng q) new_indices else (new_indices, q_rng q))
          in (added, q\<lparr>q_order := q_order q @ new_indices, q_rng := rng\<rparr>))"

definition queue_extend ::
    "'rng shuffler \<Rightarrow> 'rng queue \<Rightarrow> u64 \<Rightarrow> song list \<Rightarrow> nat \<times> 'rng queue \<times> u64" where
  "queue_extend shuf q g extra =
     (let (added, q) = extend_without_revision shuf q extra
      in (added, if added > 0 then bump_rev q g else (q, g)))"

text \<open>The loop \<open>for (offset, idx) in new_indices.enumerate() { order.insert(at + offset, idx) }\<close>.\<close>

fun insert_block :: "nat \<Rightarrow> nat list \<Rightarrow> nat list \<Rightarrow> nat list run" where
  "insert_block at [] order = Some order"
| "insert_block at (idx # rest) order = do {
     order' \<leftarrow> vec_insert at idx order;
     insert_block (at + 1) rest order' }"

definition insert_next_many :: "'rng queue \<Rightarrow> u64 \<Rightarrow> song list \<Rightarrow> (nat \<times> 'rng queue \<times> u64) run" where
  "insert_next_many q g extra =
     (let free = MAX_QUEUE_LEN - length (q_songs q)
      in if free = 0 then Some (0, q, g)
      else
        let old_len = length (q_songs q); extra = take free extra
        in if extra = [] then Some (0, q, g)
        else
          let added = length extra;
              q = q\<lparr>q_songs := q_songs q @ extra\<rparr>;
              new_indices = [old_len..<old_len + added]
          in if q_order q = []
             then Some (added, bump_rev (q\<lparr>q_order := new_indices, q_cursor := 0\<rparr>) g)
             else do {
               order \<leftarrow> insert_block (q_cursor q + 1) new_indices (q_order q);
               Some (added, bump_rev (q\<lparr>q_order := order\<rparr>) g) })"

definition play_now_many_without_revision ::
    "'rng queue \<Rightarrow> song list \<Rightarrow> (nat \<times> 'rng queue) run" where
  "play_now_many_without_revision q extra =
     (let free = MAX_QUEUE_LEN - length (q_songs q)
      in if free = 0 then Some (0, q)
      else
        let old_len = length (q_songs q); extra = take free extra
        in if extra = [] then Some (0, q)
        else
          let added = length extra;
              q = q\<lparr>q_songs := q_songs q @ extra\<rparr>;
              new_indices = [old_len..<old_len + added]
          in if q_order q = []
             then Some (added, q\<lparr>q_order := new_indices, q_cursor := 0\<rparr>)
             else do {
               let at = q_cursor q + 1;
               order \<leftarrow> insert_block at new_indices (q_order q);
               Some (added, q\<lparr>q_order := order, q_cursor := at\<rparr>) })"

definition play_now_many :: "'rng queue \<Rightarrow> u64 \<Rightarrow> song list \<Rightarrow> (nat \<times> 'rng queue \<times> u64) run" where
  "play_now_many q g extra = do {
     (added, q) \<leftarrow> play_now_many_without_revision q extra;
     Some (added, if added > 0 then bump_rev q g else (q, g)) }"

definition play_now :: "'rng queue \<Rightarrow> u64 \<Rightarrow> song \<Rightarrow> (bool \<times> 'rng queue \<times> u64) run" where
  "play_now q g song = do {
     (added, w) \<leftarrow> play_now_many q g [song];
     Some (added = 1, w) }"

section \<open>Navigation\<close>

definition queue_next :: "'rng queue \<Rightarrow> bool \<Rightarrow> song option \<times> 'rng queue" where
  "queue_next q auto =
     (if q_songs q = [] then (None, q)
      else if auto \<and> q_repeat q = RepeatOne then (current q, q)
      else if q_cursor q + 1 < length (q_order q)
        then let q = q\<lparr>q_cursor := q_cursor q + 1\<rparr> in (current q, q)
      else if q_repeat q = RepeatAll then let q = q\<lparr>q_cursor := 0\<rparr> in (current q, q)
      else (None, q))"

definition queue_prev :: "'rng queue \<Rightarrow> (song option \<times> 'rng queue) run" where
  "queue_prev q =
     (if q_songs q = [] then Some (None, q)
      else if q_cursor q > 0 then let q = q\<lparr>q_cursor := q_cursor q - 1\<rparr> in Some (current q, q)
      else if q_repeat q = RepeatAll then
        if q_order q = [] then None
        else let q = q\<lparr>q_cursor := length (q_order q) - 1\<rparr> in Some (current q, q)
      else Some (current q, q))"

definition queue_goto :: "'rng queue \<Rightarrow> nat \<Rightarrow> song option \<times> 'rng queue" where
  "queue_goto q pos =
     (if q_order q = [] then (None, q)
      else let q = q\<lparr>q_cursor := min pos (length (q_order q) - 1)\<rparr> in (current q, q))"

section \<open>Removing and moving\<close>

definition remove_at_without_revision :: "'rng queue \<Rightarrow> nat \<Rightarrow> (bool option \<times> 'rng queue) run" where
  "remove_at_without_revision q pos =
     (case vec_get (q_order q) pos of
        None \<Rightarrow> Some (None, q)
      | Some song_idx \<Rightarrow> do {
          let was_current = (pos = q_cursor q);
          (_, songs) \<leftarrow> vec_remove song_idx (q_songs q);
          (_, order) \<leftarrow> vec_remove pos (q_order q);
          let order = map (\<lambda>idx. if idx > song_idx then idx - 1 else idx) order;
          let cursor = (if pos < q_cursor q then q_cursor q - 1 else q_cursor q);
          let cursor = (if cursor \<ge> length order then length order - 1 else cursor);
          Some (Some was_current, q\<lparr>q_songs := songs, q_order := order, q_cursor := cursor\<rparr>) })"

definition remove_at :: "'rng queue \<Rightarrow> u64 \<Rightarrow> nat \<Rightarrow> (bool option \<times> 'rng queue \<times> u64) run" where
  "remove_at q g pos = do {
     (r, q) \<leftarrow> remove_at_without_revision q pos;
     case r of None \<Rightarrow> Some (None, q, g)
       | Some was_current \<Rightarrow> Some (Some was_current, bump_rev q g) }"

text \<open>A loop of removals over the given positions; each must report a removal
  (\<open>debug_assert!(removed.is_some())\<close>).\<close>

fun remove_each :: "'rng queue \<Rightarrow> nat list \<Rightarrow> 'rng queue run" where
  "remove_each q [] = Some q"
| "remove_each q (pos # rest) = do {
     (removed, q') \<leftarrow> remove_at_without_revision q pos;
     if removed = None then None else remove_each q' rest }"

definition remove_range_without_revision :: "'rng queue \<Rightarrow> nat \<Rightarrow> nat \<Rightarrow> 'rng queue run" where
  "remove_range_without_revision q lo hi =
     (if lo \<le> hi \<and> hi < length (q_order q) then remove_each q (rev [lo..<hi + 1]) else None)"

definition move_item ::
    "'rng queue \<Rightarrow> u64 \<Rightarrow> nat \<Rightarrow> nat \<Rightarrow> (unit option \<times> 'rng queue \<times> u64) run" where
  "move_item q g from to =
     (if from \<ge> length (q_order q) \<or> to \<ge> length (q_order q) then Some (None, q, g)
      else if from = to then Some (Some (), q, g)
      else do {
        (song_idx, order) \<leftarrow> vec_remove from (q_order q);
        order \<leftarrow> vec_insert to song_idx order;
        let cursor =
          (if q_cursor q = from then to
           else if from < q_cursor q \<and> to \<ge> q_cursor q then q_cursor q - 1
           else if from > q_cursor q \<and> to \<le> q_cursor q then q_cursor q + 1
           else q_cursor q);
        Some (Some (), bump_rev (q\<lparr>q_order := order, q_cursor := cursor\<rparr>) g) })"

definition clear_upcoming :: "'rng queue \<Rightarrow> u64 \<Rightarrow> (nat \<times> 'rng queue \<times> u64) run" where
  "clear_upcoming q g =
     (let len = length (q_order q)
      in if len \<le> q_cursor q + 1 then Some (0, q, g)
      else do {
        let removed = len - q_cursor q - 1;
        q \<leftarrow> remove_range_without_revision q (q_cursor q + 1) (len - 1);
        Some (removed, bump_rev q g) })"

definition set_shuffle :: "'rng shuffler \<Rightarrow> 'rng queue \<Rightarrow> u64 \<Rightarrow> bool \<Rightarrow> 'rng queue \<times> u64" where
  "set_shuffle shuf q g b =
     (let (changed, q) = set_shuffle_without_revision shuf q b
      in if changed then bump_rev q g else (q, g))"

definition toggle_shuffle :: "'rng shuffler \<Rightarrow> 'rng queue \<Rightarrow> u64 \<Rightarrow> 'rng queue \<times> u64" where
  "toggle_shuffle shuf q g = set_shuffle shuf q g (\<not> q_shuffle q)"

definition cycle_repeat :: "'rng queue \<Rightarrow> 'rng queue" where
  "cycle_repeat q = q\<lparr>q_repeat := cycled (q_repeat q)\<rparr>"

section \<open>The invariant\<close>

text \<open>The play order is a permutation of the song indices, the cap holds, and the cursor stands on
  a track unless the queue is empty.  \<open>plays\<close> is the abstraction: the tracks in play order.\<close>

definition queue_wf :: "'rng queue \<Rightarrow> bool" where
  "queue_wf q \<longleftrightarrow> is_perm (length (q_songs q)) (q_order q) \<and> length (q_songs q) \<le> MAX_QUEUE_LEN
     \<and> (if q_order q = [] then q_cursor q = 0 else q_cursor q < length (q_order q))"

definition plays :: "'rng queue \<Rightarrow> song list" where
  "plays q = map ((!) (q_songs q)) (q_order q)"

lemma queue_wf_length: "queue_wf q \<Longrightarrow> length (q_order q) = length (q_songs q)"
  by (simp add: queue_wf_def is_perm_length)

lemma length_plays [simp]: "length (plays q) = length (q_order q)"
  by (simp add: plays_def)

lemma plays_Nil_iff [simp]: "plays q = [] \<longleftrightarrow> q_order q = []"
  by (simp add: plays_def)

lemma queue_wf_nth: "queue_wf q \<Longrightarrow> i < length (q_order q) \<Longrightarrow> q_order q ! i < length (q_songs q)"
  by (metis is_perm_nth queue_wf_def queue_wf_length)

lemma queue_wf_set: "queue_wf q \<Longrightarrow> set (q_order q) = {..<length (q_songs q)}"
  by (simp add: queue_wf_def is_perm_def)

lemma mset_plays: "queue_wf q \<Longrightarrow> mset (plays q) = mset (q_songs q)"
  by (metis is_perm_mset map_nth mset_map plays_def queue_wf_def)

lemma ordered_iter_plays: "queue_wf q \<Longrightarrow> ordered_iter q = plays q"
proof -
  assume wf: "queue_wf q"
  have "List.map_filter (vec_get xs) ks = map ((!) xs) ks" if "set ks \<subseteq> {..<length xs}"
    for xs :: "song list" and ks
    using that by (induction ks) (auto simp: List.map_filter_simps)
  then show ?thesis by (simp add: ordered_iter_def plays_def queue_wf_set [OF wf])
qed

lemma song_at_cursor_plays:
  "queue_wf q \<Longrightarrow> song_at_cursor q i = vec_get (plays q) i"
  by (cases "i < length (q_order q)") (simp_all add: song_at_cursor_def plays_def queue_wf_nth)

lemma current_plays: "queue_wf q \<Longrightarrow> current q = vec_get (plays q) (q_cursor q)"
  by (simp add: current_def song_at_cursor_plays)

lemma queue_wf_frame [simp]:
  "queue_wf (q\<lparr>q_rev := r\<rparr>) = queue_wf q" "plays (q\<lparr>q_rev := r\<rparr>) = plays q"
  "queue_wf (q\<lparr>q_repeat := rp\<rparr>) = queue_wf q" "plays (q\<lparr>q_repeat := rp\<rparr>) = plays q"
  "plays (q\<lparr>q_cursor := c\<rparr>) = plays q" "plays (q\<lparr>q_shuffle := b\<rparr>) = plays q"
  "queue_wf (q\<lparr>q_shuffle := b\<rparr>) = queue_wf q"
  by (simp_all add: queue_wf_def plays_def)

lemma queue_wf_cursor:
  "queue_wf q \<Longrightarrow> c < length (q_order q) \<Longrightarrow> queue_wf (q\<lparr>q_cursor := c\<rparr>)"
  by (auto simp: queue_wf_def)

lemma bump_rev_eq: "bump_rev q g = (q\<lparr>q_rev := g\<rparr>, g + 1)"
  by (simp add: bump_rev_def next_queue_rev_def)

section \<open>Rebuilding the order\<close>

lemma mset_swap_list: "i < length xs \<Longrightarrow> j < length xs \<Longrightarrow> mset (swap i j xs) = mset xs"
  by (simp add: swap_def mset_swap)

lemma permuting_D: "permuting shuf \<Longrightarrow> shuf r xs = (ys, r') \<Longrightarrow> mset ys = mset xs"
  by (metis fst_conv permuting_def)

lemma rebuild_order_songs [simp]:
  "q_songs (rebuild_order shuf q k) = q_songs q" "q_repeat (rebuild_order shuf q k) = q_repeat q"
  "q_shuffle (rebuild_order shuf q k) = q_shuffle q" "q_rev (rebuild_order shuf q k) = q_rev q"
  by (simp_all add: rebuild_order_def Let_def split: prod.splits)

lemma rebuild_order_wf:
  assumes "permuting shuf" "length (q_songs q) \<le> MAX_QUEUE_LEN"
  shows "queue_wf (rebuild_order shuf q keep)"
proof -
  obtain ys r where s: "shuf (q_rng q) [0..<length (q_songs q)] = (ys, r)" by fastforce
  have m: "mset ys = mset [0..<length (q_songs q)]" using permuting_D [OF assms(1) s] .
  then have len: "length ys = length (q_songs q)" by (metis diff_zero length_upt mset_eq_length)
  have "mset (swap 0 i ys) = mset ys" if "position (\<lambda>x. x = keep) ys = Some i" for i
    using position_SomeD [OF that] by (intro mset_swap_list) auto
  then show ?thesis using assms(2) m len
    by (auto simp: rebuild_order_def Let_def s queue_wf_def is_perm_mset swap_def split: option.splits)
qed

lemma rebuild_order_current:
  assumes "permuting shuf" "keep < length (q_songs q)"
  shows "q_order (rebuild_order shuf q keep) ! q_cursor (rebuild_order shuf q keep) = keep"
proof -
  obtain ys r where s: "shuf (q_rng q) [0..<length (q_songs q)] = (ys, r)" by fastforce
  have m: "mset ys = mset [0..<length (q_songs q)]" using permuting_D [OF assms(1) s] .
  then have "set ys = {..<length (q_songs q)}" by (metis atLeast0LessThan mset_eq_setD set_upt)
  then have "keep \<in> set ys" using assms(2) by simp
  then obtain i where i: "position (\<lambda>x. x = keep) ys = Some i"
    using position_NoneD [of "\<lambda>x. x = keep" ys keep] by (cases "position (\<lambda>x. x = keep) ys") auto
  have "i < length ys" "ys ! i = keep" using position_SomeD [OF i] by auto
  then have "swap 0 i ys ! 0 = keep" by (cases i; cases ys) (auto simp: swap_def)
  then show ?thesis using assms(2) by (auto simp: rebuild_order_def Let_def s i)
qed

lemma rebuild_order_natural:
  "\<not> q_shuffle q \<Longrightarrow> plays (rebuild_order shuf q keep) = q_songs q"
  by (auto simp: rebuild_order_def Let_def plays_def map_nth)

section \<open>Snapshots\<close>

lemma all_fresh_iff:
  "length seen = n \<Longrightarrow> all_fresh n seen is \<longleftrightarrow>
     distinct is \<and> set is \<subseteq> {i. i < n \<and> \<not> seen ! i}"
proof (induction "is" arbitrary: seen)
  case Nil
  then show ?case by simp
next
  case (Cons i "is")
  have "{j. j < n \<and> \<not> seen[i := True] ! j} = {j. j < n \<and> \<not> seen ! j} - {i}" if "i < n"
    using that Cons.prems by (auto simp: nth_list_update)
  then show ?case using Cons by auto
qed

lemma is_permutation_iff: "is_permutation n order \<longleftrightarrow> is_perm n order"
proof -
  have "is_permutation n order \<longleftrightarrow> length order = n \<and> distinct order \<and> set order \<subseteq> {..<n}"
    by (auto simp: is_permutation_def all_fresh_iff)
  also have "\<dots> \<longleftrightarrow> is_perm n order"
    by (metis card_lessThan card_subset_eq distinct_card finite_lessThan is_perm_def is_perm_length
        order_refl)
  finally show ?thesis .
qed

lemma restore_snapshot_wf:
  assumes "permuting shuf"
  shows "queue_wf (restore_snapshot_without_revision shuf q s)"
  using assms by (auto simp: restore_snapshot_without_revision_def Let_def is_permutation_iff
      queue_wf_def [of "_\<lparr>q_cursor := _\<rparr>"] intro!: rebuild_order_wf)

lemma restore_snapshot_exact:
  assumes "queue_wf q'"
  shows "snapshot (restore_snapshot_without_revision shuf q (snapshot q')) = snapshot q'"
  using assms by (auto simp: restore_snapshot_without_revision_def Let_def is_permutation_iff
      queue_wf_def snapshot_def split: if_splits)

section \<open>Appending and inserting\<close>

lemma extend_without_revision_spec:
  assumes "permuting shuf" "queue_wf q" "extend_without_revision shuf q extra = (added, q')"
  shows "queue_wf q'" "added = min (length extra) (MAX_QUEUE_LEN - length (q_songs q))"
    "q_cursor q' = q_cursor q" "q_songs q' = q_songs q @ take added extra"
    "\<exists>ys. mset ys = mset (take added extra) \<and> plays q' = plays q @ ys"
    "\<not> q_shuffle q \<Longrightarrow> plays q' = plays q @ take added extra"
    "q_rev q' = q_rev q" "q_shuffle q' = q_shuffle q" "q_repeat q' = q_repeat q"
proof -
  let ?n = "length (q_songs q)" and ?free = "MAX_QUEUE_LEN - length (q_songs q)"
  let ?t = "take ?free extra"
  let ?new = "[?n..<?n + length ?t]"
  show added: "added = min (length extra) ?free"
    using assms(3) by (auto simp: extend_without_revision_def Let_def split: if_splits prod.splits)
  have t: "take added extra = ?t" by (simp add: added min_def)
  define ys where "ys = (if q_shuffle q then fst (shuf (q_rng q) ?new) else ?new)"
  have ys: "mset ys = mset ?new" using assms(1) by (auto simp: ys_def permuting_def)
  have q': "q_songs q' = q_songs q @ ?t" "q_order q' = q_order q @ (if ?t = [] then [] else ys)"
    "q_cursor q' = q_cursor q" "q_rev q' = q_rev q" "q_shuffle q' = q_shuffle q" "q_repeat q' = q_repeat q"
    using assms(3) by (auto simp: extend_without_revision_def Let_def ys_def split: if_splits prod.splits)
  show "q_cursor q' = q_cursor q" "q_songs q' = q_songs q @ take added extra"
    "q_rev q' = q_rev q" "q_shuffle q' = q_shuffle q" "q_repeat q' = q_repeat q"
    using q' t by simp_all
  have perm: "is_perm (?n + length ?t) (q_order q')"
    using assms(2) ys by (intro is_perm_insert_block [of _ "q_order q"]) (auto simp: queue_wf_def q')
  show "queue_wf q'" using assms(2) perm by (auto simp: queue_wf_def q' split: if_splits)
  have pre: "map ((!) (q_songs q @ ?t)) (q_order q) = plays q"
    using queue_wf_set [OF assms(2)] by (simp add: plays_def map_nth_append)
  have new: "map ((!) (q_songs q @ ?t)) ?new = ?t" by (rule map_nth_upt_append)
  let ?zs = "map ((!) (q_songs q @ ?t)) (if ?t = [] then [] else ys)"
  have "mset ?zs = mset (map ((!) (q_songs q @ ?t)) ?new)" using ys by (simp only: mset_map) auto
  then have "mset ?zs = mset (take added extra)" by (simp only: new t)
  moreover have "plays q' = plays q @ ?zs" by (simp add: plays_def [of q'] q' pre)
  ultimately show "\<exists>ys. mset ys = mset (take added extra) \<and> plays q' = plays q @ ys" by blast
  show "plays q' = plays q @ take added extra" if "\<not> q_shuffle q"
    using that new t by (simp add: plays_def [of q'] q' pre ys_def)
qed

lemma insert_block_eq:
  "at \<le> length order \<Longrightarrow> insert_block at xs order = Some (take at order @ xs @ drop at order)"
proof (induction xs arbitrary: at order)
  case Nil
  then show ?case by simp
next
  case (Cons x xs)
  then show ?case by (simp add: vec_insert_def Cons.IH)
qed

text \<open>What inserting a block right after the cursor does to the order.\<close>

definition inserted :: "'rng queue \<Rightarrow> song list \<Rightarrow> 'rng queue" where
  "inserted q ss = (let n = length (q_songs q); at = min (q_cursor q + 1) (length (q_order q))
     in q\<lparr>q_songs := q_songs q @ ss,
          q_order := take at (q_order q) @ [n..<n + length ss] @ drop at (q_order q)\<rparr>)"

lemma inserted_spec:
  assumes "queue_wf q" "length (q_songs q) + length ss \<le> MAX_QUEUE_LEN"
  shows "queue_wf (inserted q ss)"
    "plays (inserted q ss) = take (q_cursor q + 1) (plays q) @ ss @ drop (q_cursor q + 1) (plays q)"
    "q_cursor (inserted q ss) = q_cursor q"
proof -
  let ?at = "min (q_cursor q + 1) (length (q_order q))"
  have ord: "q_order (inserted q ss) = take ?at (q_order q)
      @ [length (q_songs q)..<length (q_songs q) + length ss] @ drop ?at (q_order q)"
    by (simp add: inserted_def Let_def)
  have "mset (q_order (inserted q ss)) = mset (q_order q)
      + mset [length (q_songs q)..<length (q_songs q) + length ss]"
    unfolding ord by (rule mset_splice)
  then have "is_perm (length (q_songs q) + length ss) (q_order (inserted q ss))"
    using assms(1) by (intro is_perm_insert_block) (auto simp: queue_wf_def)
  then show "queue_wf (inserted q ss)" using assms
    by (auto simp: queue_wf_def inserted_def Let_def split: if_splits)
  have sub: "set (take ?at (q_order q)) \<subseteq> {..<length (q_songs q)}"
    "set (drop ?at (q_order q)) \<subseteq> {..<length (q_songs q)}"
    using queue_wf_set [OF assms(1)] by (auto dest: in_set_takeD in_set_dropD)
  show "plays (inserted q ss) = take (q_cursor q + 1) (plays q) @ ss @ drop (q_cursor q + 1) (plays q)"
  proof -
    have "map ((!) (q_songs q @ ss)) (take ?at (q_order q)) = take ?at (plays q)"
      by (simp only: map_nth_append [OF sub(1)] plays_def take_map)
    moreover have "map ((!) (q_songs q @ ss)) (drop ?at (q_order q)) = drop ?at (plays q)"
      by (simp only: map_nth_append [OF sub(2)] plays_def drop_map)
    moreover have "take ?at (plays q) = take (q_cursor q + 1) (plays q)"
      "drop ?at (plays q) = drop (q_cursor q + 1) (plays q)" by (simp_all add: min_def)
    moreover have "q_songs (inserted q ss) = q_songs q @ ss" by (simp add: inserted_def Let_def)
    ultimately show ?thesis
      unfolding plays_def [of "inserted q ss"] ord by (simp only: map_append map_nth_upt_append)
  qed
  show "q_cursor (inserted q ss) = q_cursor q" by (simp add: inserted_def Let_def)
qed

lemma wf_order_empty: "queue_wf q \<Longrightarrow> q_order q = [] \<longleftrightarrow> q_songs q = []"
  by (metis length_0_conv queue_wf_length)

lemma wf_at_le: "queue_wf q \<Longrightarrow> q_order q \<noteq> [] \<Longrightarrow> q_cursor q + 1 \<le> length (q_order q)"
  by (simp add: queue_wf_def)

lemma insert_next_many_eq:
  assumes "queue_wf q"
  shows "insert_next_many q g extra =
    (let ss = take (MAX_QUEUE_LEN - length (q_songs q)) extra
     in Some (length ss, if ss = [] then (q, g) else bump_rev (inserted q ss) g))"
  using assms wf_at_le [OF assms] wf_order_empty [OF assms]
  by (auto simp: insert_next_many_def Let_def inserted_def insert_block_eq queue_wf_def min_def
      bump_rev_eq)

lemma play_now_many_without_revision_eq:
  assumes "queue_wf q"
  shows "play_now_many_without_revision q extra =
    (let ss = take (MAX_QUEUE_LEN - length (q_songs q)) extra
     in Some (length ss, if ss = [] then q
          else (inserted q ss)\<lparr>q_cursor := (if q_order q = [] then 0 else q_cursor q + 1)\<rparr>))"
  using assms wf_at_le [OF assms] wf_order_empty [OF assms]
  by (auto simp: play_now_many_without_revision_def Let_def inserted_def insert_block_eq
      queue_wf_def min_def)

section \<open>Removing\<close>

definition removed :: "'rng queue \<Rightarrow> nat \<Rightarrow> 'rng queue" where
  "removed q pos = (let k = q_order q ! pos; order = map (close_gap k) (drop_at pos (q_order q));
       c = (if pos < q_cursor q then q_cursor q - 1 else q_cursor q)
     in q\<lparr>q_songs := drop_at k (q_songs q), q_order := order,
          q_cursor := (if c \<ge> length order then length order - 1 else c)\<rparr>)"

lemma remove_at_eq:
  assumes "queue_wf q" "pos < length (q_order q)"
  shows "remove_at_without_revision q pos = Some (Some (pos = q_cursor q), removed q pos)"
proof -
  have "close_gap k = (\<lambda>idx. if idx > k then idx - 1 else idx)" for k
    by (simp add: close_gap_def fun_eq_iff)
  then show ?thesis using assms queue_wf_nth [OF assms]
    by (simp add: remove_at_without_revision_def vec_remove_def removed_def Let_def)
qed

lemma removed_cursor:
  "pos < length (q_order q) \<Longrightarrow> q_cursor (removed q pos) =
     min (if pos < q_cursor q then q_cursor q - 1 else q_cursor q) (length (q_order q) - 2)"
  by (auto simp: removed_def Let_def)

lemma removed_length: "pos < length (q_order q) \<Longrightarrow> length (q_order (removed q pos)) = length (q_order q) - 1"
  by (simp add: removed_def Let_def)

lemma removed_wf:
  assumes "queue_wf q" "pos < length (q_order q)"
  shows "queue_wf (removed q pos)"
proof -
  have songs: "length (q_songs (removed q pos)) = length (q_songs q) - 1"
    using queue_wf_nth [OF assms] by (simp add: removed_def Let_def)
  have "is_perm (length (q_songs q) - 1) (q_order (removed q pos))"
    using assms is_perm_drop_at [of "length (q_songs q)" "q_order q" pos] queue_wf_length [OF assms(1)]
    by (simp add: removed_def Let_def queue_wf_def)
  then show ?thesis using assms queue_wf_length [OF assms(1)]
    by (auto simp: queue_wf_def removed_cursor removed_length songs simp flip: length_0_conv)
qed

lemma removed_plays:
  assumes "queue_wf q" "pos < length (q_order q)"
  shows "plays (removed q pos) = drop_at pos (plays q)"
  using assms map_nth_drop_at [of "q_songs q" "q_order q" pos] queue_wf_length [OF assms(1)]
  by (simp add: removed_def Let_def plays_def queue_wf_def)

lemma removed_frame [simp]:
  "q_repeat (removed q pos) = q_repeat q" "q_shuffle (removed q pos) = q_shuffle q"
  "q_rev (removed q pos) = q_rev q" "q_rng (removed q pos) = q_rng q"
  by (simp_all add: removed_def Let_def)

text \<open>What a client that removes several positions relies on: a removal keeps the invariant, takes
  exactly the named position out of the play order, and shifts the cursor only when the position
  was before it.  Positions are removed in descending order, so that earlier ones stay valid.\<close>

lemma nths_same: "(\<And>i. i < length xs \<Longrightarrow> i \<in> A \<longleftrightarrow> i \<in> B) \<Longrightarrow> nths xs A = nths xs B"
  by (auto simp: nths_def intro!: arg_cong [of _ _ "map fst"] filter_cong dest: set_zip_rightD)

lemma nths_drop_at:
  assumes "p < length xs" "\<forall>r\<in>R. r < p"
  shows "nths (drop_at p xs) (- R) = nths xs (- insert p R)"
proof -
  let ?a = "take p xs" and ?b = "drop (Suc p) xs"
  have "xs = ?a @ [xs ! p] @ ?b" using assms(1) by (simp add: id_take_nth_drop)
  then have "nths xs (- insert p R) = nths ?a (- insert p R)
      @ nths ([xs ! p] @ ?b) {j. j + length ?a \<in> - insert p R}" by (metis nths_append)
  moreover have "nths ?a (- insert p R) = nths ?a (- R)"
    using assms(1) by (intro nths_same) auto
  moreover have "nths ([xs ! p] @ ?b) {j. j + length ?a \<in> - insert p R} = ?b"
    using assms by (simp add: nths_Cons) (intro nths_all, force)
  moreover have "nths (drop_at p xs) (- R) = nths ?a (- R) @ nths ?b {j. j + length ?a \<in> - R}"
    by (simp add: drop_at_def nths_append)
  moreover have "nths ?b {j. j + length ?a \<in> - R} = ?b"
    using assms by (intro nths_all) force
  ultimately show ?thesis by simp
qed

locale indexed_removal =
  fixes rem :: "'q \<Rightarrow> nat \<Rightarrow> 'q" and listing :: "'q \<Rightarrow> 'a list" and inv :: "'q \<Rightarrow> bool"
  assumes rem_inv: "inv q \<Longrightarrow> pos < length (listing q) \<Longrightarrow> inv (rem q pos)"
    and rem_listing: "inv q \<Longrightarrow> pos < length (listing q) \<Longrightarrow> listing (rem q pos) = drop_at pos (listing q)"
begin

lemma rem_many:
  assumes "inv q" "sorted_wrt (>) ps" "\<forall>p\<in>set ps. p < length (listing q)"
  shows "inv (foldl rem q ps) \<and> listing (foldl rem q ps) = nths (listing q) (- set ps)"
  using assms
proof (induction ps arbitrary: q)
  case Nil
  then show ?case by (simp add: nths_all)
next
  case (Cons p ps)
  have "\<forall>r\<in>set ps. r < length (listing (rem q p))"
    using Cons.prems by (force simp: rem_listing)
  then have "inv (foldl rem (rem q p) ps)
      \<and> listing (foldl rem (rem q p) ps) = nths (listing (rem q p)) (- set ps)"
    using Cons.prems by (intro Cons.IH) (auto simp: rem_inv)
  then show ?case using Cons.prems by (simp add: rem_listing nths_drop_at)
qed

end

locale cursored_removal = indexed_removal rem listing inv
  for rem :: "'q \<Rightarrow> nat \<Rightarrow> 'q" and listing :: "'q \<Rightarrow> 'a list" and inv :: "'q \<Rightarrow> bool" +
  fixes cur :: "'q \<Rightarrow> nat"
  assumes cur_valid: "inv q \<Longrightarrow> listing q \<noteq> [] \<Longrightarrow> cur q < length (listing q)"
    and rem_cur: "inv q \<Longrightarrow> pos < length (listing q) \<Longrightarrow> cur (rem q pos) =
      min (if pos < cur q then cur q - 1 else cur q) (length (listing q) - 2)"
begin

text \<open>Removing positions other than the cursor keeps the cursor on its element.\<close>

lemma rem_many_cur:
  assumes "inv q" "sorted_wrt (>) ps" "\<forall>p\<in>set ps. p < length (listing q)" "cur q \<notin> set ps"
  shows "cur (foldl rem q ps) = cur q - card {p \<in> set ps. p < cur q}"
  using assms
proof (induction ps arbitrary: q)
  case Nil
  then show ?case by simp
next
  case (Cons p ps)
  let ?q = "rem q p"
  have p: "p < length (listing q)" "p \<notin> set ps" "cur q \<noteq> p" using Cons.prems by auto
  have valid: "cur q < length (listing q)" using Cons.prems p by (intro cur_valid) auto
  have cur: "cur ?q = (if p < cur q then cur q - 1 else cur q)"
    using Cons.prems(1) p valid by (auto simp: rem_cur)
  have below: "{r \<in> set ps. r < cur ?q} = {r \<in> set ps. r < cur q}"
    using Cons.prems(2) by (auto simp: cur)
  have "cur (foldl rem ?q ps) = cur ?q - card {r \<in> set ps. r < cur ?q}"
    using Cons.prems p cur by (intro Cons.IH) (auto simp: rem_inv rem_listing split: if_splits)
  then have "cur (foldl rem ?q ps) = cur ?q - card {r \<in> set ps. r < cur q}" by (simp only: below)
  moreover have "card {r \<in> set (p # ps). r < cur q}
      = (if p < cur q then Suc (card {r \<in> set ps. r < cur q}) else card {r \<in> set ps. r < cur q})"
    using p(2) by (auto simp: Collect_conj_eq Int_insert_left conj_disj_distribR Collect_disj_eq)
  ultimately show ?case by (simp add: cur)
qed

end

interpretation queue_removal: cursored_removal removed plays queue_wf q_cursor
  by unfold_locales (auto simp: removed_wf removed_plays removed_cursor, auto simp: queue_wf_def)

lemma remove_each_eq:
  assumes "queue_wf q" "sorted_wrt (>) ps" "\<forall>p\<in>set ps. p < length (q_order q)"
  shows "remove_each q ps = Some (foldl removed q ps)"
  using assms
proof (induction ps arbitrary: q)
  case Nil
  then show ?case by simp
next
  case (Cons p ps)
  have "length (q_order (removed q p)) = length (q_order q) - 1"
    using Cons.prems by (simp add: removed_length)
  then have "remove_each (removed q p) ps = Some (foldl removed (removed q p) ps)"
    using Cons.prems by (intro Cons.IH) (force simp: removed_wf)+
  then show ?case using Cons.prems by (simp add: remove_at_eq)
qed

section \<open>Moving and clearing\<close>

definition move_list :: "nat \<Rightarrow> nat \<Rightarrow> 'a list \<Rightarrow> 'a list" where
  "move_list from to xs = (let ys = drop_at from xs in take to ys @ xs ! from # drop to ys)"

definition moved :: "'rng queue \<Rightarrow> nat \<Rightarrow> nat \<Rightarrow> 'rng queue" where
  "moved q from to = q\<lparr>q_order := move_list from to (q_order q),
     q_cursor := (if q_cursor q = from then to
       else if from < q_cursor q \<and> to \<ge> q_cursor q then q_cursor q - 1
       else if from > q_cursor q \<and> to \<le> q_cursor q then q_cursor q + 1
       else q_cursor q)\<rparr>"

lemma move_item_eq:
  assumes "from < length (q_order q)" "to < length (q_order q)"
  shows "move_item q g from to =
    Some (Some (), if from = to then (q, g) else bump_rev (moved q from to) g)"
proof -
  have "to \<le> length (drop_at from (q_order q))" using assms by simp
  then show ?thesis using assms
    by (simp add: move_item_def vec_remove_def vec_insert_def moved_def move_list_def Let_def)
qed

lemma mset_move_list: "from < length xs \<Longrightarrow> mset (move_list from to xs) = mset xs"
proof -
  assume f: "from < length xs"
  have "mset (take to ys @ x # drop to ys) = add_mset x (mset ys)" for x :: 'a and ys
    using mset_splice [of to ys "[x]"] by simp
  moreover have "add_mset (xs ! from) (mset (drop_at from xs)) = mset xs"
    using f id_take_nth_drop [OF f] by (metis drop_at_def mset.simps(2) mset_append union_mset_add_mset_right)
  ultimately show ?thesis by (simp add: move_list_def Let_def)
qed

lemma length_move_list: "from < length xs \<Longrightarrow> length (move_list from to xs) = length xs"
  by (metis mset_move_list size_mset)

lemma map_move_list: "from < length xs \<Longrightarrow> map f (move_list from to xs) = move_list from to (map f xs)"
  by (simp add: move_list_def Let_def map_drop_at flip: take_map drop_map)

lemma moved_wf:
  assumes "queue_wf q" "from < length (q_order q)" "to < length (q_order q)"
  shows "queue_wf (moved q from to)"
proof -
  have "length (move_list from to (q_order q)) = length (q_order q)"
    using assms(2) by (rule length_move_list)
  then have "move_list from to (q_order q) \<noteq> []" using assms(2) by auto
  moreover have "q_cursor q < length (q_order q)" using assms(1,2)
    by (auto simp: queue_wf_def split: if_splits)
  moreover have "is_perm (length (q_songs q)) (move_list from to (q_order q))"
    using assms by (simp only: queue_wf_def is_perm_mset mset_move_list [OF assms(2)])
  ultimately show ?thesis using assms
    by (auto simp: queue_wf_def moved_def length_move_list)
qed

lemma moved_plays: "from < length (q_order q) \<Longrightarrow> plays (moved q from to) = move_list from to (plays q)"
  by (simp add: plays_def moved_def map_move_list)

lemma moved_current:
  assumes "from < length (q_order q)" "to < length (q_order q)" "from \<noteq> to"
    "q_cursor q < length (q_order q)"
  shows "q_order (moved q from to) ! q_cursor (moved q from to) = q_order q ! q_cursor q"
  using assms
  by (auto simp: moved_def move_list_def Let_def nth_append nth_drop_at nth_Cons' min_def)

lemma sorted_wrt_rev_upt: "sorted_wrt (>) (rev [lo..<hi])"
  by (simp add: sorted_wrt_rev)

lemma nths_tail: "lo \<le> length xs \<Longrightarrow> nths xs (- {lo..<length xs}) = take lo xs"
proof -
  have "nths xs (- {lo..<length xs}) = nths xs {..<lo}" by (rule nths_same) auto
  then show ?thesis by simp
qed

lemma remove_range_eq:
  assumes "queue_wf q" "lo \<le> hi" "hi < length (q_order q)"
  shows "remove_range_without_revision q lo hi = Some (foldl removed q (rev [lo..<hi + 1]))"
    and "queue_wf (foldl removed q (rev [lo..<hi + 1]))"
    and "plays (foldl removed q (rev [lo..<hi + 1])) = nths (plays q) (- {lo..<hi + 1})"
proof -
  have below: "\<forall>p\<in>set (rev [lo..<hi + 1]). p < length (q_order q)" using assms(3) by auto
  show "remove_range_without_revision q lo hi = Some (foldl removed q (rev [lo..<hi + 1]))"
    using assms(2,3) remove_each_eq [OF assms(1) sorted_wrt_rev_upt below]
    by (simp add: remove_range_without_revision_def del: upt_Suc)
  show "queue_wf (foldl removed q (rev [lo..<hi + 1]))"
    "plays (foldl removed q (rev [lo..<hi + 1])) = nths (plays q) (- {lo..<hi + 1})"
    using queue_removal.rem_many [OF assms(1) sorted_wrt_rev_upt [of lo "hi + 1"]] below
    by (simp_all del: upt_Suc)
qed

lemma foldl_removed_frame [simp]:
  "q_repeat (foldl removed q ps) = q_repeat q" "q_shuffle (foldl removed q ps) = q_shuffle q"
  "q_rev (foldl removed q ps) = q_rev q" "q_rng (foldl removed q ps) = q_rng q"
  by (induction ps arbitrary: q) simp_all

lemma clear_upcoming_spec:
  assumes "queue_wf q"
  shows "\<exists>q' g'. clear_upcoming q g = Some (remaining q, q', g') \<and> queue_wf q'
    \<and> plays q' = take (q_cursor q + 1) (plays q) \<and> q_cursor q' = q_cursor q"
proof (cases "length (q_order q) \<le> q_cursor q + 1")
  case True
  then show ?thesis using assms by (simp add: clear_upcoming_def Let_def remaining_def)
next
  case False
  let ?c = "q_cursor q" and ?n = "length (q_order q)"
  let ?ps = "rev [?c + 1..<?n]"
  have range: "?c + 1 \<le> ?n - 1" "?n - 1 < ?n" "?n - 1 + 1 = ?n" using False by auto
  note r = remove_range_eq [OF assms range(1,2), unfolded range(3)]
  have none: "{p \<in> set ?ps. p < ?c} = {}" by auto
  have "q_cursor (foldl removed q ?ps) = ?c - card {p \<in> set ?ps. p < ?c}"
    using assms sorted_wrt_rev_upt by (intro queue_removal.rem_many_cur) auto
  then have "q_cursor (foldl removed q ?ps) = ?c" by (simp only: none card.empty diff_zero)
  moreover have "nths (plays q) (- {?c + 1..<?n}) = take (?c + 1) (plays q)"
    using nths_tail [of "?c + 1" "plays q"] False by simp
  ultimately show ?thesis using False r
    by (simp add: clear_upcoming_def Let_def remaining_def bump_rev_eq)
qed

section \<open>Shuffle\<close>

lemma set_shuffle_without_revision_spec:
  assumes "permuting shuf" "queue_wf q" "set_shuffle_without_revision shuf q b = (changed, q')"
  shows "queue_wf q'" "q_songs q' = q_songs q" "current q' = current q" "q_shuffle q' = b"
    "changed \<longleftrightarrow> q_shuffle q \<noteq> b" "q_rev q' = q_rev q" "q_repeat q' = q_repeat q"
proof -
  let ?q = "q\<lparr>q_shuffle := b\<rparr>"
  show chg: "changed \<longleftrightarrow> q_shuffle q \<noteq> b"
    using assms(3) by (auto simp: set_shuffle_without_revision_def Let_def split: if_splits)
  have len: "length (q_songs ?q) \<le> MAX_QUEUE_LEN" using assms(2) by (simp add: queue_wf_def)
  consider "q' = q" "q_shuffle q = b" | "q' = ?q" "q_order q = []"
    | i where "q' = rebuild_order shuf ?q i" "q_cursor q < length (q_order q)" "i = q_order q ! q_cursor q"
    using assms(2,3) by (auto simp: set_shuffle_without_revision_def Let_def queue_wf_def
        split: if_splits option.splits)
  then have "queue_wf q' \<and> q_songs q' = q_songs q \<and> current q' = current q \<and> q_shuffle q' = b
      \<and> q_rev q' = q_rev q \<and> q_repeat q' = q_repeat q" (is ?all)
  proof cases
    case 1
    then show ?all using assms(2) by simp
  next
    case 2
    then show ?all using assms(2) by (simp add: current_def song_at_cursor_def)
  next
    case 3
    have i: "i < length (q_songs ?q)" using 3 assms(2) by (simp add: queue_wf_nth)
    have wf': "queue_wf q'" using rebuild_order_wf [OF assms(1) len] 3 by simp
    have "q_order q' ! q_cursor q' = i" using rebuild_order_current [OF assms(1) i] 3 by simp
    moreover have "q_cursor q' < length (q_order q')"
      using wf' i 3 queue_wf_length [OF wf'] by (auto simp: queue_wf_def split: if_splits)
    ultimately have "current q' = Some (q_songs q ! i)"
      using wf' i 3 by (simp add: current_def song_at_cursor_def)
    moreover have "current q = Some (q_songs q ! i)"
      using 3 i by (simp add: current_def song_at_cursor_def)
    ultimately show ?all using wf' 3 by simp
  qed
  then show "queue_wf q'" "q_songs q' = q_songs q" "current q' = current q" "q_shuffle q' = b"
    "q_rev q' = q_rev q" "q_repeat q' = q_repeat q" by blast+
qed

end
