(* ===== verification/QueueMutation.thy ===== *)
theory QueueMutation
  imports Queue
begin

text \<open>
  \<open>src/queue/mutation.rs\<close>: admission-atomic queue mutations.  A mutation is prepared on a copy of
  the queue as a plan that remembers the identity of the queue it was computed from; committing
  the plan checks that identity and installs the prepared state with exactly one new revision.
\<close>

record replacement_draft =
  d_songs :: "song list"
  d_start :: nat
  d_shuffle_override :: "bool option"

record mutation_outcome =
  requested :: nat
  added :: nat
  selected_cursor :: "nat option"

datatype removal_playback = Unchanged | LoadSelected | StopPlayback

record removal_outcome =
  removed_count :: nat
  popup_cursor :: nat
  playback :: removal_playback

record 'rng mutation_plan =
  expected_rev :: u64
  expected_cursor :: nat
  expected_video_id :: "ustring option"
  expected_repeat :: repeat
  p_songs :: "song list"
  p_order :: "nat list"
  p_cursor :: nat
  p_shuffle :: bool
  p_repeat :: repeat
  p_rng :: 'rng

section \<open>Plans\<close>

definition plan_is_empty :: "'rng mutation_plan \<Rightarrow> bool" where
  "plan_is_empty p \<longleftrightarrow> p_songs p = []"

definition plan_len :: "'rng mutation_plan \<Rightarrow> nat" where
  "plan_len p = length (p_songs p)"

definition plan_song_at_cursor :: "'rng mutation_plan \<Rightarrow> nat \<Rightarrow> song option" where
  "plan_song_at_cursor p cursor = Option.bind (vec_get (p_order p) cursor) (vec_get (p_songs p))"

definition plan_advance_cursor :: "'rng mutation_plan \<Rightarrow> nat \<Rightarrow> nat option" where
  "plan_advance_cursor p from =
     (if p_songs p = [] \<or> from \<ge> length (p_order p) then None
      else if from + 1 < length (p_order p) then Some (from + 1)
      else if p_repeat p = RepeatAll then Some 0
      else None)"

definition select_cursor :: "'rng mutation_plan \<Rightarrow> nat \<Rightarrow> 'rng mutation_plan run" where
  "select_cursor p cursor =
     (if cursor < length (p_order p) then Some (p\<lparr>p_cursor := cursor\<rparr>) else None)"

text \<open>The bounded search loop: the first argument counts the remaining iterations; \<open>Inl\<close> is the
  cursor of a playable track, \<open>Inr\<close> the last cursor looked at.\<close>

fun first_playable_loop ::
    "nat \<Rightarrow> 'rng mutation_plan \<Rightarrow> (song \<Rightarrow> bool) \<Rightarrow> nat \<Rightarrow> nat \<Rightarrow> nat + nat" where
  "first_playable_loop 0 p is_playable cursor last_cursor = Inr last_cursor"
| "first_playable_loop (Suc k) p is_playable cursor last_cursor =
     (case plan_song_at_cursor p cursor of
        None \<Rightarrow> Inr last_cursor
      | Some song \<Rightarrow>
          if is_playable song then Inl cursor
          else case plan_advance_cursor p cursor of
              None \<Rightarrow> Inr cursor
            | Some nxt \<Rightarrow> first_playable_loop k p is_playable nxt cursor)"

definition select_first_playable ::
    "'rng mutation_plan \<Rightarrow> (song \<Rightarrow> bool) \<Rightarrow> (removal_playback \<times> 'rng mutation_plan) run" where
  "select_first_playable p is_playable =
     (case first_playable_loop (plan_len p) p is_playable (p_cursor p) (p_cursor p) of
        Inl cursor \<Rightarrow> do { p \<leftarrow> select_cursor p cursor; Some (LoadSelected, p) }
      | Inr last_cursor \<Rightarrow> do { p \<leftarrow> select_cursor p last_cursor; Some (StopPlayback, p) })"

section \<open>Preparing\<close>

text \<open>The scratch copy of the source is the queue itself: preparation never writes to it.\<close>

definition mutation_plan_of :: "'rng queue \<Rightarrow> 'rng queue \<Rightarrow> 'rng mutation_plan" where
  "mutation_plan_of q scratch = \<lparr>
     expected_rev = q_rev q, expected_cursor = q_cursor q,
     expected_video_id = map_option video_id (current q), expected_repeat = q_repeat q,
     p_songs = q_songs scratch, p_order = q_order scratch, p_cursor = q_cursor scratch,
     p_shuffle = q_shuffle scratch, p_repeat = q_repeat scratch, p_rng = q_rng scratch\<rparr>"

definition prepare_replacement ::
    "'rng shuffler \<Rightarrow> 'rng queue \<Rightarrow> replacement_draft \<Rightarrow> 'rng mutation_plan" where
  "prepare_replacement shuf q d =
     (let scratch = replace_without_revision shuf q (d_songs d) (d_start d);
          scratch = (case d_shuffle_override d of None \<Rightarrow> scratch
            | Some b \<Rightarrow> snd (set_shuffle_without_revision shuf scratch b))
      in mutation_plan_of q scratch)"

definition prepare_play_now_many ::
    "'rng queue \<Rightarrow> song list \<Rightarrow> ('rng mutation_plan \<times> mutation_outcome) run" where
  "prepare_play_now_many q extra = do {
     (n, scratch) \<leftarrow> play_now_many_without_revision q extra;
     Some (mutation_plan_of q scratch,
       \<lparr>requested = length extra, added = n,
        selected_cursor = (if n > 0 then Some (q_cursor scratch) else None)\<rparr>) }"

definition prepare_idle_enqueue ::
    "'rng shuffler \<Rightarrow> 'rng queue \<Rightarrow> song list \<Rightarrow> 'rng mutation_plan \<times> mutation_outcome" where
  "prepare_idle_enqueue shuf q extra =
     (let old_len = length (q_songs q);
          (n, scratch) = extend_without_revision shuf q extra;
          cursor = min old_len (length (q_order scratch) - 1);
          (sel, scratch) = (if n = 0 then (None, scratch)
             else (Some cursor, scratch\<lparr>q_cursor := cursor\<rparr>))
      in (mutation_plan_of q scratch,
          \<lparr>requested = length extra, added = n, selected_cursor = sel\<rparr>))"

definition prepare_remove_range ::
    "'rng queue \<Rightarrow> nat \<Rightarrow> nat \<Rightarrow> ('rng mutation_plan \<times> removal_outcome) option run" where
  "prepare_remove_range q lo hi =
     (let len = length (q_order q)
      in if len = 0 \<or> lo > hi then Some None
      else
        let lo = min lo (len - 1); hi = min hi (len - 1);
            count = hi - lo + 1;
            removes_current = (lo \<le> q_cursor q \<and> q_cursor q \<le> hi);
            (pb, sel) =
              (if \<not> removes_current then (Unchanged, None)
               else if hi + 1 < len then (LoadSelected, Some lo)
               else if count < len \<and> q_repeat q = RepeatAll then (LoadSelected, Some 0)
               else (StopPlayback, None))
        in do {
          scratch \<leftarrow> remove_range_without_revision q lo hi;
          let scratch = (case sel of None \<Rightarrow> scratch | Some c \<Rightarrow> scratch\<lparr>q_cursor := c\<rparr>);
          Some (Some (mutation_plan_of q scratch,
            \<lparr>removed_count = count, popup_cursor = min lo (length (q_order scratch) - 1),
             playback = pb\<rparr>)) })"

text \<open>The matching positions are ascending, so \<open>binary_search(\<dots>).is_ok()\<close> is membership.\<close>

definition purge_matches :: "'rng queue \<Rightarrow> (song \<Rightarrow> bool) \<Rightarrow> nat list" where
  "purge_matches q reject = filter (\<lambda>pos. case song_at_cursor q pos of
     None \<Rightarrow> False | Some s \<Rightarrow> reject s) [0..<length (q_order q)]"

definition purge_selection ::
    "'rng queue \<Rightarrow> nat list \<Rightarrow> removal_playback \<times> nat option" where
  "purge_selection q matches =
     (let len = length (q_order q)
      in if q_cursor q \<notin> set matches then (Unchanged, None)
      else case find (\<lambda>pos. pos \<notin> set matches) [q_cursor q + 1..<len] of
          Some orig \<Rightarrow>
            let shift = length (takeWhile (\<lambda>m. m < orig) matches)
            in (LoadSelected, Some (orig - shift))
        | None \<Rightarrow> if length matches < len \<and> q_repeat q = RepeatAll then (LoadSelected, Some 0)
                  else (StopPlayback, None))"

definition prepare_purge ::
    "'rng queue \<Rightarrow> (song \<Rightarrow> bool) \<Rightarrow> ('rng mutation_plan \<times> removal_outcome) option run" where
  "prepare_purge q reject =
     (let len = length (q_order q); matches = purge_matches q reject
      in if len = 0 \<or> matches = [] then Some None
      else
        let (pb, sel) = purge_selection q matches
        in do {
          scratch \<leftarrow> remove_each q (rev matches);
          let scratch = (case sel of None \<Rightarrow> scratch | Some c \<Rightarrow> scratch\<lparr>q_cursor := c\<rparr>);
          Some (Some (mutation_plan_of q scratch,
            \<lparr>removed_count = length matches,
             popup_cursor = min (hd matches) (length (q_order scratch) - 1), playback = pb\<rparr>)) })"

definition prepare_snapshot_restore ::
    "'rng shuffler \<Rightarrow> 'rng queue \<Rightarrow> queue_snapshot \<Rightarrow> 'rng mutation_plan" where
  "prepare_snapshot_restore shuf q s = mutation_plan_of q (restore_snapshot_without_revision shuf q s)"

section \<open>Committing\<close>

definition validate_mutation :: "'rng queue \<Rightarrow> 'rng mutation_plan \<Rightarrow> unit run" where
  "validate_mutation q p = do {
     validate_planned_transition q (expected_rev p) (expected_cursor p) (expected_video_id p) None;
     if q_repeat q = expected_repeat p then Some () else None }"


definition commit_mutation ::
    "'rng queue \<Rightarrow> u64 \<Rightarrow> 'rng mutation_plan \<Rightarrow> ('rng queue \<times> u64) run" where
  "commit_mutation q g p = do {
     validate_mutation q p;
     Some (bump_rev (q\<lparr>q_songs := p_songs p, q_order := p_order p, q_cursor := p_cursor p,
       q_shuffle := p_shuffle p, q_repeat := p_repeat p, q_rng := p_rng p\<rparr>) g) }"

definition queue_set ::
    "'rng shuffler \<Rightarrow> 'rng queue \<Rightarrow> u64 \<Rightarrow> song list \<Rightarrow> nat \<Rightarrow> ('rng queue \<times> u64) run" where
  "queue_set shuf q g songs start = commit_mutation q g
     (prepare_replacement shuf q \<lparr>d_songs = songs, d_start = start, d_shuffle_override = None\<rparr>)"

definition restore_snapshot ::
    "'rng shuffler \<Rightarrow> 'rng queue \<Rightarrow> u64 \<Rightarrow> queue_snapshot \<Rightarrow> ('rng queue \<times> u64) run" where
  "restore_snapshot shuf q g s = commit_mutation q g (prepare_snapshot_restore shuf q s)"

section \<open>Queue commands\<close>

text \<open>Every operation an owner applies to its queue, as one command; removal commands prepare and
  commit on the single owner lane.\<close>

datatype queue_cmd =
    Extend "song list" | InsertNext "song list" | PlayNowMany "song list" | PlayNow song
  | SetSongs "song list" nat | Replace replacement_draft | Restore queue_snapshot
  | IdleEnqueue "song list" | Next bool | Prev | Goto nat
  | RemoveAt nat | RemoveRange nat nat | Purge "song \<Rightarrow> bool" | MoveItem nat nat | ClearUpcoming
  | SetShuffle bool | ToggleShuffle | CycleRepeatCmd

fun queue_exec :: "'rng shuffler \<Rightarrow> 'rng queue \<times> u64 \<Rightarrow> queue_cmd \<Rightarrow> ('rng queue \<times> u64) run" where
  "queue_exec shuf (q, g) (Extend ss) = Some (snd (queue_extend shuf q g ss))"
| "queue_exec shuf (q, g) (InsertNext ss) = map_option snd (insert_next_many q g ss)"
| "queue_exec shuf (q, g) (PlayNowMany ss) = map_option snd (play_now_many q g ss)"
| "queue_exec shuf (q, g) (PlayNow s) = map_option snd (play_now q g s)"
| "queue_exec shuf (q, g) (SetSongs ss start) = queue_set shuf q g ss start"
| "queue_exec shuf (q, g) (Replace d) = commit_mutation q g (prepare_replacement shuf q d)"
| "queue_exec shuf (q, g) (Restore s) = restore_snapshot shuf q g s"
| "queue_exec shuf (q, g) (IdleEnqueue ss) =
     commit_mutation q g (fst (prepare_idle_enqueue shuf q ss))"
| "queue_exec shuf (q, g) (Next auto) = Some (snd (queue_next q auto), g)"
| "queue_exec shuf (q, g) Prev = map_option (\<lambda>(_, q). (q, g)) (queue_prev q)"
| "queue_exec shuf (q, g) (Goto pos) = Some (snd (queue_goto q pos), g)"
| "queue_exec shuf (q, g) (RemoveAt pos) = map_option snd (remove_at q g pos)"
| "queue_exec shuf (q, g) (RemoveRange lo hi) = do {
     r \<leftarrow> prepare_remove_range q lo hi;
     case r of None \<Rightarrow> Some (q, g) | Some (p, _) \<Rightarrow> commit_mutation q g p }"
| "queue_exec shuf (q, g) (Purge reject) = do {
     r \<leftarrow> prepare_purge q reject;
     case r of None \<Rightarrow> Some (q, g) | Some (p, _) \<Rightarrow> commit_mutation q g p }"
| "queue_exec shuf (q, g) (MoveItem from to) = map_option snd (move_item q g from to)"
| "queue_exec shuf (q, g) ClearUpcoming = map_option snd (clear_upcoming q g)"
| "queue_exec shuf (q, g) (SetShuffle b) = Some (set_shuffle shuf q g b)"
| "queue_exec shuf (q, g) ToggleShuffle = Some (toggle_shuffle shuf q g)"
| "queue_exec shuf (q, g) CycleRepeatCmd = Some (cycle_repeat q, g)"

fun queue_run :: "'rng shuffler \<Rightarrow> 'rng queue \<times> u64 \<Rightarrow> queue_cmd list \<Rightarrow> ('rng queue \<times> u64) run" where
  "queue_run shuf w [] = Some w"
| "queue_run shuf w (c # cs) = do { w \<leftarrow> queue_exec shuf w c; queue_run shuf w cs }"


section \<open>Every command is safe\<close>

text \<open>What a command promises from a well-formed queue: no panic, a well-formed result, and either
  contents, order and revision unchanged or one fresh revision minted.\<close>

definition step_ok :: "'rng queue \<times> u64 \<Rightarrow> ('rng queue \<times> u64) run \<Rightarrow> bool" where
  "step_ok w r \<longleftrightarrow> (case r of None \<Rightarrow> False | Some (q', g') \<Rightarrow> queue_wf q'
     \<and> (q_rev q' = q_rev (fst w) \<and> g' = snd w \<and> q_songs q' = q_songs (fst w)
          \<and> q_order q' = q_order (fst w)
        \<or> q_rev q' = snd w \<and> g' = snd w + 1))"

lemma step_ok_same: "queue_wf q' \<Longrightarrow> q_rev q' = q_rev q \<Longrightarrow> q_songs q' = q_songs q
    \<Longrightarrow> q_order q' = q_order q \<Longrightarrow> step_ok (q, g) (Some (q', g))"
  by (simp add: step_ok_def)

lemma step_ok_bump: "queue_wf q' \<Longrightarrow> step_ok (q, g) (Some (bump_rev q' g))"
  by (simp add: step_ok_def bump_rev_eq)

lemma commit_prepared:
  "commit_mutation q g (mutation_plan_of q scratch) = Some (scratch\<lparr>q_rev := g\<rparr>, g + 1)"
  by (simp add: commit_mutation_def validate_mutation_def validate_planned_transition_def
      mutation_plan_of_def bump_rev_eq)

lemma step_ok_commit: "queue_wf s \<Longrightarrow> step_ok (q, g) (commit_mutation q g (mutation_plan_of q s))"
  by (simp add: commit_prepared step_ok_def)

lemma replace_without_revision_wf: "permuting shuf \<Longrightarrow> queue_wf (replace_without_revision shuf q ss st)"
  by (simp add: replace_without_revision_def Let_def rebuild_order_wf)

lemma cursor_same: "\<exists>c. q = q\<lparr>q_cursor := c\<rparr>"
  by (rule exI [of _ "q_cursor q"]) simp

lemma queue_next_cases:
  assumes "queue_wf q"
  shows "\<exists>s c. queue_next q auto = (s, q\<lparr>q_cursor := c\<rparr>) \<and> queue_wf (q\<lparr>q_cursor := c\<rparr>)"
proof -
  have eta: "q\<lparr>q_cursor := q_cursor q\<rparr> = q" by simp
  have "\<exists>c. snd (queue_next q auto) = q\<lparr>q_cursor := c\<rparr> \<and> (c = q_cursor q \<or> c < length (q_order q))"
    using wf_order_empty [OF assms] by (auto simp: queue_next_def Let_def intro: exI [of _ "q_cursor q"])
  then show ?thesis using assms eta by (metis prod.collapse queue_wf_cursor)
qed

lemma queue_prev_cases:
  assumes "queue_wf q"
  shows "\<exists>s c. queue_prev q = Some (s, q\<lparr>q_cursor := c\<rparr>) \<and> queue_wf (q\<lparr>q_cursor := c\<rparr>)"
proof -
  have eta: "q\<lparr>q_cursor := q_cursor q\<rparr> = q" by simp
  have lt: "q_order q \<noteq> [] \<Longrightarrow> q_cursor q < length (q_order q)" using wf_at_le [OF assms] by simp
  have "\<exists>s c. queue_prev q = Some (s, q\<lparr>q_cursor := c\<rparr>) \<and> (c = q_cursor q \<or> c < length (q_order q))"
    using wf_order_empty [OF assms] lt
    by (auto simp: queue_prev_def Let_def intro: exI [of _ "q_cursor q"])
  then show ?thesis using assms eta by (metis queue_wf_cursor)
qed

lemma queue_goto_cases:
  assumes "queue_wf q"
  shows "\<exists>s c. queue_goto q pos = (s, q\<lparr>q_cursor := c\<rparr>) \<and> queue_wf (q\<lparr>q_cursor := c\<rparr>)"
proof -
  have eta: "q\<lparr>q_cursor := q_cursor q\<rparr> = q" by simp
  have "\<exists>c. snd (queue_goto q pos) = q\<lparr>q_cursor := c\<rparr> \<and> (c = q_cursor q \<or> c < length (q_order q))"
    by (auto simp: queue_goto_def Let_def intro: exI [of _ "q_cursor q"])
  then show ?thesis using assms eta by (metis prod.collapse queue_wf_cursor)
qed

lemma inserted_cursor_wf:
  assumes "queue_wf q" "length (q_songs q) + length ss \<le> MAX_QUEUE_LEN" "ss \<noteq> []"
  shows "queue_wf ((inserted q ss)\<lparr>q_cursor := (if q_order q = [] then 0 else q_cursor q + 1)\<rparr>)"
proof -
  have "length (q_order (inserted q ss)) = length (q_order q) + length ss"
    by (simp add: inserted_def Let_def)
  then show ?thesis using assms inserted_spec(1) [OF assms(1,2)] wf_at_le [OF assms(1)]
    by (intro queue_wf_cursor) (auto simp: neq_Nil_conv)
qed

lemma play_now_many_without_revision_ok:
  assumes "queue_wf q"
  shows "\<exists>n q'. play_now_many_without_revision q ss = Some (n, q') \<and> queue_wf q'
    \<and> (n = 0 \<longrightarrow> q' = q)"
proof -
  let ?t = "take (MAX_QUEUE_LEN - length (q_songs q)) ss"
  have "length (q_songs q) + length ?t \<le> MAX_QUEUE_LEN" using assms by (auto simp: queue_wf_def)
  then show ?thesis
    using assms inserted_cursor_wf [OF assms, of ?t]
    by (auto simp: play_now_many_without_revision_eq Let_def simp del: length_take)
qed

lemma play_now_many_ok: "queue_wf q \<Longrightarrow> step_ok (q, g) (map_option snd (play_now_many q g ss))"
  using play_now_many_without_revision_ok [of q ss]
  by (auto simp: play_now_many_def intro: step_ok_bump step_ok_same)

lemma insert_next_many_ok: "queue_wf q \<Longrightarrow> step_ok (q, g) (map_option snd (insert_next_many q g ss))"
proof -
  assume wf: "queue_wf q"
  let ?t = "take (MAX_QUEUE_LEN - length (q_songs q)) ss"
  have "length (q_songs q) + length ?t \<le> MAX_QUEUE_LEN" using wf by (auto simp: queue_wf_def)
  then show ?thesis using wf inserted_spec(1) [OF wf, of ?t]
    by (auto simp: insert_next_many_eq Let_def intro: step_ok_bump step_ok_same)
qed

lemma length_nths_gap:
  assumes "lo \<le> hi" "hi < length xs"
  shows "length (nths xs (- {lo..<hi + 1})) = length xs - (hi - lo + 1)"
proof -
  have "{i. i < length xs \<and> i \<in> - {lo..<hi + 1}} = {..<length xs} - {lo..<hi + 1}" by auto
  moreover have "card ({..<length xs} - {lo..<hi + 1}) = length xs - (hi + 1 - lo)"
    using assms by (subst card_Diff_subset) auto
  ultimately show ?thesis using assms by (simp add: length_nths Suc_diff_le)
qed

text \<open>The selection of \<open>prepare_remove_range\<close> and its result, for the clamped bounds.\<close>

definition range_selection :: "'rng queue \<Rightarrow> nat \<Rightarrow> nat \<Rightarrow> removal_playback \<times> nat option" where
  "range_selection q lo hi =
     (if \<not> (lo \<le> q_cursor q \<and> q_cursor q \<le> hi) then (Unchanged, None)
      else if hi + 1 < length (q_order q) then (LoadSelected, Some lo)
      else if hi - lo + 1 < length (q_order q) \<and> q_repeat q = RepeatAll then (LoadSelected, Some 0)
      else (StopPlayback, None))"

definition select_in :: "nat option \<Rightarrow> 'rng queue \<Rightarrow> 'rng queue" where
  "select_in sel q = (case sel of None \<Rightarrow> q | Some c \<Rightarrow> q\<lparr>q_cursor := c\<rparr>)"

lemma select_in_frame [simp]:
  "q_order (select_in sel q) = q_order q" "q_songs (select_in sel q) = q_songs q"
  "plays (select_in sel q) = plays q" "q_shuffle (select_in sel q) = q_shuffle q"
  "q_repeat (select_in sel q) = q_repeat q"
  by (simp_all add: select_in_def split: option.split)

lemma select_in_wf:
  "queue_wf q \<Longrightarrow> (\<And>c. sel = Some c \<Longrightarrow> c < length (q_order q)) \<Longrightarrow> queue_wf (select_in sel q)"
  by (cases sel) (simp_all add: select_in_def queue_wf_cursor)

lemma prepare_remove_range_eq:
  assumes "queue_wf q" "q_order q \<noteq> []" "a \<le> b"
    "lo = min a (length (q_order q) - 1)" "hi = min b (length (q_order q) - 1)"
  defines "s \<equiv> select_in (snd (range_selection q lo hi)) (foldl removed q (rev [lo..<hi + 1]))"
  shows "prepare_remove_range q a b = Some (Some (mutation_plan_of q s,
      \<lparr>removed_count = hi - lo + 1, popup_cursor = min lo (length (q_order s) - 1),
       playback = fst (range_selection q lo hi)\<rparr>))"
    and "queue_wf s" "plays s = nths (plays q) (- {lo..<hi + 1})"
proof -
  have "length (q_order q) > 0" using assms(2) by simp
  then have b: "lo \<le> hi" "hi < length (q_order q)" using assms(3) unfolding assms(4,5) by linarith+
  let ?s = "foldl removed q (rev [lo..<hi + 1])"
  note r = remove_range_eq [OF assms(1) b]
  have "length (q_order ?s) = length (nths (plays q) (- {lo..<hi + 1}))"
    using arg_cong [OF r(3), of length] by simp
  then have keep: "length (q_order ?s) = length (q_order q) - (hi - lo + 1)"
    using length_nths_gap [of lo hi "plays q"] b by simp
  have lt: "c < length (q_order ?s)" if "snd (range_selection q lo hi) = Some c" for c
    unfolding keep using that b by (auto simp: range_selection_def split: if_splits)
  show "queue_wf s" unfolding s_def using r(2) lt by (rule select_in_wf)
  show "plays s = nths (plays q) (- {lo..<hi + 1})" using r(3) by (simp add: s_def del: upt_Suc)
  show "prepare_remove_range q a b = Some (Some (mutation_plan_of q s,
      \<lparr>removed_count = hi - lo + 1, popup_cursor = min lo (length (q_order s) - 1),
       playback = fst (range_selection q lo hi)\<rparr>))"
  proof -
    obtain pb sel where rs: "range_selection q lo hi = (pb, sel)" by fastforce
    have guard: "(length (q_order q) = 0 \<or> a > b) = False" using assms(2,3) by simp
    have "prepare_remove_range q a b = (case range_selection q lo hi of (pb, sel) \<Rightarrow> do {
        scratch \<leftarrow> remove_range_without_revision q lo hi;
        Some (Some (mutation_plan_of q (select_in sel scratch), \<lparr>removed_count = hi - lo + 1,
          popup_cursor = min lo (length (q_order (select_in sel scratch)) - 1), playback = pb\<rparr>)) })"
      unfolding prepare_remove_range_def range_selection_def Let_def assms(4,5) [symmetric] guard
      by (simp only: if_False select_in_def [symmetric])
    then show ?thesis using r(1) by (simp add: rs s_def del: upt_Suc)
  qed
qed

lemma prepare_remove_range_none:
  "q_order q = [] \<or> a > b \<Longrightarrow> prepare_remove_range q a b = Some None"
  by (auto simp: prepare_remove_range_def)

lemma remove_range_cmd_ok:
  assumes "queue_wf q"
  shows "step_ok (q, g) (queue_exec shuf (q, g) (RemoveRange a b))"
proof (cases "q_order q = [] \<or> a > b")
  case True
  then show ?thesis using assms by (simp add: prepare_remove_range_none step_ok_same)
next
  case False
  then show ?thesis
    using prepare_remove_range_eq(1,2) [OF assms, of a b, OF _ _ refl refl]
    by (simp add: step_ok_commit)
qed


section \<open>Purging\<close>

lemma nths_filter: "nths xs {i. i < length xs \<and> P (xs ! i)} = filter P xs"
proof (induction xs rule: rev_induct)
  case Nil
  then show ?case by simp
next
  case (snoc x xs)
  have "nths xs {i. i < length (xs @ [x]) \<and> P ((xs @ [x]) ! i)} = nths xs {i. i < length xs \<and> P (xs ! i)}"
    by (rule nths_same) (simp add: nth_append)
  then show ?case using snoc by (simp add: nths_append)
qed

lemma nth_filter_before:
  "i < length xs \<Longrightarrow> P (xs ! i) \<Longrightarrow>
     length (filter P (take i xs)) < length (filter P xs)
     \<and> filter P xs ! length (filter P (take i xs)) = xs ! i"
proof -
  assume a: "i < length xs" "P (xs ! i)"
  have "xs = take i xs @ xs ! i # drop (Suc i) xs" using a(1) by (rule id_take_nth_drop)
  then have "filter P xs = filter P (take i xs) @ xs ! i # filter P (drop (Suc i) xs)"
    using a(2) by (metis filter.simps(2) filter_append)
  then show ?thesis by simp
qed

lemma card_before:
  "i \<le> length xs \<Longrightarrow> i - card {p. p < i \<and> P (xs ! p)} = length (filter (\<lambda>x. \<not> P x) (take i xs))"
proof -
  assume i: "i \<le> length xs"
  have "{p. p < length (take i xs) \<and> P (take i xs ! p)} = {p. p < i \<and> P (xs ! p)}" using i by auto
  then have "length (filter P (take i xs)) = card {p. p < i \<and> P (xs ! p)}"
    by (simp add: length_filter_conv_card)
  moreover have "length (filter P (take i xs)) + length (filter (\<lambda>x. \<not> P x) (take i xs)) = i"
    using i sum_length_filter_compl [of P "take i xs"] by simp
  ultimately show ?thesis by simp
qed

lemma purge_matches_eq:
  "queue_wf q \<Longrightarrow> purge_matches q reject = filter (\<lambda>p. reject (plays q ! p)) [0..<length (q_order q)]"
  by (auto simp: purge_matches_def song_at_cursor_plays intro!: filter_cong)

lemma set_purge_matches:
  "queue_wf q \<Longrightarrow> set (purge_matches q reject) = {p. p < length (q_order q) \<and> reject (plays q ! p)}"
  by (auto simp: purge_matches_eq)

lemma takeWhile_less_sorted: "sorted_wrt (<) (ms :: nat list) \<Longrightarrow> length (takeWhile (\<lambda>m. m < k) ms) = card {m \<in> set ms. m < k}"
proof (induction ms)
  case Nil
  then show ?case by simp
next
  case (Cons m ms)
  show ?case
  proof (cases "m < k")
    case True
    then have "{x \<in> set (m # ms). x < k} = insert m {x \<in> set ms. x < k}" by auto
    moreover have "m \<notin> {x \<in> set ms. x < k}" using Cons.prems by auto
    ultimately show ?thesis using Cons True by simp
  next
    case False
    then have "{x \<in> set (m # ms). x < k} = {}" using Cons.prems by force
    then show ?thesis using False by simp
  qed
qed

lemma sorted_purge_matches: "queue_wf q \<Longrightarrow> sorted_wrt (<) (purge_matches q reject)"
  by (simp add: purge_matches_eq sorted_wrt_filter)

text \<open>The survivors, and the position a surviving position has among them.\<close>

definition survivors :: "'rng queue \<Rightarrow> (song \<Rightarrow> bool) \<Rightarrow> song list" where
  "survivors q reject = filter (\<lambda>s. \<not> reject s) (plays q)"

definition new_position :: "'rng queue \<Rightarrow> (song \<Rightarrow> bool) \<Rightarrow> nat \<Rightarrow> nat" where
  "new_position q reject i = length (filter (\<lambda>s. \<not> reject s) (take i (plays q)))"

lemma new_position_survivor:
  "i < length (q_order q) \<Longrightarrow> \<not> reject (plays q ! i) \<Longrightarrow>
     new_position q reject i < length (survivors q reject)
     \<and> survivors q reject ! new_position q reject i = plays q ! i"
  using nth_filter_before [of i "plays q" "\<lambda>s. \<not> reject s"] by (simp add: survivors_def new_position_def)

lemma purge_shift:
  assumes "queue_wf q" "i \<le> length (q_order q)"
  shows "i - card {m \<in> set (purge_matches q reject). m < i} = new_position q reject i"
proof -
  have "{m \<in> set (purge_matches q reject). m < i} = {p. p < i \<and> reject (plays q ! p)}"
    using assms by (auto simp: set_purge_matches)
  then show ?thesis using card_before [of i "plays q" reject] assms(2) by (simp add: new_position_def)
qed

lemma purge_removal:
  fixes reject :: "song \<Rightarrow> bool"
  assumes "queue_wf q"
  defines "ms \<equiv> purge_matches q reject"
  shows "remove_each q (rev ms) = Some (foldl removed q (rev ms))"
    and "queue_wf (foldl removed q (rev ms))"
    and "plays (foldl removed q (rev ms)) = survivors q reject"
    and "q_cursor q \<notin> set ms \<Longrightarrow> q_order q \<noteq> [] \<Longrightarrow>
      q_cursor (foldl removed q (rev ms)) = new_position q reject (q_cursor q)"
proof -
  have p: "sorted_wrt (>) (rev ms)" "\<forall>p\<in>set (rev ms). p < length (q_order q)"
    using assms(1) sorted_purge_matches [OF assms(1)]
    by (auto simp: ms_def sorted_wrt_rev set_purge_matches)
  show "remove_each q (rev ms) = Some (foldl removed q (rev ms))"
    using assms(1) p by (rule remove_each_eq)
  have r: "queue_wf (foldl removed q (rev ms))
      \<and> plays (foldl removed q (rev ms)) = nths (plays q) (- set (rev ms))"
    using assms(1) p by (intro queue_removal.rem_many) auto
  have "nths (plays q) (- set (rev ms)) = nths (plays q) {i. i < length (plays q) \<and> \<not> reject (plays q ! i)}"
    using assms(1) by (intro nths_same) (auto simp: ms_def set_purge_matches)
  then show "plays (foldl removed q (rev ms)) = survivors q reject"
    using r nths_filter [of "plays q" "\<lambda>s. \<not> reject s"] by (simp add: survivors_def)
  show "queue_wf (foldl removed q (rev ms))" using r by simp
  assume c: "q_cursor q \<notin> set ms" "q_order q \<noteq> []"
  have "q_cursor (foldl removed q (rev ms)) = q_cursor q - card {p \<in> set (rev ms). p < q_cursor q}"
    using assms(1) p c(1) by (intro queue_removal.rem_many_cur) auto
  then show "q_cursor (foldl removed q (rev ms)) = new_position q reject (q_cursor q)"
    using purge_shift [OF assms(1), of "q_cursor q" reject] wf_at_le [OF assms(1) c(2)]
    by (simp add: ms_def)
qed


lemma find_upt_Some:
  "find P [i..<n] = Some k \<Longrightarrow> i \<le> k \<and> k < n \<and> P k \<and> (\<forall>j. i \<le> j \<and> j < k \<longrightarrow> \<not> P j)"
proof -
  assume "find P [i..<n] = Some k"
  then obtain m where "m < length [i..<n]" "P ([i..<n] ! m)" "k = [i..<n] ! m"
    "\<forall>j<m. \<not> P ([i..<n] ! j)" by (auto simp: find_Some_iff)
  then have m: "k = i + m" "P k" "k < n" "\<forall>j<m. \<not> P (i + j)" by auto
  have "\<not> P j" if "i \<le> j" "j < k" for j using m(4) that m(1) by (auto dest: spec [of _ "j - i"])
  then show ?thesis using m by auto
qed

lemma filter_none: "(\<And>j. j < length xs \<Longrightarrow> \<not> P (xs ! j)) \<Longrightarrow> filter P xs = []"
  by (auto simp: filter_empty_conv in_set_conv_nth)

text \<open>Where the selection lands: the first survivor after the current track, else the first
  survivor when everything repeats, else playback stops.\<close>

lemma purge_selection_eq:
  fixes reject :: "song \<Rightarrow> bool"
  assumes "queue_wf q" "q_order q \<noteq> []"
  defines "keep \<equiv> \<lambda>s. \<not> reject s" and "c \<equiv> q_cursor q"
  defines "later \<equiv> filter keep (drop (c + 1) (plays q))"
  shows "purge_selection q (purge_matches q reject) =
    (if keep (plays q ! c) then (Unchanged, None)
     else if later \<noteq> [] then (LoadSelected, Some (new_position q reject (c + 1)))
     else if survivors q reject \<noteq> [] \<and> q_repeat q = RepeatAll then (LoadSelected, Some 0)
     else (StopPlayback, None))"
    and "later \<noteq> [] \<Longrightarrow> new_position q reject (c + 1) < length (survivors q reject)
      \<and> survivors q reject ! new_position q reject (c + 1) = hd later"
proof -
  let ?ms = "purge_matches q reject" and ?n = "length (q_order q)"
  have c: "c < ?n" using wf_at_le [OF assms(1,2)] by (simp add: c_def)
  have split: "survivors q reject = filter keep (take (c + 1) (plays q)) @ later"
    by (simp only: survivors_def keep_def later_def filter_append [symmetric] append_take_drop_id)
  show "later \<noteq> [] \<Longrightarrow> new_position q reject (c + 1) < length (survivors q reject)
      \<and> survivors q reject ! new_position q reject (c + 1) = hd later"
    unfolding new_position_def split keep_def [symmetric] by (simp add: hd_conv_nth nth_append)
  have mem: "p \<notin> set ?ms \<longleftrightarrow> keep (plays q ! p)" if "p < ?n" for p
    using that assms(1) by (simp add: set_purge_matches keep_def)
  have count: "length ?ms < ?n \<longleftrightarrow> survivors q reject \<noteq> []"
  proof -
    have "length ?ms = length (filter reject (plays q))"
      using assms(1) arg_cong [OF filter_map [of reject "(!) (plays q)" "[0..<length (plays q)]"], of length]
      unfolding map_nth by (simp add: purge_matches_eq comp_def)
    then show ?thesis using sum_length_filter_compl [of reject "plays q"]
      by (simp add: survivors_def flip: length_greater_0_conv) linarith
  qed
  show "purge_selection q ?ms =
    (if keep (plays q ! c) then (Unchanged, None)
     else if later \<noteq> [] then (LoadSelected, Some (new_position q reject (c + 1)))
     else if survivors q reject \<noteq> [] \<and> q_repeat q = RepeatAll then (LoadSelected, Some 0)
     else (StopPlayback, None))"
  proof (cases "find (\<lambda>pos. pos \<notin> set ?ms) [c + 1..<?n]")
    case None
    then have "\<not> keep (plays q ! p)" if "c + 1 \<le> p" "p < ?n" for p
      using that mem by (auto simp: find_None_iff)
    then have "later = []" unfolding later_def by (intro filter_none) simp
    then show ?thesis using None mem [OF c] count by (simp add: purge_selection_def c_def)
  next
    case (Some k)
    note k = find_upt_Some [OF Some]
    have "later \<noteq> []"
    proof -
      have "plays q ! k \<in> set (drop (c + 1) (plays q))"
        using k by (auto simp: in_set_conv_nth intro!: exI [of _ "k - (c + 1)"])
      then show ?thesis using k mem [of k] by (auto simp: later_def filter_empty_conv)
    qed
    moreover have "k - length (takeWhile (\<lambda>m. m < k) ?ms) = new_position q reject k"
      using k purge_shift [OF assms(1), of k reject] sorted_purge_matches [OF assms(1), of reject]
      by (simp add: takeWhile_less_sorted)
    moreover have "new_position q reject k = new_position q reject (c + 1)"
    proof -
      have "take k (plays q) = take (c + 1) (plays q) @ take (k - (c + 1)) (drop (c + 1) (plays q))"
        using k by (metis le_add_diff_inverse take_add)
      moreover have "filter keep (take (k - (c + 1)) (drop (c + 1) (plays q))) = []"
      proof (rule filter_none)
        fix j assume "j < length (take (k - (c + 1)) (drop (c + 1) (plays q)))"
        then have "j < k - (c + 1)" by simp
        then have j: "c + 1 + j < k" by linarith
        then have "c + 1 + j \<in> set ?ms" using k by auto
        then show "\<not> keep (take (k - (c + 1)) (drop (c + 1) (plays q)) ! j)"
          using j k mem [of "c + 1 + j"] by simp
      qed
      ultimately show ?thesis by (simp add: new_position_def flip: keep_def)
    qed
    ultimately show ?thesis using Some mem [OF c] by (simp add: purge_selection_def c_def Let_def)
  qed
qed


lemma prepare_purge_none:
  assumes "queue_wf q" "filter reject (plays q) = []"
  shows "prepare_purge q reject = Some None"
proof -
  have "purge_matches q reject = []"
    using assms nth_mem [of _ "plays q"] by (auto simp: purge_matches_eq filter_empty_conv)
  then show ?thesis by (simp add: prepare_purge_def)
qed

lemma prepare_purge_eq:
  fixes reject :: "song \<Rightarrow> bool"
  assumes "queue_wf q" "filter reject (plays q) \<noteq> []"
  defines "ms \<equiv> purge_matches q reject"
  defines "s \<equiv> select_in (snd (purge_selection q ms)) (foldl removed q (rev ms))"
  shows "prepare_purge q reject = Some (Some (mutation_plan_of q s,
      \<lparr>removed_count = length ms, popup_cursor = min (hd ms) (length (q_order s) - 1),
       playback = fst (purge_selection q ms)\<rparr>))"
    and "queue_wf s" "plays s = survivors q reject"
    "length ms = length (filter reject (plays q))"
proof -
  have len: "length ms = length (filter reject (plays q))"
    using assms(1) arg_cong [OF filter_map [of reject "(!) (plays q)" "[0..<length (plays q)]"], of length]
    unfolding map_nth by (simp add: purge_matches_eq comp_def ms_def)
  then show "length ms = length (filter reject (plays q))" .
  have "plays q \<noteq> []" using assms(2) by (metis filter.simps(1))
  then have ne: "q_order q \<noteq> []" "ms \<noteq> []" using assms(2) len by auto
  note r = purge_removal [OF assms(1), of reject, folded ms_def]
  note sel = purge_selection_eq [OF assms(1) ne(1), of reject, folded ms_def]
  have "length (q_order (foldl removed q (rev ms))) = length (survivors q reject)"
    by (metis length_plays r(3))
  then have "c < length (q_order (foldl removed q (rev ms)))" if "snd (purge_selection q ms) = Some c" for c
    using that sel(2) unfolding sel(1) by (auto split: if_splits)
  then show "queue_wf s" unfolding s_def using r(2) by (intro select_in_wf)
  show "plays s = survivors q reject" by (simp add: s_def r(3))
  obtain pb c where ps: "purge_selection q ms = (pb, c)" by fastforce
  have guard: "(length (q_order q) = 0 \<or> ms = []) = False" using ne by simp
  have "prepare_purge q reject = (case purge_selection q ms of (pb, sel) \<Rightarrow> do {
      scratch \<leftarrow> remove_each q (rev ms);
      Some (Some (mutation_plan_of q (select_in sel scratch), \<lparr>removed_count = length ms,
        popup_cursor = min (hd ms) (length (q_order (select_in sel scratch)) - 1), playback = pb\<rparr>)) })"
    unfolding prepare_purge_def Let_def ms_def [symmetric] guard
    by (simp only: if_False select_in_def [symmetric])
  then show "prepare_purge q reject = Some (Some (mutation_plan_of q s,
      \<lparr>removed_count = length ms, popup_cursor = min (hd ms) (length (q_order s) - 1),
       playback = fst (purge_selection q ms)\<rparr>))"
    using r(1) by (simp add: ps s_def)
qed

lemma purge_cmd_ok:
  assumes "queue_wf q"
  shows "step_ok (q, g) (queue_exec shuf (q, g) (Purge reject))"
proof (cases "filter reject (plays q) = []")
  case True
  then show ?thesis using assms by (simp add: prepare_purge_none step_ok_same)
next
  case False
  then show ?thesis using prepare_purge_eq(1,2) [OF assms, of reject] by (simp add: step_ok_commit)
qed

section \<open>The remaining commands\<close>

lemma remove_at_ok: "queue_wf q \<Longrightarrow> step_ok (q, g) (map_option snd (remove_at q g pos))"
  by (cases "pos < length (q_order q)")
    (simp_all add: remove_at_def remove_at_eq removed_wf step_ok_bump, simp add: remove_at_without_revision_def step_ok_same)

lemma move_item_ok: "queue_wf q \<Longrightarrow> step_ok (q, g) (map_option snd (move_item q g from to))"
proof (cases "from < length (q_order q) \<and> to < length (q_order q)")
  case True
  then show "queue_wf q \<Longrightarrow> ?thesis"
    by (simp add: move_item_eq moved_wf step_ok_bump step_ok_same)
next
  case False
  then show "queue_wf q \<Longrightarrow> ?thesis" by (auto simp: move_item_def step_ok_same)
qed

lemma clear_upcoming_ok: "queue_wf q \<Longrightarrow> step_ok (q, g) (map_option snd (clear_upcoming q g))"
proof (cases "length (q_order q) \<le> q_cursor q + 1")
  case True
  then show "queue_wf q \<Longrightarrow> ?thesis" by (simp add: clear_upcoming_def step_ok_same)
next
  case False
  let ?lo = "q_cursor q + 1" and ?hi = "length (q_order q) - 1"
  have "?lo \<le> ?hi" "?hi < length (q_order q)" using False by auto
  then show "queue_wf q \<Longrightarrow> ?thesis" using False remove_range_eq(1,2) [of q ?lo ?hi]
    by (simp add: clear_upcoming_def Let_def step_ok_bump del: upt_Suc)
qed

lemma set_shuffle_ok:
  assumes "permuting shuf" "queue_wf q"
  shows "step_ok (q, g) (Some (set_shuffle shuf q g b))"
proof -
  obtain ch q' where s: "set_shuffle_without_revision shuf q b = (ch, q')" by fastforce
  note r = set_shuffle_without_revision_spec [OF assms s]
  show ?thesis
  proof (cases ch)
    case True
    then show ?thesis using r(1) s by (simp add: set_shuffle_def step_ok_bump)
  next
    case False
    then have "q' = q" using s r(5) by (simp add: set_shuffle_without_revision_def)
    then show ?thesis using False s assms(2) by (simp add: set_shuffle_def step_ok_same)
  qed
qed

lemma extend_ok:
  assumes "permuting shuf" "queue_wf q"
  shows "step_ok (q, g) (Some (snd (queue_extend shuf q g ss)))"
proof -
  obtain n q' where e: "extend_without_revision shuf q ss = (n, q')" by fastforce
  note r = extend_without_revision_spec [OF assms e]
  have "q_order q' = q_order q" if "n = 0"
  proof -
    have "length ss = 0 \<or> MAX_QUEUE_LEN - length (q_songs q) = 0" using that r(2) by linarith
    then show ?thesis using e by (auto simp: extend_without_revision_def Let_def split: if_splits)
  qed
  then show ?thesis using r e by (auto simp: queue_extend_def step_ok_bump step_ok_same)
qed

lemma idle_enqueue_wf:
  assumes "permuting shuf" "queue_wf q"
  shows "\<exists>s out. prepare_idle_enqueue shuf q ss = (mutation_plan_of q s, out) \<and> queue_wf s"
proof -
  obtain n q' where e: "extend_without_revision shuf q ss = (n, q')" by fastforce
  note r = extend_without_revision_spec [OF assms e]
  have "length (q_order q') > 0" if "n \<noteq> 0"
    using that r(2,4) queue_wf_length [OF r(1)] by auto
  then have "queue_wf (q'\<lparr>q_cursor := min (length (q_songs q)) (length (q_order q') - 1)\<rparr>)" if "n \<noteq> 0"
    using that r(1) by (intro queue_wf_cursor) auto
  then show ?thesis using r(1) e by (auto simp: prepare_idle_enqueue_def Let_def)
qed

lemma prepare_replacement_wf:
  assumes "permuting shuf"
  shows "\<exists>s. prepare_replacement shuf q d = mutation_plan_of q s \<and> queue_wf s"
proof -
  let ?s = "replace_without_revision shuf q (d_songs d) (d_start d)"
  have wf: "queue_wf ?s" using assms by (rule replace_without_revision_wf)
  obtain ch q' where s: "set_shuffle_without_revision shuf ?s (the (d_shuffle_override d)) = (ch, q')"
    by fastforce
  then show ?thesis using wf set_shuffle_without_revision_spec(1) [OF assms wf s]
    by (cases "d_shuffle_override d") (auto simp: prepare_replacement_def Let_def)
qed

lemma exec_ok:
  assumes "permuting shuf" "queue_wf q"
  shows "step_ok (q, g) (queue_exec shuf (q, g) c)"
proof (cases c)
  case (SetSongs ss st)
  then show ?thesis using prepare_replacement_wf [OF assms(1)]
    by (auto simp: queue_set_def intro!: step_ok_commit) (metis step_ok_commit)
next
  case (Replace d)
  then show ?thesis using prepare_replacement_wf [OF assms(1), of q d] by (auto intro: step_ok_commit)
next
  case (Restore sn)
  then show ?thesis using assms(1)
    by (auto simp: restore_snapshot_def prepare_snapshot_restore_def restore_snapshot_wf intro!: step_ok_commit)
next
  case (IdleEnqueue ss)
  then show ?thesis using idle_enqueue_wf [OF assms, of ss] by (auto intro: step_ok_commit)
next
  case (PlayNow s)
  then show ?thesis using play_now_many_ok [OF assms(2), of g "[s]"]
    by (auto simp: play_now_def split: prod.splits Option.bind_splits)
next
  case (Next auto)
  then show ?thesis using queue_next_cases [OF assms(2), of auto] by (auto intro: step_ok_same)
next
  case Prev
  then show ?thesis using queue_prev_cases [OF assms(2)] by (auto intro!: step_ok_same)
next
  case (Goto pos)
  then show ?thesis using queue_goto_cases [OF assms(2), of pos] by (auto intro: step_ok_same)
qed (use assms in \<open>simp_all add: extend_ok insert_next_many_ok play_now_many_ok remove_at_ok
    remove_range_cmd_ok purge_cmd_ok move_item_ok clear_upcoming_ok set_shuffle_ok toggle_shuffle_def
    cycle_repeat_def step_ok_same del: queue_exec.simps(13,14)\<close>)


section \<open>Runs\<close>

lemma run_ok:
  assumes "permuting shuf" "queue_wf q"
  shows "\<exists>q' g'. queue_run shuf (q, g) cs = Some (q', g') \<and> queue_wf q'"
  using assms(2)
proof (induction cs arbitrary: q g)
  case Nil
  then show ?case by simp
next
  case (Cons c cs)
  obtain q1 g1 where "queue_exec shuf (q, g) c = Some (q1, g1)" "queue_wf q1"
    using exec_ok [OF assms(1) Cons.prems, of g c] by (auto simp: step_ok_def split: option.splits)
  then show ?case using Cons.IH [of q1 g1] by simp
qed

text \<open>The revisions along a run: with fewer commands than revisions left, the stamp the queue
  carries is below the counter, never decreases, and an unchanged stamp means unchanged contents
  and order.\<close>

definition rev_below :: "'rng queue \<times> u64 \<Rightarrow> bool" where
  "rev_below w \<longleftrightarrow> unat (q_rev (fst w)) < unat (snd w)"

lemma exec_rev:
  assumes "permuting shuf" "queue_wf q" "rev_below (q, g)" "unat g + 1 < 2 ^ 64"
    "queue_exec shuf (q, g) c = Some (q', g')"
  shows "queue_wf q'" "rev_below (q', g')" "unat g' \<le> unat g + 1" "unat (q_rev q) \<le> unat (q_rev q')"
    "q_rev q' = q_rev q \<Longrightarrow> q_songs q' = q_songs q \<and> q_order q' = q_order q"
proof -
  have inc: "unat (g + 1) = unat g + 1"
    using assms(4) by (simp add: unat_word_ariths)
  have "queue_wf q' \<and> (q_rev q' = q_rev q \<and> g' = g \<and> q_songs q' = q_songs q \<and> q_order q' = q_order q
      \<or> q_rev q' = g \<and> g' = g + 1)"
    using exec_ok [OF assms(1,2), of g c] assms(5) by (simp add: step_ok_def)
  then show "queue_wf q'" "rev_below (q', g')" "unat g' \<le> unat g + 1" "unat (q_rev q) \<le> unat (q_rev q')"
    "q_rev q' = q_rev q \<Longrightarrow> q_songs q' = q_songs q \<and> q_order q' = q_order q"
    using assms(3) inc by (auto simp: rev_below_def)
qed

lemma run_rev:
  assumes "permuting shuf"
  shows "queue_wf q \<Longrightarrow> rev_below (q, g) \<Longrightarrow> unat g + length cs < 2 ^ 64
    \<Longrightarrow> queue_run shuf (q, g) cs = Some (q', g')
    \<Longrightarrow> unat (q_rev q) \<le> unat (q_rev q')
      \<and> (q_rev q' = q_rev q \<longrightarrow> q_songs q' = q_songs q \<and> q_order q' = q_order q)"
proof (induction cs arbitrary: q g)
  case Nil
  then show ?case by simp
next
  case (Cons c cs)
  obtain q1 g1 where s: "queue_exec shuf (q, g) c = Some (q1, g1)" "queue_run shuf (q1, g1) cs = Some (q', g')"
    using Cons.prems(4) by (auto split: Option.bind_splits)
  have "unat g + 1 < 2 ^ 64" using Cons.prems(3) by simp
  note e = exec_rev [OF assms Cons.prems(1,2) this s(1)]
  have "unat g1 + length cs < 2 ^ 64" using e(3) Cons.prems(3) by simp
  note ih = Cons.IH [OF e(1,2) this s(2)]
  show ?case
  proof (intro conjI impI)
    show "unat (q_rev q) \<le> unat (q_rev q')" using ih e(4) by simp
    assume "q_rev q' = q_rev q"
    moreover from this have "q_rev q1 = q_rev q" using ih e(4) by (metis le_antisym word_unat_eq_iff)
    ultimately show "q_songs q' = q_songs q" "q_order q' = q_order q" using ih e(5) by auto
  qed
qed

section \<open>Selecting a playable track\<close>

text \<open>The cursors the search visits: from the plan's cursor to the end, then, when everything
  repeats, around from the start; at most one round.\<close>

definition search_path :: "'rng mutation_plan \<Rightarrow> nat \<Rightarrow> nat list" where
  "search_path p c = [c..<length (p_order p)] @ (if p_repeat p = RepeatAll then [0..<c] else [])"

definition plan_plays :: "'rng mutation_plan \<Rightarrow> song list" where
  "plan_plays p = map ((!) (p_songs p)) (p_order p)"


lemma first_playable_loop_path:
  assumes "path \<noteq> []" "successively (\<lambda>a b. plan_advance_cursor p a = Some b) path"
    "\<forall>c\<in>set path. plan_song_at_cursor p c = Some (f c)"
    "k = length path \<or> length path < k \<and> plan_advance_cursor p (last path) = None"
  shows "first_playable_loop k p ok (hd path) l =
    (case find (\<lambda>c. ok (f c)) path of Some c \<Rightarrow> Inl c | None \<Rightarrow> Inr (last path))"
  using assms
proof (induction path arbitrary: k l rule: induct_list012)
  case 1
  then show ?case by simp
next
  case (2 c)
  then obtain j where "k = Suc j" by (cases k) auto
  then show ?case using 2 by (cases j) (auto split: option.splits)
next
  case (3 c d path)
  then obtain j where j: "k = Suc j" by (cases k) auto
  have "first_playable_loop j p ok (hd (d # path)) c =
      (case find (\<lambda>c. ok (f c)) (d # path) of Some c \<Rightarrow> Inl c | None \<Rightarrow> Inr (last (d # path)))"
    using 3(4-6) j by (intro 3(2)) auto
  then show ?case using 3(4,5) j by (simp split: option.split)
qed

lemma search_path_successively:
  assumes "p_songs p \<noteq> []" "c < length (p_order p)"
  shows "successively (\<lambda>a b. plan_advance_cursor p a = Some b) (search_path p c)"
proof -
  have up: "successively (\<lambda>a b. plan_advance_cursor p a = Some b) [i..<j]" if "j \<le> length (p_order p)" for i j
    using that assms(1) by (auto simp: successively_conv_nth plan_advance_cursor_def)
  have "plan_advance_cursor p (length (p_order p) - 1) = Some 0" if "p_repeat p = RepeatAll"
    using that assms by (auto simp: plan_advance_cursor_def)
  then show ?thesis using assms(2) up [of c 0] up [of "length (p_order p)" c]
    by (cases "c = 0") (simp_all add: search_path_def successively_append_iff last_upt hd_upt del: upt_Suc)
qed

lemma select_first_playable_eq:
  assumes "is_perm (length (p_songs p)) (p_order p)" "p_cursor p < length (p_order p)"
  defines "path \<equiv> search_path p (p_cursor p)"
  shows "select_first_playable p ok = Some
    (case find (\<lambda>c. ok (plan_plays p ! c)) path of
       Some c \<Rightarrow> (LoadSelected, p\<lparr>p_cursor := c\<rparr>)
     | None \<Rightarrow> (StopPlayback, p\<lparr>p_cursor := last path\<rparr>))"
proof -
  let ?c = "p_cursor p" and ?n = "length (p_order p)"
  have n: "length (p_songs p) = ?n" using is_perm_length [OF assms(1)] by simp
  then have songs: "p_songs p \<noteq> []" using assms(2) by auto
  have path: "path \<noteq> []" "hd path = ?c" "set path \<subseteq> {..<?n}"
    using assms(2) by (auto simp: path_def search_path_def upt_conv_Cons simp del: upt_Suc)
  have at: "\<forall>c\<in>set path. plan_song_at_cursor p c = Some (plan_plays p ! c)"
    using path(3) is_perm_nth [OF assms(1)] n
    by (auto simp: plan_song_at_cursor_def plan_plays_def subset_iff)
  have len: "plan_len p = length path \<or> length path < plan_len p \<and> plan_advance_cursor p (last path) = None"
  proof (cases "p_repeat p = RepeatAll \<or> ?c = 0")
    case True
    then show ?thesis using assms(2) n by (auto simp: path_def search_path_def plan_len_def)
  next
    case False
    then show ?thesis using assms(2) n
      by (auto simp: path_def search_path_def plan_len_def plan_advance_cursor_def last_upt)
  qed
  have "first_playable_loop (plan_len p) p ok ?c ?c =
    (case find (\<lambda>c. ok (plan_plays p ! c)) path of Some c \<Rightarrow> Inl c | None \<Rightarrow> Inr (last path))"
    using first_playable_loop_path [OF path(1) search_path_successively [OF songs assms(2), folded path_def] at len]
    by (simp add: path(2))
  moreover have "c < ?n" if "find P path = Some c" for c P
    using that path(3) by (auto simp: find_Some_iff subset_iff)
  moreover have "last path < ?n" using path by (meson last_in_set lessThan_iff subsetD)
  ultimately show ?thesis
    by (auto simp: select_first_playable_def select_cursor_def split: option.splits)
qed


lemma nths_cut:
  assumes "lo \<le> hi" "hi < length xs"
  shows "nths xs (- {lo..<hi + 1}) = take lo xs @ drop (hi + 1) xs"
proof -
  obtain a b where ab: "xs = a @ b" "length a = hi + 1"
    using assms(2) by (metis Suc_eq_plus1 Suc_leI append_take_drop_id length_take min.absorb2)
  have "nths (a @ b) (- {lo..<hi + 1}) = nths a (- {lo..<hi + 1}) @ nths b {j. j + length a \<in> - {lo..<hi + 1}}"
    by (rule nths_append)
  moreover have "nths b {j. j + length a \<in> - {lo..<hi + 1}} = b" using ab(2) by (intro nths_all) simp
  moreover have "nths a (- {lo..<hi + 1}) = take lo a" using nths_tail [of lo a] assms(1) ab(2) by simp
  ultimately show ?thesis using assms ab by simp
qed

section \<open>Properties\<close>

text \<open>Concrete values the witnesses run on: three tracks, a queue that plays them in the order b, c, a
  with the cursor on c, and a shuffle that rotates.\<close>

definition demo_song :: "nat \<Rightarrow> song" where
  "demo_song n = (song_remote [n] [n] [] [])\<lparr>video_id := [n]\<rparr>"

definition demo_queue :: "unit queue" where
  "demo_queue = \<lparr>q_songs = [demo_song 97, demo_song 98, demo_song 99], q_order = [1, 2, 0], q_cursor = 1,
     q_shuffle = False, q_repeat = RepeatAll, q_rev = 4, q_rng = ()\<rparr>"

definition rotating :: "unit shuffler" where
  "rotating r xs = (rotate1 xs, r)"

lemma rotating_permuting: "permuting rotating"
proof -
  have "mset (rotate1 xs) = mset xs" for xs :: "nat list" by (cases xs) simp_all
  then show ?thesis by (simp add: permuting_def rotating_def)
qed

lemma demo_song_eq [simp]: "demo_song m = demo_song n \<longleftrightarrow> m = n"
  by (auto simp: demo_song_def song_remote_def)

lemma demo_queue_wf: "queue_wf demo_queue"
  by (auto simp: demo_queue_def queue_wf_def is_perm_def MAX_QUEUE_LEN_def)

lemma demo_queue_fields [simp]:
  "plays demo_queue = [demo_song 98, demo_song 99, demo_song 97]" "q_cursor demo_queue = 1"
  "q_order demo_queue = [1, 2, 0]" "q_repeat demo_queue = RepeatAll" "q_rev demo_queue = 4"
  "length (q_songs demo_queue) = 3" "q_shuffle demo_queue = False"
  by (simp_all add: demo_queue_def plays_def)

text \<open>C1. From the empty queue, any sequence of owner commands runs without a panic and leaves a
  well-formed queue: the play order is a permutation of the song indices, at most 999 songs are
  held, and the cursor stands on a track unless the queue is empty.  The shuffle may be any
  generator that permutes.\<close>

theorem queue_commands_safe:
  assumes "permuting shuf"
  shows "\<exists>q g'. queue_run shuf (queue_default rng g) cs = Some (q, g') \<and> queue_wf q"
proof -
  have "queue_wf (fst (queue_default rng g))"
    by (simp add: queue_default_def next_queue_rev_def queue_wf_def is_perm_def)
  then show ?thesis using run_ok [OF assms, of "fst (queue_default rng g)" "snd (queue_default rng g)" cs] by simp
qed

theorem queue_commands_safe_witness:
  "\<exists>q g. queue_run rotating (queue_default () 0)
     [Extend [demo_song 97, demo_song 98, demo_song 99], SetShuffle True, Next False, RemoveAt 1, MoveItem 0 1,
      Purge (\<lambda>s. s = demo_song 97)] = Some (q, g) \<and> queue_wf q"
  by (rule queue_commands_safe [OF rotating_permuting])

text \<open>Removing a queue position takes exactly that track out of the play order, keeps every other
  track in place and in order, reports whether it was the current one, and keeps the cursor on the
  current track when another one was removed.\<close>

theorem remove_at_plays:
  assumes "queue_wf q" "pos < length (q_order q)"
  shows "\<exists>q' g'. remove_at q g pos = Some (Some (pos = q_cursor q), q', g') \<and> queue_wf q'
    \<and> plays q' = take pos (plays q) @ drop (Suc pos) (plays q)
    \<and> (pos \<noteq> q_cursor q \<longrightarrow> current q' = current q)"
proof -
  let ?r = "removed q pos" and ?c = "q_cursor q"
  have c: "?c < length (q_order q)" using assms by (auto simp: queue_wf_def split: if_splits)
  have cur: "current ?r = current q" if "pos \<noteq> ?c"
  proof -
    have "q_cursor ?r = (if pos < ?c then ?c - 1 else ?c)" "q_cursor ?r < length (plays q) - 1"
      using that assms(2) c by (auto simp: removed_cursor)
    then have "drop_at pos (plays q) ! q_cursor ?r = plays q ! ?c" using that assms(2) c
      by (auto simp: nth_drop_at)
    then show ?thesis using removed_wf [OF assms] \<open>q_cursor ?r < length (plays q) - 1\<close> assms c
      by (simp add: current_plays removed_plays)
  qed
  then show ?thesis using assms removed_wf [OF assms] removed_plays [OF assms]
    by (simp add: remove_at_def remove_at_eq bump_rev_eq current_plays drop_at_def)
qed

theorem remove_at_plays_witness:
  "\<exists>q g. remove_at demo_queue 5 0 = Some (Some False, q, g) \<and> plays q = [demo_song 99, demo_song 97]
     \<and> current q = current demo_queue"
  using remove_at_plays [OF demo_queue_wf, of 0 5] by auto

text \<open>Moving a queue row inserts it at its new place, keeps all other tracks in their relative
  order, and keeps the cursor on the current track.\<close>

theorem move_item_plays:
  assumes "queue_wf q" "from < length (q_order q)" "to < length (q_order q)"
  shows "\<exists>q' g'. move_item q g from to = Some (Some (), q', g') \<and> queue_wf q'
    \<and> plays q' = move_list from to (plays q) \<and> current q' = current q"
proof (cases "from = to")
  case True
  have "drop_at to xs = take to xs @ drop (Suc to) xs" for xs :: "song list" by (simp add: drop_at_def)
  moreover have "plays q = take to (plays q) @ plays q ! to # drop (Suc to) (plays q)"
    using assms(3) by (intro id_take_nth_drop) simp
  moreover have "length (take to (plays q)) = to" using assms(3) by simp
  ultimately have "move_list to to (plays q) = plays q"
    by (simp add: move_list_def Let_def)
  then show ?thesis using True assms by (simp add: move_item_eq)
next
  case False
  let ?m = "moved q from to"
  have c: "q_cursor q < length (q_order q)" using assms by (auto simp: queue_wf_def split: if_splits)
  have wf: "queue_wf ?m" using assms by (rule moved_wf)
  have len: "length (q_order ?m) = length (q_order q)"
    using arg_cong [OF moved_plays [OF assms(2), of to], of length] length_move_list [of "from" "plays q" to] assms(2)
    by simp
  have "q_cursor ?m < length (q_order ?m)" using wf assms(2) len by (auto simp: queue_wf_def split: if_splits)
  moreover have "q_order ?m ! q_cursor ?m = q_order q ! q_cursor q"
    using assms(2,3) False c by (rule moved_current)
  moreover have "q_songs ?m = q_songs q" by (simp add: moved_def)
  ultimately have "current ?m = current q" using c by (simp add: current_def song_at_cursor_def)
  moreover have "current (?m\<lparr>q_rev := g\<rparr>) = current ?m" by (simp add: current_def song_at_cursor_def)
  ultimately show ?thesis using False assms wf moved_plays [OF assms(2), of to]
    by (simp add: move_item_eq bump_rev_eq)
qed

theorem move_item_plays_witness:
  "\<exists>q g. move_item demo_queue 5 1 2 = Some (Some (), q, g) \<and> plays q = [demo_song 98, demo_song 97, demo_song 99]
     \<and> current q = current demo_queue"
  using move_item_plays [OF demo_queue_wf, of 1 2 5] by (auto simp: move_list_def drop_at_def)

text \<open>Play-now inserts as many of the given tracks as the cap allows right after the current one,
  as one block in order, and puts the cursor on the first of them; nothing else moves.  When nothing
  fits the queue is unchanged.\<close>

theorem play_now_many_plays:
  assumes "queue_wf q" "ss = take (MAX_QUEUE_LEN - length (q_songs q)) extra"
  shows "\<exists>q' g'. play_now_many q g extra = Some (length ss, q', g') \<and> queue_wf q'
    \<and> (if ss = [] then q' = q else current q' = Some (hd ss)
        \<and> plays q' = take (q_cursor q + 1) (plays q) @ ss @ drop (q_cursor q + 1) (plays q))"
proof (cases "ss = []")
  case True
  then show ?thesis using assms
    by (auto simp: play_now_many_def play_now_many_without_revision_eq Let_def)
next
  case False
  have cap: "length (q_songs q) + length ss \<le> MAX_QUEUE_LEN"
    using assms by (auto simp: queue_wf_def)
  let ?c = "if q_order q = [] then 0 else q_cursor q + 1"
  let ?q = "(inserted q ss)\<lparr>q_cursor := ?c\<rparr>"
  have wf: "queue_wf ?q" using inserted_cursor_wf [OF assms(1) cap False] .
  have plays: "plays ?q = take (q_cursor q + 1) (plays q) @ ss @ drop (q_cursor q + 1) (plays q)"
    using inserted_spec(2) [OF assms(1) cap] by simp
  have "?c = length (take (q_cursor q + 1) (plays q))" using wf_at_le [OF assms(1)] by auto
  then have "vec_get (plays ?q) ?c = Some (hd ss)" using False unfolding plays
    by (simp add: vec_get_def nth_append hd_conv_nth del: length_take)
  moreover have "current (?q\<lparr>q_rev := g\<rparr>) = vec_get (plays ?q) ?c"
    using current_plays [of "?q\<lparr>q_rev := g\<rparr>"] wf by simp
  ultimately have "current (?q\<lparr>q_rev := g\<rparr>) = Some (hd ss)" by simp
  moreover have "play_now_many q g extra = Some (length ss, bump_rev ?q g)"
    using assms(1) False by (simp add: play_now_many_def play_now_many_without_revision_eq Let_def flip: assms(2))
  ultimately show ?thesis using False wf plays by (simp add: bump_rev_eq)
qed

theorem play_now_many_plays_witness:
  "\<exists>q g. play_now_many demo_queue 5 [demo_song 100, demo_song 101] = Some (2, q, g)
     \<and> plays q = [demo_song 98, demo_song 99, demo_song 100, demo_song 101, demo_song 97]
     \<and> current q = Some (demo_song 100)"
  using play_now_many_plays [OF demo_queue_wf refl, where g = 5 and extra = "[demo_song 100, demo_song 101]"]
  by (auto simp: MAX_QUEUE_LEN_def)

text \<open>Insert-next puts the tracks that fit right after the current one and leaves the current track
  where it is.\<close>

theorem insert_next_many_plays:
  assumes "queue_wf q" "ss = take (MAX_QUEUE_LEN - length (q_songs q)) extra" "ss \<noteq> []"
  shows "\<exists>q' g'. insert_next_many q g extra = Some (length ss, q', g') \<and> queue_wf q'
    \<and> plays q' = take (q_cursor q + 1) (plays q) @ ss @ drop (q_cursor q + 1) (plays q)
    \<and> (q_order q \<noteq> [] \<longrightarrow> current q' = current q)"
proof -
  have cap: "length (q_songs q) + length ss \<le> MAX_QUEUE_LEN" using assms by (auto simp: queue_wf_def)
  note s = inserted_spec [OF assms(1) cap]
  have "current ((inserted q ss)\<lparr>q_rev := g\<rparr>) = current q" if "q_order q \<noteq> []"
    using current_plays [of "(inserted q ss)\<lparr>q_rev := g\<rparr>"] current_plays [OF assms(1)] s wf_at_le [OF assms(1) that]
    by (simp add: vec_get_def nth_append)
  then show ?thesis using assms(1,3) s
    by (simp add: insert_next_many_eq Let_def bump_rev_eq flip: assms(2))
qed

theorem insert_next_many_plays_witness:
  "\<exists>q g. insert_next_many demo_queue 5 [demo_song 100] = Some (1, q, g)
     \<and> plays q = [demo_song 98, demo_song 99, demo_song 100, demo_song 97] \<and> current q = current demo_queue"
  using insert_next_many_plays [OF demo_queue_wf refl, where g = 5 and extra = "[demo_song 100]"]
  by (auto simp: MAX_QUEUE_LEN_def)

text \<open>Clearing what is coming up keeps the tracks up to and including the current one, in order,
  with the cursor where it was, and reports how many tracks it dropped.\<close>

theorem clear_upcoming_plays:
  assumes "queue_wf q"
  shows "\<exists>q' g'. clear_upcoming q g = Some (remaining q, q', g') \<and> queue_wf q'
    \<and> plays q' = take (q_cursor q + 1) (plays q) \<and> q_cursor q' = q_cursor q"
  using assms by (rule clear_upcoming_spec)

theorem clear_upcoming_plays_witness:
  "\<exists>q g. clear_upcoming demo_queue 5 = Some (1, q, g) \<and> plays q = [demo_song 98, demo_song 99]"
  using clear_upcoming_plays [OF demo_queue_wf, of 5] by (auto simp: remaining_def)

text \<open>Toggling the shuffle keeps the songs and the current track; switched off, the play order is
  the insertion order again.\<close>

theorem set_shuffle_keeps_current:
  assumes "permuting shuf" "queue_wf q" "set_shuffle shuf q g b = (q', g')"
  shows "queue_wf q' \<and> q_songs q' = q_songs q \<and> current q' = current q \<and> q_shuffle q' = b
    \<and> (q_shuffle q \<and> \<not> b \<longrightarrow> plays q' = q_songs q)"
proof -
  obtain ch q1 where s: "set_shuffle_without_revision shuf q b = (ch, q1)" by fastforce
  note r = set_shuffle_without_revision_spec [OF assms(1,2) s]
  have q': "q' = (if ch then q1\<lparr>q_rev := g\<rparr> else q1)"
    using assms(3) s by (auto simp: set_shuffle_def bump_rev_eq split: if_splits)
  have cur: "current (x\<lparr>q_rev := g\<rparr>) = current x" for x :: "'a queue"
    by (simp add: current_def song_at_cursor_def)
  have "plays q1 = q_songs q" if "q_shuffle q \<and> \<not> b"
  proof (cases "q_order q = []")
    case True
    then have "q_songs q1 = []" using wf_order_empty [OF assms(2)] r(2) by simp
    then show ?thesis using r(2) wf_order_empty [OF r(1)] by (simp add: plays_def)
  next
    case False
    then have "q_cursor q < length (q_order q)" using assms(2) by (simp add: queue_wf_def)
    then have "q1 = rebuild_order shuf (q\<lparr>q_shuffle := b\<rparr>) (q_order q ! q_cursor q)"
      using s that by (auto simp: set_shuffle_without_revision_def Let_def)
    then show ?thesis using that rebuild_order_natural [of "q\<lparr>q_shuffle := b\<rparr>" shuf] by simp
  qed
  then show ?thesis using r q' cur by auto
qed

theorem set_shuffle_keeps_current_witness:
  "current (fst (set_shuffle rotating demo_queue 5 True)) = Some (demo_song 99)"
  using set_shuffle_keeps_current [OF rotating_permuting demo_queue_wf, of 5 True] current_plays [OF demo_queue_wf]
  by (cases "set_shuffle rotating demo_queue 5 True") auto




text \<open>C37. A queue revision identifies the queue's contents: along any run of commands (while fewer than
  2^64 revisions are minted) the stamp never goes back, and a queue whose stamp has not changed has
  the same songs in the same order.\<close>

theorem revision_identifies_contents:
  assumes "permuting shuf" "queue_wf q" "unat (q_rev q) < unat g" "unat g + length cs < 2 ^ 64"
    "queue_run shuf (q, g) cs = Some (q', g')"
  shows "q_rev q \<le> q_rev q' \<and> (q_rev q' = q_rev q \<longrightarrow> q_songs q' = q_songs q \<and> q_order q' = q_order q)"
  using run_rev [OF assms(1,2) _ assms(4,5)] assms(3) by (simp add: rev_below_def word_le_nat_alt)

theorem revision_identifies_contents_witness:
  "\<exists>q g. queue_run rotating (demo_queue, 5) [Next False, Goto 7] = Some (q, g)
     \<and> (q_rev q = 4 \<longrightarrow> q_order q = [1, 2, 0])"
proof -
  obtain q g where r: "queue_run rotating (demo_queue, 5) [Next False, Goto 7] = Some (q, g)"
    using run_ok [OF rotating_permuting demo_queue_wf] by blast
  show ?thesis using r revision_identifies_contents [OF rotating_permuting demo_queue_wf _ _ r] by simp
qed



text \<open>Purging the tracks a predicate rejects prepares a queue that plays exactly the other tracks in
  their order; playback stays on the current track if it survives, else moves to the first survivor
  after it (or, when everything repeats, to the first survivor of all), and stops only when there is
  none.  A purge that rejects nothing prepares nothing.\<close>

theorem purge_keeps_survivors:
  fixes reject :: "song \<Rightarrow> bool" and q :: "'rng queue"
  assumes "queue_wf q" "filter reject (plays q) \<noteq> []"
  defines "keep \<equiv> \<lambda>s. \<not> reject s"
  defines "later \<equiv> filter keep (drop (q_cursor q + 1) (plays q))"
  shows "\<exists>s out. prepare_purge q reject = Some (Some (mutation_plan_of q s, out)) \<and> queue_wf s
    \<and> plays s = filter keep (plays q) \<and> removed_count out = length (filter reject (plays q))
    \<and> playback out = (if keep (plays q ! q_cursor q) then Unchanged
         else if later \<noteq> [] \<or> filter keep (plays q) \<noteq> [] \<and> q_repeat q = RepeatAll then LoadSelected
         else StopPlayback)
    \<and> (keep (plays q ! q_cursor q) \<longrightarrow> current s = current q)
    \<and> (playback out = LoadSelected \<longrightarrow>
         current s = Some (if later \<noteq> [] then hd later else hd (filter keep (plays q))))"
proof -
  have ne: "q_order q \<noteq> []" using assms(2) by (metis filter.simps(1) plays_Nil_iff)
  let ?ms = "purge_matches q reject" and ?c = "q_cursor q"
  let ?r = "foldl removed q (rev ?ms)"
  let ?s = "select_in (snd (purge_selection q ?ms)) ?r"
  note eq = prepare_purge_eq [OF assms(1,2)]
  note sel = purge_selection_eq [OF assms(1) ne, of reject, folded keep_def, folded later_def]
  have surv: "survivors q reject = filter keep (plays q)" by (simp add: survivors_def keep_def)
  have cur: "current ?s = vec_get (filter keep (plays q)) (q_cursor ?s)"
    using current_plays [OF eq(2)] eq(3) surv by simp
  have c: "?c < length (plays q)" using wf_at_le [OF assms(1) ne] by simp
  have kept: "current ?s = current q" if k: "keep (plays q ! ?c)"
  proof -
    have "?c \<notin> set ?ms" using k assms(1) by (simp add: set_purge_matches keep_def)
    then have "q_cursor ?s = new_position q reject ?c"
      using purge_removal(4) [OF assms(1) _ ne, of reject] sel(1) k by (simp add: select_in_def keep_def)
    then show ?thesis using new_position_survivor [of ?c q reject] k c cur current_plays [OF assms(1)]
      by (simp add: surv keep_def)
  qed
  have load: "current ?s = Some (if later \<noteq> [] then hd later else hd (filter keep (plays q)))"
    if "fst (purge_selection q ?ms) = LoadSelected"
    using that sel cur by (auto simp: surv select_in_def hd_conv_nth split: if_splits)
  have pb: "fst (purge_selection q ?ms) = (if keep (plays q ! ?c) then Unchanged
         else if later \<noteq> [] \<or> filter keep (plays q) \<noteq> [] \<and> q_repeat q = RepeatAll then LoadSelected
         else StopPlayback)"
    unfolding sel(1) surv by (simp add: keep_def)
  let ?out = "\<lparr>removed_count = length ?ms, popup_cursor = min (hd ?ms) (length (q_order ?s) - 1),
       playback = fst (purge_selection q ?ms)\<rparr>"
  have out: "removed_count ?out = length (filter reject (plays q))" "playback ?out = fst (purge_selection q ?ms)"
    by (simp_all add: eq(4))
  have plays: "plays ?s = filter keep (plays q)" using eq(3) surv by simp
  show ?thesis
    by (rule exI [of _ ?s], rule exI [of _ ?out], unfold out)
      (intro conjI impI eq(1,2) plays refl pb kept load; assumption)
qed

theorem purge_keeps_survivors_witness:
  "\<exists>s out. prepare_purge demo_queue (\<lambda>s. s = demo_song 99) = Some (Some (mutation_plan_of demo_queue s, out))
     \<and> plays s = [demo_song 98, demo_song 97] \<and> current s = Some (demo_song 97) \<and> playback out = LoadSelected"
  using purge_keeps_survivors [OF demo_queue_wf, of "\<lambda>s. s = demo_song 99"] by auto

text \<open>Removing a range of rows removes exactly the rows from the lower to the upper bound, both
  clamped to the queue; playback is unchanged when the current row is outside the range, and when
  playback moves it is to the first row after the range or, repeating, to the first row.\<close>

theorem remove_range_rows:
  fixes q :: "'rng queue"
  assumes "queue_wf q" "q_order q \<noteq> []" "a \<le> b"
  defines "lo \<equiv> min a (length (q_order q) - 1)" and "hi \<equiv> min b (length (q_order q) - 1)"
  shows "\<exists>s out. prepare_remove_range q a b = Some (Some (mutation_plan_of q s, out)) \<and> queue_wf s
    \<and> plays s = take lo (plays q) @ drop (hi + 1) (plays q) \<and> removed_count out = hi - lo + 1
    \<and> (playback out = Unchanged \<longleftrightarrow> \<not> (lo \<le> q_cursor q \<and> q_cursor q \<le> hi))
    \<and> (playback out = LoadSelected \<longrightarrow>
         current s = Some (if hi + 1 < length (plays q) then plays q ! (hi + 1) else plays q ! 0))"
proof -
  let ?s = "select_in (snd (range_selection q lo hi)) (foldl removed q (rev [lo..<hi + 1]))"
  have "length (q_order q) > 0" using assms(2) by simp
  then have b: "lo \<le> hi" "hi < length (q_order q)" using assms(3) unfolding lo_def hi_def by linarith+
  note eq = prepare_remove_range_eq [OF assms(1-3) lo_def [THEN meta_eq_to_obj_eq] hi_def [THEN meta_eq_to_obj_eq]]
  have plays: "plays ?s = take lo (plays q) @ drop (hi + 1) (plays q)" using eq(3) nths_cut [of lo hi "plays q"] b by simp
  have cur: "current ?s = vec_get (plays ?s) (q_cursor ?s)" using current_plays [OF eq(2)] .
  have load: "current ?s = Some (if hi + 1 < length (plays q) then plays q ! (hi + 1) else plays q ! 0)"
    if "fst (range_selection q lo hi) = LoadSelected"
  proof -
    have sel: "range_selection q lo hi = (LoadSelected, Some (if hi + 1 < length (plays q) then lo else 0))"
      "hi + 1 < length (plays q) \<or> hi - lo + 1 < length (q_order q)"
      using that by (auto simp: range_selection_def split: if_splits)
    then have "q_cursor ?s = (if hi + 1 < length (plays q) then lo else 0)" by (simp add: select_in_def)
    moreover have "hi + 1 < length (plays q) \<or> 0 < lo" using sel(2) b by auto
    ultimately show ?thesis using b unfolding cur plays by (auto simp: vec_get_def nth_append)
  qed
  have unch: "fst (range_selection q lo hi) = Unchanged \<longleftrightarrow> \<not> (lo \<le> q_cursor q \<and> q_cursor q \<le> hi)"
    by (simp add: range_selection_def)
  let ?out = "\<lparr>removed_count = hi - lo + 1, popup_cursor = min lo (length (q_order ?s) - 1),
       playback = fst (range_selection q lo hi)\<rparr>"
  have out: "removed_count ?out = hi - lo + 1" "playback ?out = fst (range_selection q lo hi)" by simp_all
  show ?thesis
    by (rule exI [of _ ?s], rule exI [of _ ?out], unfold out)
      (intro conjI impI eq(1,2) plays refl unch load; assumption)
qed

theorem remove_range_rows_witness:
  "\<exists>s out. prepare_remove_range demo_queue 1 8 = Some (Some (mutation_plan_of demo_queue s, out))
     \<and> plays s = [demo_song 98] \<and> removed_count out = 2"
  using remove_range_rows [OF demo_queue_wf, of 1 8] by auto

text \<open>Choosing the track to play in a prepared plan looks at the plan's own track, then at every
  later one and, when everything repeats, at the ones before it, each once; it selects the first
  playable one, and stops on the last one looked at when none is.  The search always ends within one
  round and never leaves the queue.\<close>

theorem select_first_playable_searches:
  assumes "is_perm (length (p_songs p)) (p_order p)" "p_cursor p < length (p_order p)"
  defines "path \<equiv> [p_cursor p..<length (p_order p)] @ (if p_repeat p = RepeatAll then [0..<p_cursor p] else [])"
  shows "select_first_playable p ok = Some
    (case find (\<lambda>c. ok (plan_plays p ! c)) path of
       Some c \<Rightarrow> (LoadSelected, p\<lparr>p_cursor := c\<rparr>)
     | None \<Rightarrow> (StopPlayback, p\<lparr>p_cursor := last path\<rparr>))"
  using select_first_playable_eq [OF assms(1,2), of ok] unfolding path_def search_path_def .

theorem select_first_playable_searches_witness:
  "\<exists>p. select_first_playable (mutation_plan_of demo_queue demo_queue) (\<lambda>s. s = demo_song 98) = Some (LoadSelected, p)
     \<and> p_cursor p = 0"
  using select_first_playable_searches [of "mutation_plan_of demo_queue demo_queue" "\<lambda>s. s = demo_song 98"] demo_queue_wf
  by (simp add: mutation_plan_of_def queue_wf_def upt_rec plan_plays_def demo_queue_def)

end
