(* ===== verification/EventPolicy.thy ===== *)
theory EventPolicy
  imports Prelude "HOL-Library.AList"
begin

text \<open>
  \<open>src/util/event_policy.rs\<close> and \<open>src/owner_event_policy.rs\<close>: the delivery policy of each event
  of the owner loop, and the bounded latest-value store that coalesces events by key.

  The two hash maps of the store are association lists with distinct keys; the code never iterates
  over them (the order of draining is kept in the deque \<open>order\<close>), so their order is immaterial.
\<close>

section \<open>Policies\<close>

datatype event_lane = Control | RemoteCommand | WorkResult | Telemetry

datatype latest_event_class = Protected | StaleResult | TelemetryClass

datatype event_key =
    AiThinking | AiWork | ArtResize | ArtworkVideo | DownloadProgress
  | DownloadResult | LyricsVideo | LocalScanProgress | MediaArtVideo | MouseMove
  | PlayerAudioDevice | PlayerAudioDeviceList | PlayerAudioCodec | PlayerCacheTime | PlayerChapters
  | PlayerCurrentAudioOutput | PlayerDuration | PlayerFileFormat | PlayerMetadata | PlayerPaused
  | PlayerSeekable | PlayerBuffering | PlayerEof | PlayerError | PlayerTransportClosed
  | PlayerTimePos | PlayerVolume | PlaylistIntent | ResolverVideo | ScrobbleAuthDone
  | ScrobbleAuthFailed | ScrobbleAuthUrl | ScrobbleQueueDropped | ScrobbleQueueStalled | ScrobbleSessionInvalid
  | SearchRequest | Signal | StreamingSeed | ToolProgress | ToolResult
  | TransferAuth | TransferJob | UpdateCheck | VideoOverlayGeneration | VideoOverlayFailure
  | VideoOverlayPaused | YtdlpHealVideo

datatype event_policy =
    MustDeliver event_lane | MustReplyOrBusy event_lane | CoalesceLatest event_lane event_key
  | DropIfStale event_key | BestEffort string

fun policy_name :: "event_policy \<Rightarrow> string" where
  "policy_name (MustDeliver lane) = ''must_deliver''"
| "policy_name (MustReplyOrBusy lane) = ''must_reply_or_busy''"
| "policy_name (CoalesceLatest lane key) = ''coalesce_latest''"
| "policy_name (DropIfStale key) = ''drop_if_stale''"
| "policy_name (BestEffort reason) = ''best_effort''"

fun policy_lane :: "event_policy \<Rightarrow> event_lane option" where
  "policy_lane (MustDeliver lane) = Some lane"
| "policy_lane (MustReplyOrBusy lane) = Some lane"
| "policy_lane (CoalesceLatest lane key) = Some lane"
| "policy_lane (DropIfStale key) = None"
| "policy_lane (BestEffort reason) = None"

fun policy_key :: "event_policy \<Rightarrow> event_key option" where
  "policy_key (CoalesceLatest lane key) = Some key"
| "policy_key (DropIfStale stale_key) = Some stale_key"
| "policy_key (MustDeliver lane) = None"
| "policy_key (MustReplyOrBusy lane) = None"
| "policy_key (BestEffort reason) = None"

fun lane_name :: "event_lane \<Rightarrow> string" where
  "lane_name Control = ''control''"
| "lane_name RemoteCommand = ''remote_command''"
| "lane_name WorkResult = ''work_result''"
| "lane_name Telemetry = ''telemetry''"

fun key_name :: "event_key \<Rightarrow> string" where
  "key_name AiThinking = ''ai.thinking''"
| "key_name AiWork = ''ai.work''"
| "key_name ArtResize = ''art.resize''"
| "key_name ArtworkVideo = ''artwork.video''"
| "key_name DownloadProgress = ''download.progress''"
| "key_name DownloadResult = ''download.result''"
| "key_name LyricsVideo = ''lyrics.video''"
| "key_name LocalScanProgress = ''local.scan.progress''"
| "key_name MediaArtVideo = ''media_art.video''"
| "key_name MouseMove = ''mouse.move''"
| "key_name PlayerAudioDevice = ''player.audio_device''"
| "key_name PlayerAudioDeviceList = ''player.audio_device_list''"
| "key_name PlayerAudioCodec = ''player.audio_codec''"
| "key_name PlayerCacheTime = ''player.cache_time''"
| "key_name PlayerChapters = ''player.chapters''"
| "key_name PlayerCurrentAudioOutput = ''player.current_audio_output''"
| "key_name PlayerDuration = ''player.duration''"
| "key_name PlayerFileFormat = ''player.file_format''"
| "key_name PlayerMetadata = ''player.metadata''"
| "key_name PlayerPaused = ''player.paused''"
| "key_name PlayerSeekable = ''player.seekable''"
| "key_name PlayerBuffering = ''player.buffering''"
| "key_name PlayerEof = ''player.eof''"
| "key_name PlayerError = ''player.error''"
| "key_name PlayerTransportClosed = ''player.transport_closed''"
| "key_name PlayerTimePos = ''player.time_pos''"
| "key_name PlayerVolume = ''player.volume''"
| "key_name PlaylistIntent = ''playlist.intent''"
| "key_name ResolverVideo = ''resolver.video''"
| "key_name ScrobbleAuthDone = ''scrobble.auth.done''"
| "key_name ScrobbleAuthFailed = ''scrobble.auth.failed''"
| "key_name ScrobbleAuthUrl = ''scrobble.auth.url''"
| "key_name ScrobbleQueueDropped = ''scrobble.queue.dropped''"
| "key_name ScrobbleQueueStalled = ''scrobble.queue.stalled''"
| "key_name ScrobbleSessionInvalid = ''scrobble.session.invalid''"
| "key_name SearchRequest = ''search.request''"
| "key_name Signal = ''signal''"
| "key_name StreamingSeed = ''streaming.seed''"
| "key_name ToolProgress = ''tool.progress''"
| "key_name ToolResult = ''tool.result''"
| "key_name TransferAuth = ''transfer.auth''"
| "key_name TransferJob = ''transfer.job''"
| "key_name UpdateCheck = ''update.check''"
| "key_name VideoOverlayGeneration = ''video.overlay.generation''"
| "key_name VideoOverlayFailure = ''video.overlay.failure''"
| "key_name VideoOverlayPaused = ''video.overlay.paused''"
| "key_name YtdlpHealVideo = ''ytdlp.heal.video''"

section \<open>Policies of the shared event domains\<close>

text \<open>The policy functions look only at the variant of an event, so the events are modelled by their
  variants, without payloads.\<close>

datatype remote_event =
    EvRemoteCommand | EvRemoteSessionCommand | EvRemoteSessionSubscribe

fun remote_event_policy :: "remote_event \<Rightarrow> event_policy" where
  "remote_event_policy EvRemoteCommand = MustReplyOrBusy RemoteCommand"
| "remote_event_policy EvRemoteSessionCommand = MustReplyOrBusy RemoteCommand"
| "remote_event_policy EvRemoteSessionSubscribe = MustReplyOrBusy RemoteCommand"

datatype player_event =
    EvPlayerTimePos | EvPlayerDuration | EvPlayerPaused | EvPlayerSeekable | EvPlayerBuffering
  | EvPlayerVolume | EvPlayerMetadata | EvPlayerCacheTime | EvPlayerAudioCodec | EvPlayerFileFormat
  | EvPlayerChapters | EvPlayerAudioDeviceList | EvPlayerAudioDeviceRefreshFailed | EvPlayerAudioDeviceSelectionResult | EvPlayerEof
  | EvPlayerError | EvPlayerTransportClosed | EvPlayerCacheEmergency | EvPlayerCacheReplacementEmergency | EvPlayerOverlapUnavailable
  | EvPlayerAudioDeviceChanged | EvPlayerCurrentAudioOutput | EvPlayerFileScoped

fun player_event_policy :: "player_event \<Rightarrow> event_policy run" where
  "player_event_policy EvPlayerTimePos = Some (CoalesceLatest Telemetry PlayerTimePos)"
| "player_event_policy EvPlayerDuration = Some (CoalesceLatest Telemetry PlayerDuration)"
| "player_event_policy EvPlayerPaused = Some (CoalesceLatest Telemetry PlayerPaused)"
| "player_event_policy EvPlayerSeekable = Some (CoalesceLatest Telemetry PlayerSeekable)"
| "player_event_policy EvPlayerBuffering = Some (CoalesceLatest Telemetry PlayerBuffering)"
| "player_event_policy EvPlayerVolume = Some (CoalesceLatest Telemetry PlayerVolume)"
| "player_event_policy EvPlayerMetadata = Some (CoalesceLatest WorkResult PlayerMetadata)"
| "player_event_policy EvPlayerCacheTime = Some (CoalesceLatest Telemetry PlayerCacheTime)"
| "player_event_policy EvPlayerAudioCodec = Some (CoalesceLatest Telemetry PlayerAudioCodec)"
| "player_event_policy EvPlayerFileFormat = Some (CoalesceLatest Telemetry PlayerFileFormat)"
| "player_event_policy EvPlayerChapters = Some (CoalesceLatest Telemetry PlayerChapters)"
| "player_event_policy EvPlayerAudioDeviceList = Some (CoalesceLatest Telemetry PlayerAudioDeviceList)"
| "player_event_policy EvPlayerAudioDeviceRefreshFailed = Some (MustDeliver Control)"
| "player_event_policy EvPlayerAudioDeviceSelectionResult = Some (MustDeliver Control)"
| "player_event_policy EvPlayerEof = Some (MustDeliver Control)"
| "player_event_policy EvPlayerError = Some (MustDeliver Control)"
| "player_event_policy EvPlayerTransportClosed = Some (MustDeliver Control)"
| "player_event_policy EvPlayerCacheEmergency = Some (MustDeliver Control)"
| "player_event_policy EvPlayerCacheReplacementEmergency = Some (MustDeliver Control)"
| "player_event_policy EvPlayerOverlapUnavailable = Some (MustDeliver Control)"
| "player_event_policy EvPlayerAudioDeviceChanged = Some (CoalesceLatest Telemetry PlayerAudioDevice)"
| "player_event_policy EvPlayerCurrentAudioOutput = Some (CoalesceLatest Telemetry PlayerCurrentAudioOutput)"
| "player_event_policy EvPlayerFileScoped = None"

datatype api_event =
    EvApiModeResolved | EvApiTrackResolved | EvApiPlaylistTracks | EvApiPlaylistTracksError | EvApiArtistPage
  | EvApiArtistPageError | EvApiSearchResults | EvApiSearchError | EvApiStreamingResults | EvApiStreamingPreflighted
  | EvApiStreamingError

fun api_event_policy :: "api_event \<Rightarrow> event_policy" where
  "api_event_policy EvApiModeResolved = MustDeliver WorkResult"
| "api_event_policy EvApiTrackResolved = MustDeliver WorkResult"
| "api_event_policy EvApiPlaylistTracks = MustDeliver WorkResult"
| "api_event_policy EvApiPlaylistTracksError = MustDeliver WorkResult"
| "api_event_policy EvApiArtistPage = MustDeliver WorkResult"
| "api_event_policy EvApiArtistPageError = MustDeliver WorkResult"
| "api_event_policy EvApiSearchResults = DropIfStale SearchRequest"
| "api_event_policy EvApiSearchError = DropIfStale SearchRequest"
| "api_event_policy EvApiStreamingResults = DropIfStale StreamingSeed"
| "api_event_policy EvApiStreamingPreflighted = DropIfStale StreamingSeed"
| "api_event_policy EvApiStreamingError = DropIfStale StreamingSeed"

datatype download_event =
    EvDownloadProgress | EvDownloadImportProgress | EvDownloadDone | EvDownloadImportDone | EvDownloadError
  | EvDownloadImportError

fun download_event_policy :: "download_event \<Rightarrow> event_policy" where
  "download_event_policy EvDownloadProgress = CoalesceLatest Telemetry DownloadProgress"
| "download_event_policy EvDownloadImportProgress = CoalesceLatest Telemetry DownloadProgress"
| "download_event_policy EvDownloadDone = MustDeliver WorkResult"
| "download_event_policy EvDownloadImportDone = MustDeliver WorkResult"
| "download_event_policy EvDownloadError = MustDeliver WorkResult"
| "download_event_policy EvDownloadImportError = MustDeliver WorkResult"

datatype scrobble_event =
    EvScrobbleAuthUrl | EvScrobbleAuthDone | EvScrobbleAuthFailed | EvScrobbleSessionInvalid | EvScrobbleQueueDropped
  | EvScrobbleOpenSubsonic | EvScrobbleQueueStalled

fun scrobble_event_policy :: "scrobble_event \<Rightarrow> event_policy" where
  "scrobble_event_policy EvScrobbleAuthUrl = MustDeliver Control"
| "scrobble_event_policy EvScrobbleAuthDone = MustDeliver Control"
| "scrobble_event_policy EvScrobbleAuthFailed = MustDeliver Control"
| "scrobble_event_policy EvScrobbleSessionInvalid = MustDeliver Control"
| "scrobble_event_policy EvScrobbleQueueDropped = MustDeliver Control"
| "scrobble_event_policy EvScrobbleOpenSubsonic = MustDeliver WorkResult"
| "scrobble_event_policy EvScrobbleQueueStalled = CoalesceLatest Telemetry ScrobbleQueueStalled"

datatype transfer_event =
    EvTransferProgress | EvTransferAuthUrl | EvTransferAuthDone | EvTransferAuthError | EvTransferDisconnected
  | EvTransferSpotifyPlaylists | EvTransferLocalPlaylistRequest | EvTransferJobDone | EvTransferJobRejected | EvTransferJobFailed

fun transfer_event_policy :: "transfer_event \<Rightarrow> event_policy" where
  "transfer_event_policy EvTransferProgress = CoalesceLatest Telemetry TransferJob"
| "transfer_event_policy EvTransferAuthUrl = MustDeliver WorkResult"
| "transfer_event_policy EvTransferAuthDone = MustDeliver WorkResult"
| "transfer_event_policy EvTransferAuthError = MustDeliver WorkResult"
| "transfer_event_policy EvTransferDisconnected = MustDeliver WorkResult"
| "transfer_event_policy EvTransferSpotifyPlaylists = MustDeliver WorkResult"
| "transfer_event_policy EvTransferLocalPlaylistRequest = MustDeliver WorkResult"
| "transfer_event_policy EvTransferJobDone = MustDeliver WorkResult"
| "transfer_event_policy EvTransferJobRejected = MustDeliver WorkResult"
| "transfer_event_policy EvTransferJobFailed = MustDeliver WorkResult"

section \<open>The latest-value store\<close>

record latest_insert =
  accepted :: bool
  should_wake :: bool
  replaced_existing :: bool
  evicted_oldest :: bool

record ('k, 'e) latest_buffer =
  lb_events :: "('k \<times> 'e) list"
  lb_order :: "'k list"
  lb_priorities :: "('k \<times> latest_event_class) list"
  lb_max :: nat
  lb_wake_pending :: bool

definition latest_new :: "nat \<Rightarrow> ('k, 'e) latest_buffer run" where
  "latest_new max_entries = (if max_entries > 0
     then Some \<lparr>lb_events = [], lb_order = [], lb_priorities = [], lb_max = max_entries,
       lb_wake_pending = False\<rparr>
     else None)"

text \<open>Whether a resident of class \<open>r\<close> may be displaced by a newcomer of class \<open>p\<close>.\<close>

definition yields :: "latest_event_class \<Rightarrow> latest_event_class \<Rightarrow> bool" where
  "yields p r = (case p of TelemetryClass \<Rightarrow> r = TelemetryClass | _ \<Rightarrow> r \<noteq> Protected)"

text \<open>\<open>None\<close>: no victim is needed; \<open>Some None\<close>: full and nobody yields; \<open>Some (Some i)\<close>: the victim's
  place in \<open>order\<close>.\<close>

definition latest_victim ::
    "('k, 'e) latest_buffer \<Rightarrow> 'k \<Rightarrow> latest_event_class \<Rightarrow> nat option option" where
  "latest_victim b key prio =
     (if map_of (lb_events b) key = None \<and> length (lb_events b) \<ge> lb_max b
      then Some (position (\<lambda>c. case map_of (lb_priorities b) c of
             None \<Rightarrow> False | Some r \<Rightarrow> yields prio r) (lb_order b))
      else None)"

text \<open>\<open>VecDeque::remove\<close> of the victim and of its entries.\<close>

definition evict :: "('k, 'e) latest_buffer \<Rightarrow> nat \<Rightarrow> ('k, 'e) latest_buffer" where
  "evict b victim = (case vec_remove victim (lb_order b) of
      None \<Rightarrow> b
    | Some (evicted, order) \<Rightarrow> b\<lparr>lb_order := order,
        lb_events := AList.delete evicted (lb_events b),
        lb_priorities := AList.delete evicted (lb_priorities b)\<rparr>)"

definition store ::
    "('k, 'e) latest_buffer \<Rightarrow> 'k \<Rightarrow> 'e \<Rightarrow> latest_event_class \<Rightarrow> bool \<Rightarrow> ('k, 'e) latest_buffer" where
  "store b key event prio replaced =
     (let order = (if replaced then filter (\<lambda>k. k \<noteq> key) (lb_order b) else lb_order b)
      in b\<lparr>lb_events := AList.update key event (lb_events b),
           lb_priorities := AList.update key prio (lb_priorities b),
           lb_order := order @ [key], lb_wake_pending := True\<rparr>)"

definition insert_prioritized ::
    "('k, 'e) latest_buffer \<Rightarrow> 'k \<Rightarrow> 'e \<Rightarrow> latest_event_class
      \<Rightarrow> (latest_insert \<times> ('k, 'e) latest_buffer) run" where
  "insert_prioritized b key event prio =
     (let replaced = (map_of (lb_events b) key \<noteq> None); victim = latest_victim b key prio
      in if victim = Some None
         then Some (\<lparr>accepted = False, should_wake = False, replaced_existing = False,
                evicted_oldest = False\<rparr>, b)
         else
           let b1 = (case victim of Some (Some v) \<Rightarrow> evict b v | _ \<Rightarrow> b);
               b2 = store b1 key event prio replaced
           in if length (lb_events b2) \<le> lb_max b2
              then Some (\<lparr>accepted = True, should_wake = \<not> lb_wake_pending b,
                     replaced_existing = replaced, evicted_oldest = (victim \<noteq> None)\<rparr>, b2)
              else None)"

definition latest_insert_telemetry ::
    "('k, 'e) latest_buffer \<Rightarrow> 'k \<Rightarrow> 'e \<Rightarrow> (latest_insert \<times> ('k, 'e) latest_buffer) run" where
  "latest_insert_telemetry b key event = insert_prioritized b key event TelemetryClass"

fun drain_loop ::
    "'k list \<Rightarrow> ('k \<times> 'e) list \<Rightarrow> ('k \<times> latest_event_class) list
      \<Rightarrow> 'e list \<times> ('k \<times> 'e) list \<times> ('k \<times> latest_event_class) list" where
  "drain_loop [] events prios = ([], events, prios)"
| "drain_loop (key # order) events prios = (case map_of events key of
      None \<Rightarrow> drain_loop order events prios
    | Some event \<Rightarrow>
        let (drained, rest) = drain_loop order (AList.delete key events) (AList.delete key prios)
        in (event # drained, rest))"

definition latest_drain :: "('k, 'e) latest_buffer \<Rightarrow> 'e list \<times> ('k, 'e) latest_buffer" where
  "latest_drain b = (let (drained, events, prios) = drain_loop (lb_order b) (lb_events b) (lb_priorities b)
     in (drained, b\<lparr>lb_wake_pending := False, lb_order := [], lb_events := events,
           lb_priorities := prios\<rparr>))"

definition rearm_wake :: "('k, 'e) latest_buffer \<Rightarrow> ('k, 'e) latest_buffer" where
  "rearm_wake b = b\<lparr>lb_wake_pending := False\<rparr>"

definition latest_clear :: "('k, 'e) latest_buffer \<Rightarrow> ('k, 'e) latest_buffer" where
  "latest_clear b = b\<lparr>lb_events := [], lb_order := [], lb_priorities := [], lb_wake_pending := False\<rparr>"


section \<open>The store as a list of entries\<close>

definition lb_wf :: "('k, 'e) latest_buffer \<Rightarrow> bool" where
  "lb_wf b \<longleftrightarrow> distinct (lb_order b) \<and> distinct (map fst (lb_events b))
     \<and> fst ` set (lb_events b) = set (lb_order b) \<and> fst ` set (lb_priorities b) = set (lb_order b)
     \<and> length (lb_order b) \<le> lb_max b \<and> 0 < lb_max b"

definition entry_of ::
    "('k \<times> 'e) list \<Rightarrow> ('k \<times> latest_event_class) list \<Rightarrow> 'k \<Rightarrow> 'k \<times> 'e \<times> latest_event_class" where
  "entry_of events prios k = (k, the (map_of events k), the (map_of prios k))"

definition entries :: "('k, 'e) latest_buffer \<Rightarrow> ('k \<times> 'e \<times> latest_event_class) list" where
  "entries b = map (entry_of (lb_events b) (lb_priorities b)) (lb_order b)"

text \<open>The contract: a newcomer replaces the entry of its key and goes to the back; when the store is
  full the oldest entry that yields to its class makes room; otherwise it is refused.\<close>

definition offer ::
    "nat \<Rightarrow> 'k \<Rightarrow> 'e \<Rightarrow> latest_event_class \<Rightarrow> ('k \<times> 'e \<times> latest_event_class) list
      \<Rightarrow> ('k \<times> 'e \<times> latest_event_class) list option" where
  "offer cap k e p xs =
     (if k \<in> fst ` set xs then Some (filter (\<lambda>x. fst x \<noteq> k) xs @ [(k, e, p)])
      else if length xs < cap then Some (xs @ [(k, e, p)])
      else map_option (\<lambda>i. drop_at i xs @ [(k, e, p)]) (position (\<lambda>x. yields p (snd (snd x))) xs))"

lemma fst_entry_of [simp]: "fst (entry_of ev pr k) = k" "fst \<circ> entry_of ev pr = (\<lambda>k. k)"
  by (simp_all add: entry_of_def fun_eq_iff)

lemma fst_entries: "map fst (entries b) = lb_order b"
  by (simp add: entries_def)

lemma fst_set_entries: "fst ` set (entries b) = set (lb_order b)"
  by (metis fst_entries set_map)

lemma length_entries [simp]: "length (entries b) = length (lb_order b)"
  by (simp add: entries_def)

lemma lb_wf_length: "lb_wf b \<Longrightarrow> length (lb_events b) = length (lb_order b)"
  by (metis distinct_card length_map lb_wf_def set_map)

lemma map_of_None_iff_order: "lb_wf b \<Longrightarrow> map_of (lb_events b) k = None \<longleftrightarrow> k \<notin> set (lb_order b)"
  by (auto simp: lb_wf_def map_of_eq_None_iff)

lemma map_of_prio_Some: "lb_wf b \<Longrightarrow> k \<in> set (lb_order b) \<Longrightarrow> \<exists>r. map_of (lb_priorities b) k = Some r"
  by (metis lb_wf_def map_of_eq_None_iff not_None_eq)

lemma position_map: "position P (map f xs) = position (P \<circ> f) xs"
  by (induction xs) simp_all

lemma position_cong: "(\<And>x. x \<in> set xs \<Longrightarrow> P x = Q x) \<Longrightarrow> position P xs = position Q xs"
  by (induction xs) simp_all

lemma latest_victim_eq:
  assumes "lb_wf b"
  shows "latest_victim b k p =
    (if k \<notin> set (lb_order b) \<and> length (lb_order b) = lb_max b
     then Some (position (\<lambda>x. yields p (snd (snd x))) (entries b)) else None)"
proof -
  have "position (\<lambda>c. case map_of (lb_priorities b) c of None \<Rightarrow> False | Some r \<Rightarrow> yields p r) (lb_order b)
      = position (\<lambda>x. yields p (snd (snd x))) (entries b)"
    unfolding entries_def position_map using map_of_prio_Some [OF assms]
    by (intro position_cong) (force simp: entry_of_def)
  then show ?thesis using assms
    by (auto simp: latest_victim_def map_of_None_iff_order lb_wf_length) (auto simp: lb_wf_def)
qed

lemma entry_of_update:
  "k \<noteq> l \<Longrightarrow> entry_of (AList.update k e ev) (AList.update k p pr) l = entry_of ev pr l"
  "entry_of (AList.update k e ev) (AList.update k p pr) k = (k, e, p)"
  by (simp_all add: entry_of_def AList.update_conv')

lemma delete_key_set: "fst ` set (AList.delete k al) = fst ` set al - {k}"
  by (metis AList.delete_keys set_map set_removeAll)

lemma entry_of_delete: "k \<noteq> l \<Longrightarrow> entry_of (AList.delete k ev) (AList.delete k pr) l = entry_of ev pr l"
  by (simp add: entry_of_def)

lemma store_spec:
  assumes "distinct (lb_order b)" "distinct (map fst (lb_events b))"
    "fst ` set (lb_events b) = set (lb_order b)" "fst ` set (lb_priorities b) = set (lb_order b)"
    "0 < lb_max b" "replaced \<longleftrightarrow> key \<in> set (lb_order b)"
    "length (lb_order b) < lb_max b \<or> replaced \<and> length (lb_order b) \<le> lb_max b"
  shows "lb_wf (store b key event prio replaced)"
    "entries (store b key event prio replaced) =
       filter (\<lambda>x. fst x \<noteq> key) (entries b) @ [(key, event, prio)]"
proof -
  let ?o = "filter (\<lambda>k. k \<noteq> key) (lb_order b)"
  have o: "lb_order (store b key event prio replaced) = ?o @ [key]"
    using assms(6) by (auto simp: store_def Let_def intro!: filter_True [symmetric])
  have "length ?o < length (lb_order b)" if replaced
    using that assms(6) by (auto intro!: length_filter_less)
  then have len: "length ?o < lb_max b" using assms(7) length_filter_le [of "\<lambda>k. k \<noteq> key" "lb_order b"]
    by linarith
  show "lb_wf (store b key event prio replaced)"
    unfolding lb_wf_def o using assms len
    by (auto simp: store_def Let_def AList.dom_update intro!: AList.distinct_update)
  have "map (entry_of (AList.update key event (lb_events b)) (AList.update key prio (lb_priorities b))) ?o
      = map (entry_of (lb_events b) (lb_priorities b)) ?o"
    by (intro map_cong) (auto simp: entry_of_update)
  also have "\<dots> = filter (\<lambda>x. fst x \<noteq> key) (entries b)"
    by (simp add: entries_def filter_map comp_def)
  finally show "entries (store b key event prio replaced) =
       filter (\<lambda>x. fst x \<noteq> key) (entries b) @ [(key, event, prio)]"
    unfolding entries_def [of "store b key event prio replaced"] o
    by (simp add: store_def Let_def entry_of_update)
qed

lemma evict_spec:
  assumes "lb_wf b" "v < length (lb_order b)"
  shows "lb_wf (evict b v)" "entries (evict b v) = drop_at v (entries b)"
    "length (lb_order (evict b v)) = length (lb_order b) - 1" "lb_max (evict b v) = lb_max b"
    "set (lb_order (evict b v)) \<subseteq> set (lb_order b)"
proof -
  let ?k = "lb_order b ! v"
  have e: "evict b v = b\<lparr>lb_order := drop_at v (lb_order b), lb_events := AList.delete ?k (lb_events b),
      lb_priorities := AList.delete ?k (lb_priorities b)\<rparr>"
    using assms(2) by (simp add: evict_def vec_remove_def)
  have set: "set (drop_at v (lb_order b)) = set (lb_order b) - {?k}"
    using assms by (auto simp: lb_wf_def set_drop_at)
  show "lb_wf (evict b v)" using assms
    by (auto simp: e lb_wf_def set delete_key_set distinct_drop_at intro: AList.distinct_delete)
  have "map (entry_of (AList.delete ?k (lb_events b)) (AList.delete ?k (lb_priorities b))) (drop_at v (lb_order b))
      = map (entry_of (lb_events b) (lb_priorities b)) (drop_at v (lb_order b))"
    by (intro map_cong refl entry_of_delete) (auto simp: set)
  then show "entries (evict b v) = drop_at v (entries b)"
    by (simp add: e entries_def map_drop_at)
  show "length (lb_order (evict b v)) = length (lb_order b) - 1" "lb_max (evict b v) = lb_max b"
    "set (lb_order (evict b v)) \<subseteq> set (lb_order b)"
    using assms(2) set by (auto simp: e)
qed

lemma filter_fst_notin: "k \<notin> fst ` set xs \<Longrightarrow> filter (\<lambda>x. fst x \<noteq> k) xs = xs"
  by (rule filter_True) auto

lemma insert_prioritized_spec:
  assumes "lb_wf b"
  shows "\<exists>r b'. insert_prioritized b key event prio = Some (r, b') \<and> lb_wf b' \<and> lb_max b' = lb_max b
    \<and> (case offer (lb_max b) key event prio (entries b) of
         None \<Rightarrow> \<not> accepted r \<and> \<not> should_wake r \<and> b' = b
       | Some xs \<Rightarrow> accepted r \<and> should_wake r = (\<not> lb_wake_pending b) \<and> lb_wake_pending b' \<and> entries b' = xs)"
proof -
  let ?rep = "key \<in> set (lb_order b)" and ?full = "length (lb_order b) = lb_max b"
  have rep: "(map_of (lb_events b) key \<noteq> None) = ?rep" using assms by (simp add: map_of_None_iff_order)
  have ins: "insert_prioritized b key event prio =
     (let victim = latest_victim b key prio;
          b2 = store (case victim of Some (Some v) \<Rightarrow> evict b v | _ \<Rightarrow> b) key event prio ?rep
      in if victim = Some None
         then Some (\<lparr>accepted = False, should_wake = False, replaced_existing = False,
                evicted_oldest = False\<rparr>, b)
         else if length (lb_events b2) \<le> lb_max b2
              then Some (\<lparr>accepted = True, should_wake = \<not> lb_wake_pending b,
                     replaced_existing = ?rep, evicted_oldest = (victim \<noteq> None)\<rparr>, b2)
              else None)"
    by (simp only: insert_prioritized_def Let_def rep)
  note vic = latest_victim_eq [OF assms, of key prio]
  have max: "lb_max (store c key event prio x) = lb_max c" "lb_wake_pending (store c key event prio x)" for c x
    by (simp_all add: store_def)
  have cap: "length (lb_events c) \<le> lb_max c" if "lb_wf c" for c :: "('a, 'b) latest_buffer"
    using that lb_wf_length [OF that] by (simp add: lb_wf_def)
  consider "\<not> (\<not> ?rep \<and> ?full)" | "\<not> ?rep" ?full "position (\<lambda>x. yields prio (snd (snd x))) (entries b) = None"
    | v where "\<not> ?rep" ?full "position (\<lambda>x. yields prio (snd (snd x))) (entries b) = Some v" by fastforce
  then show ?thesis
  proof cases
    case 1
    have s: "lb_wf (store b key event prio ?rep)" "entries (store b key event prio ?rep) =
        filter (\<lambda>x. fst x \<noteq> key) (entries b) @ [(key, event, prio)]"
      using assms 1 by (intro store_spec; auto simp: lb_wf_def)+
    have "offer (lb_max b) key event prio (entries b) = Some (entries (store b key event prio ?rep))"
      using 1 assms filter_fst_notin [of key "entries b"] by (auto simp: s(2) offer_def fst_set_entries lb_wf_def)
    moreover have "latest_victim b key prio = None" using 1 vic by simp
    ultimately show ?thesis using s(1) cap [OF s(1)] unfolding ins by (simp add: max)
  next
    case 2
    then have "latest_victim b key prio = Some None" using vic by simp
    then show ?thesis using 2 assms unfolding ins by (simp add: offer_def fst_set_entries)
  next
    case 3
    have v: "v < length (lb_order b)" using position_SomeD [OF 3(3)] by simp
    note e = evict_spec [OF assms v]
    let ?b = "store (evict b v) key event prio False"
    have s: "lb_wf ?b" "entries ?b = filter (\<lambda>x. fst x \<noteq> key) (entries (evict b v)) @ [(key, event, prio)]"
      using e 3 v by (intro store_spec; auto simp: lb_wf_def)+
    have "key \<notin> fst ` set (entries (evict b v))" using e(5) 3(1) by (auto simp only: fst_set_entries)
    then have "offer (lb_max b) key event prio (entries b) = Some (entries ?b)"
      using 3 by (simp add: s(2) offer_def fst_set_entries e(2) filter_fst_notin)
    moreover have "latest_victim b key prio = Some (Some v)" using 3 vic by simp
    ultimately show ?thesis using 3(1) s(1) cap [OF s(1)] e(4) unfolding ins by (simp add: max)
  qed
qed

lemma drain_loop_spec:
  "distinct order \<Longrightarrow> set order \<subseteq> fst ` set events \<Longrightarrow>
     fst (drain_loop order events prios) = map (\<lambda>k. the (map_of events k)) order
     \<and> fst ` set (fst (snd (drain_loop order events prios))) = fst ` set events - set order
     \<and> fst ` set (snd (snd (drain_loop order events prios))) = fst ` set prios - set order"
proof (induction order arbitrary: events prios)
  case Nil
  then show ?case by simp
next
  case (Cons k order)
  obtain e where e: "map_of events k = Some e"
    using Cons.prems(2) by (metis insert_subset list.simps(15) map_of_eq_None_iff not_None_eq)
  have ih: "fst (drain_loop order (AList.delete k events) (AList.delete k prios))
      = map (\<lambda>k'. the (map_of (AList.delete k events) k')) order
     \<and> fst ` set (fst (snd (drain_loop order (AList.delete k events) (AList.delete k prios))))
       = fst ` set (AList.delete k events) - set order
     \<and> fst ` set (snd (snd (drain_loop order (AList.delete k events) (AList.delete k prios))))
       = fst ` set (AList.delete k prios) - set order"
    using Cons.prems by (intro Cons.IH) (auto simp: delete_key_set)
  have "map (\<lambda>k'. the (map_of (AList.delete k events) k')) order = map (\<lambda>k'. the (map_of events k')) order"
    using Cons.prems(1) by (intro map_cong refl) (auto simp: AList.delete_conv')
  moreover obtain d ev pr where
    d: "drain_loop order (AList.delete k events) (AList.delete k prios) = (d, ev, pr)" by (metis surj_pair)
  moreover have "drain_loop (k # order) events prios = (e # d, ev, pr)" by (simp add: e d)
  ultimately show ?case using ih by (simp only: d fst_conv snd_conv delete_key_set) (simp add: e, blast)
qed

lemma latest_drain_spec:
  assumes "lb_wf b"
  shows "fst (latest_drain b) = map (fst \<circ> snd) (entries b)" "lb_wf (snd (latest_drain b))"
    "entries (snd (latest_drain b)) = []" "\<not> lb_wake_pending (snd (latest_drain b))"
    "lb_max (snd (latest_drain b)) = lb_max b"
proof -
  let ?d = "drain_loop (lb_order b) (lb_events b) (lb_priorities b)"
  have d: "fst ?d = map (\<lambda>k. the (map_of (lb_events b) k)) (lb_order b)"
    "fst ` set (fst (snd ?d)) = {}" "fst ` set (snd (snd ?d)) = {}"
    using assms drain_loop_spec [of "lb_order b" "lb_events b" "lb_priorities b"] by (auto simp: lb_wf_def)
  then show "fst (latest_drain b) = map (fst \<circ> snd) (entries b)"
    by (auto simp: latest_drain_def entries_def entry_of_def split: prod.split)
  show "lb_wf (snd (latest_drain b))" using d assms
    by (auto simp: latest_drain_def lb_wf_def split: prod.split)
  show "entries (snd (latest_drain b)) = []" "\<not> lb_wake_pending (snd (latest_drain b))"
    "lb_max (snd (latest_drain b)) = lb_max b"
    by (auto simp: latest_drain_def entries_def split: prod.split)
qed

section \<open>Runs of inserts\<close>

fun insert_run ::
    "('k, 'e) latest_buffer \<Rightarrow> ('k \<times> 'e \<times> latest_event_class) list \<Rightarrow> ('k, 'e) latest_buffer run" where
  "insert_run b [] = Some b"
| "insert_run b ((k, e, p) # ops) = do { (_, b) \<leftarrow> insert_prioritized b k e p; insert_run b ops }"

lemma offer_keeps_protected:
  assumes "offer cap k e p xs = Some ys" "(k0, e0, Protected) \<in> set xs" "k0 \<noteq> k"
  shows "(k0, e0, Protected) \<in> set ys"
proof -
  have "(k0, e0, Protected) \<in> set (drop_at i xs)" if "position (\<lambda>x. yields p (snd (snd x))) xs = Some i" for i
  proof -
    have i: "i < length xs" "yields p (snd (snd (xs ! i)))" using position_SomeD [OF that] by auto
    then have "xs ! i \<noteq> (k0, e0, Protected)" by (auto simp: yields_def split: latest_event_class.splits)
    moreover have "set xs = insert (xs ! i) (set (drop_at i xs))"
      using arg_cong [OF id_take_nth_drop [OF i(1)], of set] by (auto simp: drop_at_def)
    ultimately show ?thesis using assms(2) by auto
  qed
  then show ?thesis using assms by (auto simp: offer_def split: if_splits)
qed

lemma latest_new_wf: "latest_new n = Some b \<Longrightarrow> lb_wf b \<and> entries b = [] \<and> lb_max b = n"
  by (auto simp: latest_new_def lb_wf_def entries_def split: if_splits)

definition all_keys :: "event_key list" where
  "all_keys =
     [AiThinking, AiWork, ArtResize, ArtworkVideo, DownloadProgress,
      DownloadResult, LyricsVideo, LocalScanProgress, MediaArtVideo, MouseMove,
      PlayerAudioDevice, PlayerAudioDeviceList, PlayerAudioCodec, PlayerCacheTime, PlayerChapters,
      PlayerCurrentAudioOutput, PlayerDuration, PlayerFileFormat, PlayerMetadata, PlayerPaused,
      PlayerSeekable, PlayerBuffering, PlayerEof, PlayerError, PlayerTransportClosed,
      PlayerTimePos, PlayerVolume, PlaylistIntent, ResolverVideo, ScrobbleAuthDone,
      ScrobbleAuthFailed, ScrobbleAuthUrl, ScrobbleQueueDropped, ScrobbleQueueStalled, ScrobbleSessionInvalid,
      SearchRequest, Signal, StreamingSeed, ToolProgress, ToolResult,
      TransferAuth, TransferJob, UpdateCheck, VideoOverlayGeneration, VideoOverlayFailure,
      VideoOverlayPaused, YtdlpHealVideo]"

section \<open>Properties\<close>

text \<open>C4. Inserting into a well-formed store never panics, keeps it well formed and within its bound,
  and does to the queue of entries exactly what the contract \<open>offer\<close> says: refusal leaves the store
  as it was, acceptance installs the contract's entries and asks for a wake only if none is pending.\<close>

theorem latest_insert_refines_offer:
  assumes "lb_wf b"
  shows "\<exists>r b'. insert_prioritized b key event prio = Some (r, b') \<and> lb_wf b' \<and> lb_max b' = lb_max b
    \<and> (case offer (lb_max b) key event prio (entries b) of
         None \<Rightarrow> \<not> accepted r \<and> \<not> should_wake r \<and> b' = b
       | Some xs \<Rightarrow> accepted r \<and> should_wake r = (\<not> lb_wake_pending b) \<and> lb_wake_pending b' \<and> entries b' = xs)"
  using assms by (rule insert_prioritized_spec)

definition demo_buffer :: "(nat, nat) latest_buffer" where
  "demo_buffer = \<lparr>lb_events = [(1, 10), (2, 20)], lb_order = [2, 1],
     lb_priorities = [(1, TelemetryClass), (2, Protected)], lb_max = 2, lb_wake_pending = True\<rparr>"

lemma demo_buffer_wf: "lb_wf demo_buffer"
  by (simp add: demo_buffer_def lb_wf_def insert_commute)

theorem latest_insert_refines_offer_witness:
  "\<exists>r b'. insert_prioritized demo_buffer 3 30 StaleResult = Some (r, b')
     \<and> accepted r \<and> entries b' = [(2, 20, Protected), (3, 30, StaleResult)]"
  using latest_insert_refines_offer [OF demo_buffer_wf, of 3 30 StaleResult]
  by (auto simp: demo_buffer_def entries_def entry_of_def offer_def yields_def drop_at_def)

text \<open>C5. An accepted protected value is never lost to other keys: after any number of inserts under
  other keys, of any class, the value is still stored, none of the inserts panicked, and draining
  delivers every stored value once, oldest acceptance first, and empties the store.\<close>

theorem protected_value_survives:
  assumes "lb_wf b" "(k, e, Protected) \<in> set (entries b)" "\<forall>op\<in>set ops. fst op \<noteq> k"
  shows "\<exists>b'. insert_run b ops = Some b' \<and> (k, e, Protected) \<in> set (entries b')
    \<and> fst (latest_drain b') = map (fst \<circ> snd) (entries b') \<and> entries (snd (latest_drain b')) = []"
  using assms
proof (induction ops arbitrary: b)
  case Nil
  then show ?case by (simp add: latest_drain_spec)
next
  case (Cons op ops)
  obtain k1 e1 p1 where op: "op = (k1, e1, p1)" by (metis prod_cases3)
  obtain r b1 where b1: "insert_prioritized b k1 e1 p1 = Some (r, b1)" "lb_wf b1"
    "case offer (lb_max b) k1 e1 p1 (entries b) of None \<Rightarrow> b1 = b | Some xs \<Rightarrow> entries b1 = xs"
    using insert_prioritized_spec [OF Cons.prems(1), of k1 e1 p1] by (auto split: option.splits)
  then have "(k, e, Protected) \<in> set (entries b1)"
    using Cons.prems offer_keeps_protected [of "lb_max b" k1 e1 p1 "entries b" _ k e] op
    by (auto split: option.splits)
  then show ?case using Cons.IH [OF b1(2)] Cons.prems(3) b1(1) op by auto
qed

theorem protected_value_survives_witness:
  "\<exists>b'. insert_run demo_buffer [(3, 30, Protected), (1, 11, TelemetryClass)] = Some b'
     \<and> (2, 20, Protected) \<in> set (entries b')"
  using protected_value_survives [OF demo_buffer_wf, of 2 20 "[(3, 30, Protected), (1, 11, TelemetryClass)]"]
  by (auto simp: demo_buffer_def entries_def entry_of_def)

lemma all_keys_complete: "k \<in> set all_keys"
  by (cases k) (simp_all add: all_keys_def)

text \<open>The names under which event keys are logged are pairwise different.\<close>

theorem key_names_distinct: "inj key_name"
proof -
  have "distinct (map key_name all_keys)" by (simp add: all_keys_def)
  moreover have "set all_keys = UNIV" using all_keys_complete by blast
  ultimately show ?thesis by (simp add: distinct_map)
qed

end
