(* ===== verification/Delivery.thy ===== *)
theory Delivery
  imports EventPolicy "HOL-Library.Sublist"
begin

text \<open>
  \<open>src/util/delivery.rs\<close> and \<open>src/util/delivery/admission.rs\<close>: bounded delivery of owner events.

  The owner's channel is a bounded \<open>tokio::sync::mpsc\<close> channel and the drainer an OS thread; neither
  is modelled.  What they answer is an argument of every operation that asks them (\<open>tx_env\<close>: is the
  channel closed, what \<open>try_send\<close> returns, whether the thread could be spawned), so the theorems
  hold for every behaviour of the channel.  An operation also returns the events it put into the
  channel.  Every operation on the shared state runs under the state's lock and is one step; the
  tracing calls are left out.

  The trait \<open>OwnerEvent\<close> is the record \<open>owner_ops\<close>: the policy, the kind and the coalescing key of an
  event, and the event that wakes the owner.
\<close>

section \<open>Receipts and errors\<close>

datatype delivery_receipt = Enqueued | Deferred | Coalesced bool bool

datatype delivery_error = Busy | StaleOrFull | BestEffortDropped | Saturated | Closed

fun delivery_reason :: "delivery_error \<Rightarrow> string" where
  "delivery_reason Busy = ''busy''"
| "delivery_reason StaleOrFull = ''stale_or_full''"
| "delivery_reason BestEffortDropped = ''dropped_best_effort''"
| "delivery_reason Saturated = ''must_deliver_saturated''"
| "delivery_reason Closed = ''closed''"

type_synonym delivery_result = "delivery_error + delivery_receipt"

fun direct_rejection :: "event_policy \<Rightarrow> delivery_error" where
  "direct_rejection (MustReplyOrBusy lane) = Busy"
| "direct_rejection (DropIfStale key) = StaleOrFull"
| "direct_rejection (BestEffort reason) = BestEffortDropped"
| "direct_rejection (CoalesceLatest lane key) = Saturated"
| "direct_rejection (MustDeliver lane) = Saturated"

section \<open>The deferred queue\<close>

datatype send_answer = SendOk | SendFull | SendClosed

record tx_env =
  tx_closed :: bool
  tx_send :: send_answer
  tx_spawn :: bool

record 'e deferred_event =
  de_event :: 'e
  de_kind :: string
  de_policy :: event_policy

record 'e latched_wake =
  lw_event :: "'e deferred_event"
  remaining_before :: nat

record deferred_config =
  capacity :: nat
  control_reserve :: nat

record 'e deferred_state =
  ds_queue :: "'e deferred_event list"
  ds_latched :: "'e latched_wake option"
  in_flight_lane :: "event_lane option"
  non_control_len :: nat
  drainer_running :: bool
  ds_closed :: bool

definition DEFAULT_DEFERRED_CAPACITY :: nat where "DEFAULT_DEFERRED_CAPACITY = 1024"
definition DEFAULT_CONTROL_RESERVE :: nat where "DEFAULT_CONTROL_RESERVE = 16"

definition deferred_new :: "nat \<Rightarrow> deferred_config \<times> 'e deferred_state" where
  "deferred_new cap =
     (\<lparr>capacity = cap,
       control_reserve = (if cap = 0 then 0 else if cap \<le> 31 then 1 else min DEFAULT_CONTROL_RESERVE cap)\<rparr>,
      \<lparr>ds_queue = [], ds_latched = None, in_flight_lane = None, non_control_len = 0,
       drainer_running = False, ds_closed = False\<rparr>)"

definition ds_push :: "'e deferred_event \<Rightarrow> 'e deferred_state \<Rightarrow> 'e deferred_state" where
  "ds_push item st =
     (let st = (if policy_lane (de_policy item) \<noteq> Some Control
                then st\<lparr>non_control_len := non_control_len st + 1\<rparr> else st)
      in st\<lparr>ds_queue := ds_queue st @ [item]\<rparr>)"

definition clear_open :: "'e deferred_state \<Rightarrow> 'e deferred_state" where
  "clear_open st = st\<lparr>ds_queue := [], ds_latched := None, in_flight_lane := None,
     non_control_len := 0, drainer_running := False\<rparr>"

definition mark_closed :: "'e deferred_state \<Rightarrow> 'e deferred_state" where
  "mark_closed st = (clear_open st)\<lparr>ds_closed := True\<rparr>"

definition has_capacity :: "deferred_config \<Rightarrow> 'e deferred_state \<Rightarrow> event_policy \<Rightarrow> bool" where
  "has_capacity cfg st policy =
     (let ordinary_len = length (ds_queue st) + (if in_flight_lane st \<noteq> None then 1 else 0)
      in if ordinary_len \<ge> capacity cfg then False
         else if policy_lane policy = Some Control then True
         else non_control_len st < capacity cfg - control_reserve cfg)"

text \<open>The tail of \<open>admit_owned\<close>: start the drainer when none runs; when it cannot be started the
  event just queued is handed back.\<close>

definition start_drainer ::
    "tx_env \<Rightarrow> 'e deferred_state \<Rightarrow> (((delivery_error \<times> 'e) + delivery_receipt) \<times> 'e deferred_state) run" where
  "start_drainer env st =
     (if drainer_running st then Some (Inr Deferred, st)
      else
        let st = st\<lparr>drainer_running := True\<rparr>
        in if tx_spawn env then Some (Inr Deferred, st)
           else if ds_queue st = [] then None
           else Some (Inl (Saturated, de_event (last (ds_queue st))), clear_open st))"

definition admit_owned ::
    "deferred_config \<Rightarrow> tx_env \<Rightarrow> 'e deferred_event \<Rightarrow> 'e deferred_state
      \<Rightarrow> (((delivery_error \<times> 'e) + delivery_receipt) \<times> 'e list \<times> 'e deferred_state) run" where
  "admit_owned cfg env item st =
     (let event = de_event item;
          enqueue = (if \<not> has_capacity cfg st (de_policy item)
            then Some (Inl (Saturated, event), [], st)
            else map_option (\<lambda>(r, st). (r, [], st)) (start_drainer env (ds_push item st)))
      in if ds_closed st \<or> tx_closed env then Some (Inl (Closed, event), [], mark_closed st)
         else if \<not> drainer_running st \<and> ds_queue st = [] then
           (case tx_send env of
              SendOk \<Rightarrow> Some (Inr Enqueued, [event], st)
            | SendClosed \<Rightarrow> Some (Inl (Closed, event), [], mark_closed st)
            | SendFull \<Rightarrow> enqueue)
         else enqueue)"

fun drop_event :: "(delivery_error \<times> 'e) + delivery_receipt \<Rightarrow> delivery_result" where
  "drop_event (Inl (err, _)) = Inl err"
| "drop_event (Inr receipt) = Inr receipt"

definition admit ::
    "deferred_config \<Rightarrow> tx_env \<Rightarrow> 'e deferred_event \<Rightarrow> 'e deferred_state
      \<Rightarrow> (delivery_result \<times> 'e list \<times> 'e deferred_state) run" where
  "admit cfg env item st = map_option (\<lambda>(r, rest). (drop_event r, rest)) (admit_owned cfg env item st)"

definition try_direct ::
    "tx_env \<Rightarrow> 'e \<Rightarrow> event_policy \<Rightarrow> 'e deferred_state
      \<Rightarrow> delivery_result \<times> 'e list \<times> 'e deferred_state" where
  "try_direct env event policy st =
     (if ds_closed st \<or> tx_closed env then (Inl Closed, [], mark_closed st)
      else if drainer_running st \<or> ds_queue st \<noteq> [] \<or> ds_latched st \<noteq> None
        then (Inl (direct_rejection policy), [], st)
      else case tx_send env of
          SendOk \<Rightarrow> (Inr Enqueued, [event], st)
        | SendFull \<Rightarrow> (Inl (direct_rejection policy), [], st)
        | SendClosed \<Rightarrow> (Inl Closed, [], mark_closed st))"

definition latch_wake ::
    "tx_env \<Rightarrow> 'e deferred_event \<Rightarrow> 'e deferred_state \<Rightarrow> delivery_result \<times> 'e deferred_state" where
  "latch_wake env item st =
     (if ds_closed st \<or> tx_closed env then (Inl Closed, mark_closed st)
      else if ds_latched st \<noteq> None then (Inr (Coalesced True False), st)
      else
        let st = st\<lparr>ds_latched := Some \<lparr>lw_event = item, remaining_before = length (ds_queue st)\<rparr>\<rparr>
        in if drainer_running st then (Inr Deferred, st)
           else let st = st\<lparr>drainer_running := True\<rparr>
             in if tx_spawn env then (Inr Deferred, st) else (Inl Saturated, clear_open st))"

text \<open>The drainer's loop head; the debug assertions are panics.\<close>

definition pop_or_stop :: "'e deferred_state \<Rightarrow> ('e deferred_event option \<times> 'e deferred_state) run" where
  "pop_or_stop st =
     (if ds_closed st then Some (None, mark_closed st)
      else if in_flight_lane st \<noteq> None then None
      else if (case ds_latched st of None \<Rightarrow> False | Some w \<Rightarrow> remaining_before w = 0)
        then Some (map_option lw_event (ds_latched st), st\<lparr>ds_latched := None\<rparr>)
      else case ds_queue st of
          item # rest \<Rightarrow> Some (Some item, st\<lparr>ds_queue := rest,
            ds_latched := map_option (\<lambda>w. w\<lparr>remaining_before := remaining_before w - 1\<rparr>) (ds_latched st),
            in_flight_lane := policy_lane (de_policy item)\<rparr>)
        | [] \<Rightarrow> if ds_latched st \<noteq> None then None else Some (None, st\<lparr>drainer_running := False\<rparr>))"

definition complete_in_flight :: "'e deferred_state \<Rightarrow> 'e deferred_state" where
  "complete_in_flight st =
     (let n = (case in_flight_lane st of
            Some lane \<Rightarrow> if lane \<noteq> Control then non_control_len st - 1 else non_control_len st
          | None \<Rightarrow> non_control_len st)
      in st\<lparr>in_flight_lane := None, non_control_len := n\<rparr>)"

definition ds_is_idle :: "'e deferred_state \<Rightarrow> bool" where
  "ds_is_idle st \<longleftrightarrow> \<not> drainer_running st \<and> ds_queue st = [] \<and> ds_latched st = None
     \<and> in_flight_lane st = None"

text \<open>The drainer thread, with the answers of \<open>blocking_send\<close> as a list (\<open>True\<close>: sent); it stops when
  the queue tells it to or a send fails, and runs out when the answers do.  The result lists the
  events sent.\<close>

fun drainer :: "bool list \<Rightarrow> 'e deferred_state \<Rightarrow> ('e list \<times> 'e deferred_state) run" where
  "drainer answers st = (case pop_or_stop st of
      None \<Rightarrow> None
    | Some (None, st) \<Rightarrow> Some ([], st)
    | Some (Some item, st) \<Rightarrow>
        (case answers of [] \<Rightarrow> Some ([], st)
         | ok # answers \<Rightarrow>
            let st = complete_in_flight st
            in if ok then map_option (\<lambda>(sent, st). (de_event item # sent, st)) (drainer answers st)
               else Some ([], mark_closed st)))"

section \<open>Admission\<close>

text \<open>\<open>IngressAdmission\<close> is its flag; \<open>close\<close> returns whether it changed.  A callback cancellation is
  a flag that is only ever set.\<close>

definition admission_close :: "bool \<Rightarrow> bool \<times> bool" where
  "admission_close opened = (opened, False)"

definition while_open :: "bool \<Rightarrow> unit option" where
  "while_open opened = (if opened then Some () else None)"

record ('e, 'k) owner_ops =
  op_policy :: "'e \<Rightarrow> event_policy"
  op_kind :: "'e \<Rightarrow> string"
  op_key :: "'e \<Rightarrow> 'k option"
  op_wake :: 'e

record ('e, 'k) ingress =
  ig_open :: bool
  ig_coalesced :: "('k, 'e) latest_buffer"
  ig_cfg :: deferred_config
  ig_deferred :: "'e deferred_state"

definition ingress_new :: "nat \<Rightarrow> nat \<Rightarrow> ('e, 'k) ingress run" where
  "ingress_new coalesced_capacity deferred_capacity = do {
     b \<leftarrow> latest_new coalesced_capacity;
     let (cfg, st) = deferred_new deferred_capacity;
     Some \<lparr>ig_open = True, ig_coalesced = b, ig_cfg = cfg, ig_deferred = st\<rparr> }"

definition emit_direct ::
    "('e, 'k) owner_ops \<Rightarrow> tx_env \<Rightarrow> 'e \<Rightarrow> event_policy \<Rightarrow> ('e, 'k) ingress
      \<Rightarrow> (delivery_result \<times> 'e list \<times> ('e, 'k) ingress) run" where
  "emit_direct ops env event policy ig =
     (case policy of
        MustDeliver _ \<Rightarrow> do {
          (r, sent, st) \<leftarrow> admit (ig_cfg ig) env
            \<lparr>de_event = event, de_kind = op_kind ops event, de_policy = policy\<rparr> (ig_deferred ig);
          Some (r, sent, ig\<lparr>ig_deferred := st\<rparr>) }
      | _ \<Rightarrow> (let (r, sent, st) = try_direct env event policy (ig_deferred ig)
              in Some (r, sent, ig\<lparr>ig_deferred := st\<rparr>)))"

definition class_of :: "event_policy \<Rightarrow> latest_event_class" where
  "class_of policy = (case policy of
      CoalesceLatest lane _ \<Rightarrow> if lane = Telemetry then TelemetryClass else Protected
    | DropIfStale _ \<Rightarrow> StaleResult
    | _ \<Rightarrow> TelemetryClass)"

text \<open>The wake of \<open>emit_coalesced\<close>: direct first, then latched behind the deferred events.  \<open>envs i\<close> are
  the answers of the channel at its use number \<open>i\<close> in one \<open>emit\<close>.\<close>

definition wake_owner ::
    "('e, 'k) owner_ops \<Rightarrow> (nat \<Rightarrow> tx_env) \<Rightarrow> delivery_receipt \<Rightarrow> ('e, 'k) ingress
      \<Rightarrow> (delivery_result \<times> 'e list \<times> ('e, 'k) ingress) run" where
  "wake_owner ops envs receipt ig = do {
     let wake = op_wake ops;
     let wake_policy = op_policy ops wake;
     (r, sent, ig) \<leftarrow> emit_direct ops (envs 1) wake wake_policy ig;
     case r of
       Inr _ \<Rightarrow> Some (Inr receipt, sent, ig)
     | Inl err \<Rightarrow>
         if err = Closed then Some (Inl err, sent, ig\<lparr>ig_coalesced := latest_clear (ig_coalesced ig)\<rparr>)
         else
           (let (l, st) = latch_wake (envs 2)
                  \<lparr>de_event = wake, de_kind = op_kind ops wake, de_policy = wake_policy\<rparr> (ig_deferred ig);
                ig = ig\<lparr>ig_deferred := st\<rparr>
            in case l of
                 Inr _ \<Rightarrow> Some (Inr receipt, sent, ig)
               | Inl _ \<Rightarrow> Some (Inl err, sent, ig\<lparr>ig_coalesced := rearm_wake (ig_coalesced ig)\<rparr>)) }"

definition emit_coalesced ::
    "('e, 'k) owner_ops \<Rightarrow> (nat \<Rightarrow> tx_env) \<Rightarrow> 'e \<Rightarrow> event_policy \<Rightarrow> ('e, 'k) ingress
      \<Rightarrow> (delivery_result \<times> 'e list \<times> ('e, 'k) ingress) run" where
  "emit_coalesced ops envs event policy ig =
     (case op_key ops event of
        None \<Rightarrow> emit_direct ops (envs 1) event policy ig
      | Some key \<Rightarrow>
          if tx_closed (envs 0) then
            Some (Inl Closed, [], ig\<lparr>ig_coalesced := latest_clear (ig_coalesced ig),
              ig_deferred := mark_closed (ig_deferred ig)\<rparr>)
          else do {
            (ins, b) \<leftarrow> insert_prioritized (ig_coalesced ig) key event (class_of policy);
            let ig = ig\<lparr>ig_coalesced := b\<rparr>;
            let receipt = Coalesced (replaced_existing ins) (evicted_oldest ins);
            if \<not> accepted ins then Some (Inl (direct_rejection policy), [], ig)
            else if should_wake ins then wake_owner ops envs receipt ig
            else Some (Inr receipt, [], ig) })"

definition emit_stale ::
    "('e, 'k) owner_ops \<Rightarrow> (nat \<Rightarrow> tx_env) \<Rightarrow> 'e \<Rightarrow> event_policy \<Rightarrow> ('e, 'k) ingress
      \<Rightarrow> (delivery_result \<times> 'e list \<times> ('e, 'k) ingress) run" where
  "emit_stale ops envs event policy ig =
     (if op_key ops event \<noteq> None then emit_coalesced ops envs event policy ig
      else emit_direct ops (envs 1) event policy ig)"

definition emit ::
    "('e, 'k) owner_ops \<Rightarrow> (nat \<Rightarrow> tx_env) \<Rightarrow> 'e \<Rightarrow> ('e, 'k) ingress
      \<Rightarrow> (delivery_result \<times> 'e list \<times> ('e, 'k) ingress) run" where
  "emit ops envs event ig =
     (let policy = op_policy ops event
      in case while_open (ig_open ig) of
           None \<Rightarrow> Some (Inl Closed, [], ig)
         | Some _ \<Rightarrow>
             (case policy of
                CoalesceLatest _ _ \<Rightarrow> emit_coalesced ops envs event policy ig
              | DropIfStale _ \<Rightarrow> emit_stale ops envs event policy ig
              | _ \<Rightarrow> emit_direct ops (envs 1) event policy ig))"

definition is_must_deliver :: "event_policy \<Rightarrow> bool" where
  "is_must_deliver policy = (case policy of MustDeliver _ \<Rightarrow> True | _ \<Rightarrow> False)"

definition emit_must_deliver_owned ::
    "('e, 'k) owner_ops \<Rightarrow> tx_env \<Rightarrow> 'e \<Rightarrow> ('e, 'k) ingress
      \<Rightarrow> (((delivery_error \<times> 'e) + delivery_receipt) \<times> 'e list \<times> ('e, 'k) ingress) run" where
  "emit_must_deliver_owned ops env event ig =
     (let policy = op_policy ops event
      in case while_open (ig_open ig) of
           None \<Rightarrow> Some (Inl (Closed, event), [], ig)
         | Some _ \<Rightarrow>
             if \<not> is_must_deliver policy then Some (Inl (direct_rejection policy, event), [], ig)
             else do {
               (r, sent, st) \<leftarrow> admit_owned (ig_cfg ig) env
                 \<lparr>de_event = event, de_kind = op_kind ops event, de_policy = policy\<rparr> (ig_deferred ig);
               Some (r, sent, ig\<lparr>ig_deferred := st\<rparr>) })"

text \<open>The retry loop of a callback producer.  Each round finds an ingress (other producers and the
  drainer ran in between) and a cancellation flag; \<open>None\<close> in the result means the rounds ran out with
  the producer still waiting, holding its event.\<close>

fun wait_for_callback_capacity ::
    "('e, 'k) owner_ops \<Rightarrow> (bool \<times> tx_env \<times> ('e, 'k) ingress) list \<Rightarrow> 'e
      \<Rightarrow> (((delivery_error \<times> 'e) + delivery_receipt) \<times> 'e list) option run" where
  "wait_for_callback_capacity ops [] event = Some None"
| "wait_for_callback_capacity ops ((cancelled, env, ig) # rounds) event =
     (if \<not> is_must_deliver (op_policy ops event) then None
      else if cancelled then Some (Some (Inl (Closed, event), []))
      else case while_open (ig_open ig) of
          None \<Rightarrow> Some (Some (Inl (Closed, event), []))
        | Some _ \<Rightarrow> do {
            (r, sent, _) \<leftarrow> admit_owned (ig_cfg ig) env
              \<lparr>de_event = event, de_kind = op_kind ops event, de_policy = op_policy ops event\<rparr>
              (ig_deferred ig);
            (case r of
               Inl (Saturated, rejected) \<Rightarrow> wait_for_callback_capacity ops rounds rejected
             | _ \<Rightarrow> Some (Some (r, sent))) })"

definition drain_coalesced :: "('e, 'k) ingress \<Rightarrow> 'e list \<times> ('e, 'k) ingress" where
  "drain_coalesced ig = (let (drained, b) = latest_drain (ig_coalesced ig)
     in (drained, ig\<lparr>ig_coalesced := b\<rparr>))"

definition close_admission :: "('e, 'k) ingress \<Rightarrow> bool \<times> ('e, 'k) ingress" where
  "close_admission ig = (let (changed, opened) = admission_close (ig_open ig)
     in (changed, ig\<lparr>ig_open := opened\<rparr>))"

definition deferred_is_idle :: "('e, 'k) ingress \<Rightarrow> bool" where
  "deferred_is_idle ig = ds_is_idle (ig_deferred ig)"


section \<open>The shared queue as a transition system\<close>

text \<open>The queue with the drainer thread's item in hand, and two ghost logs: the events accepted (an
  \<open>Ok\<close> receipt that stands for this event) and the events put into the channel, both in order.\<close>

record 'e delivery =
  dv_state :: "'e deferred_state"
  dv_item :: "'e deferred_event option"
  dv_accepted :: "'e list"
  dv_sent :: "'e list"

definition delivery_start :: "nat \<Rightarrow> 'e delivery" where
  "delivery_start cap = \<lparr>dv_state = snd (deferred_new cap), dv_item = None, dv_accepted = [], dv_sent = []\<rparr>"

inductive dstep :: "deferred_config \<Rightarrow> 'e delivery \<Rightarrow> 'e delivery \<Rightarrow> bool" for cfg where
  admit_step: "admit_owned cfg env item (dv_state d) = Some (r, out, st) \<Longrightarrow> is_must_deliver (de_policy item)
    \<Longrightarrow> dstep cfg d (d\<lparr>dv_state := st, dv_sent := dv_sent d @ out,
          dv_accepted := dv_accepted d @ (case r of Inl _ \<Rightarrow> [] | Inr _ \<Rightarrow> [de_event item])\<rparr>)"
| direct_step: "try_direct env event policy (dv_state d) = (r, out, st)
    \<Longrightarrow> dstep cfg d (d\<lparr>dv_state := st, dv_sent := dv_sent d @ out,
          dv_accepted := dv_accepted d @ (case r of Inl _ \<Rightarrow> [] | Inr _ \<Rightarrow> [event])\<rparr>)"
| latch_step: "latch_wake env item (dv_state d) = (r, st)
    \<Longrightarrow> dstep cfg d (d\<lparr>dv_state := st,
          dv_accepted := dv_accepted d @ (if r = Inr Deferred then [de_event item] else [])\<rparr>)"
| pop_step: "dv_item d = None \<Longrightarrow> drainer_running (dv_state d) \<or> ds_closed (dv_state d)
    \<Longrightarrow> pop_or_stop (dv_state d) = Some (item, st)
    \<Longrightarrow> dstep cfg d (d\<lparr>dv_state := st, dv_item := item\<rparr>)"
| sent_step: "dv_item d = Some item
    \<Longrightarrow> dstep cfg d (d\<lparr>dv_state := complete_in_flight (dv_state d), dv_item := None,
          dv_sent := dv_sent d @ [de_event item]\<rparr>)"
| failed_step: "dv_item d = Some item
    \<Longrightarrow> dstep cfg d (d\<lparr>dv_state := mark_closed (complete_in_flight (dv_state d)), dv_item := None\<rparr>)"
| close_step: "dstep cfg d (d\<lparr>dv_state := mark_closed (dv_state d)\<rparr>)"

inductive_cases dstepE: "dstep cfg d d'"

inductive reachable :: "nat \<Rightarrow> 'e delivery \<Rightarrow> bool" for cap where
  start: "reachable cap (delivery_start cap)"
| step: "reachable cap d \<Longrightarrow> dstep (fst (deferred_new cap :: deferred_config \<times> 'e deferred_state)) d d'
    \<Longrightarrow> reachable cap d'"

text \<open>The events the queue still owes the channel, the latched wake at its sequence point.\<close>

definition pending_events :: "'e deferred_state \<Rightarrow> 'e deferred_event list" where
  "pending_events st = (case ds_latched st of
      None \<Rightarrow> ds_queue st
    | Some w \<Rightarrow> take (remaining_before w) (ds_queue st) @ lw_event w # drop (remaining_before w) (ds_queue st))"

definition in_hand :: "'e delivery \<Rightarrow> 'e list" where
  "in_hand d = (case dv_item d of None \<Rightarrow> [] | Some item \<Rightarrow> [de_event item])"

abbreviation non_control :: "'e deferred_event \<Rightarrow> bool" where
  "non_control item \<equiv> policy_lane (de_policy item) \<noteq> Some Control"

definition slots :: "'e deferred_state \<Rightarrow> nat" where
  "slots st = length (ds_queue st) + (if in_flight_lane st \<noteq> None then 1 else 0)"

text \<open>The counters: every queued event must be delivered, the non-control counter counts, and the
  two bounds hold.\<close>

definition counted :: "deferred_config \<Rightarrow> 'e deferred_state \<Rightarrow> bool" where
  "counted cfg st \<longleftrightarrow> list_all (\<lambda>i. is_must_deliver (de_policy i)) (ds_queue st)
     \<and> non_control_len st = length (filter non_control (ds_queue st))
         + (if in_flight_lane st \<noteq> None \<and> in_flight_lane st \<noteq> Some Control then 1 else 0)
     \<and> slots st \<le> capacity cfg \<and> non_control_len st \<le> capacity cfg - control_reserve cfg"

definition idle_clean :: "'e deferred_state \<Rightarrow> bool" where
  "idle_clean st \<longleftrightarrow> ds_queue st = [] \<and> ds_latched st = None \<and> in_flight_lane st = None \<and> non_control_len st = 0"

definition ds_wf :: "deferred_config \<Rightarrow> 'e deferred_state \<Rightarrow> bool" where
  "ds_wf cfg st \<longleftrightarrow> counted cfg st \<and> (\<not> drainer_running st \<longrightarrow> idle_clean st)
     \<and> (ds_closed st \<longrightarrow> \<not> drainer_running st)
     \<and> (\<forall>w. ds_latched st = Some w \<longrightarrow> remaining_before w \<le> length (ds_queue st))"

definition delivery_inv :: "deferred_config \<Rightarrow> 'e delivery \<Rightarrow> bool" where
  "delivery_inv cfg d \<longleftrightarrow> ds_wf cfg (dv_state d)
     \<and> (dv_item d = None \<longrightarrow> in_flight_lane (dv_state d) = None)
     \<and> (\<not> ds_closed (dv_state d) \<and> \<not> drainer_running (dv_state d) \<longrightarrow> dv_item d = None)
     \<and> (\<not> ds_closed (dv_state d) \<longrightarrow>
          dv_accepted d = dv_sent d @ in_hand d @ map de_event (pending_events (dv_state d)))
     \<and> prefix (dv_sent d @ in_hand d) (dv_accepted d)"

lemma idle_clean_counted: "idle_clean st \<Longrightarrow> counted cfg st"
  by (simp add: idle_clean_def counted_def slots_def)

lemma clear_open_clean [simp]: "idle_clean (clear_open st)" "\<not> drainer_running (clear_open st)"
  "ds_closed (clear_open st) = ds_closed st"
  by (simp_all add: clear_open_def idle_clean_def)

lemma mark_closed_clean [simp]: "idle_clean (mark_closed st)" "\<not> drainer_running (mark_closed st)"
  "ds_closed (mark_closed st)"
  by (simp_all add: mark_closed_def clear_open_def idle_clean_def)

lemma ds_wf_clean: "idle_clean st \<Longrightarrow> \<not> drainer_running st \<Longrightarrow> ds_wf cfg st"
  by (auto simp: ds_wf_def idle_clean_counted) (simp add: idle_clean_def)

lemma ds_wf_closed [simp]: "ds_wf cfg (mark_closed st)"
  by (simp add: ds_wf_clean)

lemma pending_clean: "idle_clean st \<Longrightarrow> pending_events st = []"
  by (simp add: pending_events_def idle_clean_def)

lemma pending_push: "ds_wf cfg st \<Longrightarrow> pending_events (ds_push item st) = pending_events st @ [item]"
  by (auto simp: pending_events_def ds_push_def Let_def ds_wf_def split: option.splits)

lemma pending_frame [simp]: "pending_events (st\<lparr>drainer_running := b\<rparr>) = pending_events st"
  by (simp add: pending_events_def split: option.split)

lemma push_frame [simp]:
  "drainer_running (ds_push item st) = drainer_running st" "ds_closed (ds_push item st) = ds_closed st"
  "ds_latched (ds_push item st) = ds_latched st" "in_flight_lane (ds_push item st) = in_flight_lane st"
  "ds_queue (ds_push item st) = ds_queue st @ [item]"
  "non_control_len (ds_push item st) = non_control_len st + (if non_control item then 1 else 0)"
  by (simp_all add: ds_push_def Let_def)

lemma push_counted:
  "counted cfg st \<Longrightarrow> has_capacity cfg st (de_policy item) \<Longrightarrow> is_must_deliver (de_policy item)
     \<Longrightarrow> counted cfg (ds_push item st)"
  by (auto simp: counted_def has_capacity_def Let_def slots_def split: if_splits)

text \<open>What admitting one event does: accept it at the end of the pending events, send it at once when
  nothing is pending, or refuse it and keep the state, or close.\<close>

lemma admit_owned_cases:
  assumes "ds_wf cfg st" "is_must_deliver (de_policy item)"
  obtains
    (refused) err st' where "admit_owned cfg env item st = Some (Inl (err, de_event item), [], st')" "ds_wf cfg st'"
      "st' = st \<or> err = Closed \<and> st' = mark_closed st
       \<or> \<not> drainer_running st \<and> \<not> drainer_running st' \<and> idle_clean st' \<and> ds_closed st' = ds_closed st"
  | (sent) "admit_owned cfg env item st = Some (Inr Enqueued, [de_event item], st)" "\<not> drainer_running st" "\<not> ds_closed st"
  | (queued) st' where "admit_owned cfg env item st = Some (Inr Deferred, [], st')" "ds_wf cfg st'"
      "pending_events st' = pending_events st @ [item]" "drainer_running st'" "\<not> ds_closed st'" "\<not> ds_closed st"
      "in_flight_lane st' = in_flight_lane st"
proof -
  let ?enq = "if \<not> has_capacity cfg st (de_policy item)
    then Some (Inl (Saturated, de_event item), [], st)
    else map_option (\<lambda>(r, st). (r, [], st)) (start_drainer env (ds_push item st))"
  have enq: thesis if "\<not> ds_closed st" "admit_owned cfg env item st = ?enq"
  proof (cases "has_capacity cfg st (de_policy item)")
    case False
    then show ?thesis using refused [of Saturated st] that(2) assms(1) by simp
  next
    case True
    let ?p = "ds_push item st"
    have c: "counted cfg ?p" using push_counted assms True by (auto simp: ds_wf_def)
    have wf: "ds_wf cfg (?p\<lparr>drainer_running := True\<rparr>)"
      using assms(1) that(1) c by (auto simp: ds_wf_def counted_def slots_def)
    consider "drainer_running st" | "\<not> drainer_running st" "tx_spawn env" | "\<not> drainer_running st" "\<not> tx_spawn env"
      by blast
    then show ?thesis
    proof cases
      case 1
      then have "?p\<lparr>drainer_running := True\<rparr> = ?p" by simp
      with wf have "ds_wf cfg ?p" by (simp only:)
      then show ?thesis using queued [of ?p] 1 True that pending_push [OF assms(1)]
        by (simp add: start_drainer_def)
    next
      case 2
      then show ?thesis using queued [of "?p\<lparr>drainer_running := True\<rparr>"] True that wf pending_push [OF assms(1)]
        by (simp add: start_drainer_def Let_def)
    next
      case 3
      let ?c = "clear_open (?p\<lparr>drainer_running := True\<rparr>)"
      have "admit_owned cfg env item st = Some (Inl (Saturated, de_event item), [], ?c)"
        using 3 True that(2) by (simp add: start_drainer_def Let_def)
      then show ?thesis using refused [of Saturated ?c] 3 by (simp add: ds_wf_clean)
    qed
  qed
  consider "ds_closed st \<or> tx_closed env" | "\<not> (ds_closed st \<or> tx_closed env)" "drainer_running st \<or> ds_queue st \<noteq> [] \<or> tx_send env = SendFull"
    | "\<not> (ds_closed st \<or> tx_closed env)" "\<not> (drainer_running st \<or> ds_queue st \<noteq> [])" "tx_send env = SendOk"
    | "\<not> (ds_closed st \<or> tx_closed env)" "\<not> (drainer_running st \<or> ds_queue st \<noteq> [])" "tx_send env = SendClosed"
    by (cases "tx_send env") auto
  then show thesis
  proof cases
    case 1
    then show ?thesis using refused [of Closed "mark_closed st"] by (simp add: admit_owned_def Let_def)
  next
    case 2
    then show ?thesis by (intro enq) (auto simp: admit_owned_def Let_def)
  next
    case 3
    then show ?thesis using sent by (simp add: admit_owned_def Let_def)
  next
    case 4
    then show ?thesis using refused [of Closed "mark_closed st"] by (simp add: admit_owned_def Let_def)
  qed
qed


lemma try_direct_cases:
  assumes "ds_wf cfg st"
  obtains
    (refused) err st' where "try_direct env event policy st = (Inl err, [], st')"
      "st' = st \<or> st' = mark_closed st"
  | (sent) "try_direct env event policy st = (Inr Enqueued, [event], st)" "\<not> drainer_running st" "\<not> ds_closed st"
proof -
  have "(\<exists>err st'. try_direct env event policy st = (Inl err, [], st') \<and> (st' = st \<or> st' = mark_closed st))
      \<or> try_direct env event policy st = (Inr Enqueued, [event], st) \<and> \<not> drainer_running st \<and> \<not> ds_closed st"
    by (simp add: try_direct_def split: send_answer.split)
  then show thesis using that by blast
qed

lemma latch_wake_cases:
  assumes "ds_wf cfg st"
  obtains
    (same) r where "latch_wake env item st = (r, st)" "r \<noteq> Inr Deferred"
  | (closed) err where "latch_wake env item st = (Inl err, mark_closed st)"
  | (cleared) err st' where "latch_wake env item st = (Inl err, st')" "\<not> drainer_running st" "\<not> drainer_running st'"
      "idle_clean st'" "ds_closed st' = ds_closed st"
  | (latched) st' where "latch_wake env item st = (Inr Deferred, st')" "ds_wf cfg st'" "drainer_running st'"
      "pending_events st' = pending_events st @ [item]" "\<not> ds_closed st" "\<not> ds_closed st'"
      "in_flight_lane st' = in_flight_lane st"
proof -
  let ?l = "st\<lparr>ds_latched := Some \<lparr>lw_event = item, remaining_before = length (ds_queue st)\<rparr>\<rparr>"
  let ?r = "?l\<lparr>drainer_running := True\<rparr>"
  consider "ds_closed st \<or> tx_closed env" | "\<not> (ds_closed st \<or> tx_closed env)" "ds_latched st \<noteq> None"
    | "\<not> (ds_closed st \<or> tx_closed env)" "ds_latched st = None" "drainer_running st \<or> tx_spawn env"
    | "\<not> (ds_closed st \<or> tx_closed env)" "ds_latched st = None" "\<not> drainer_running st" "\<not> tx_spawn env"
    by blast
  then show thesis
  proof cases
    case 1
    then show ?thesis by (intro closed) (simp add: latch_wake_def)
  next
    case 2
    then show ?thesis by (intro same [of "Inr (Coalesced True False)"]) (simp_all add: latch_wake_def)
  next
    case 3
    have "drainer_running st \<Longrightarrow> ?r = ?l" by simp
    then have r: "latch_wake env item st = (Inr Deferred, ?r)" using 3
      by (cases "drainer_running st") (simp_all add: latch_wake_def Let_def)
    moreover have "ds_wf cfg ?r" using assms 3 by (auto simp: ds_wf_def counted_def slots_def)
    moreover have "pending_events ?r = pending_events st @ [item]" using 3 by (simp add: pending_events_def)
    ultimately show ?thesis using 3(1) latched [of ?r] by simp
  next
    case 4
    then have "latch_wake env item st = (Inl Saturated, clear_open ?r)"
      by (simp add: latch_wake_def Let_def)
    then show ?thesis by (rule cleared) (simp_all add: 4)
  qed
qed

lemma pop_or_stop_cases:
  assumes "ds_wf cfg st" "in_flight_lane st = None"
  obtains
    (closed) "pop_or_stop st = Some (None, mark_closed st)" "ds_closed st"
  | (stopped) "pop_or_stop st = Some (None, st\<lparr>drainer_running := False\<rparr>)" "idle_clean st" "\<not> ds_closed st"
  | (popped) item st' where "pop_or_stop st = Some (Some item, st')" "\<not> ds_closed st" "ds_wf cfg st'"
      "pending_events st = item # pending_events st'" "\<not> ds_closed st'" "drainer_running st'"
      "in_flight_lane st' = None \<or> in_flight_lane st' = policy_lane (de_policy item)"
proof (cases "ds_closed st")
  case True
  then show ?thesis by (intro closed) (simp_all add: pop_or_stop_def)
next
  case op: False
  show ?thesis
  proof (cases "pending_events st = []")
    case True
    then have "ds_queue st = []" "ds_latched st = None"
      by (auto simp: pending_events_def split: option.splits)
    moreover from this have "idle_clean st" using assms
      by (simp add: ds_wf_def counted_def idle_clean_def)
    ultimately show ?thesis using assms(2) op by (intro stopped) (simp_all add: pop_or_stop_def)
  next
    case False
    then have run: "drainer_running st"
      using assms(1) pending_clean [of st] by (auto simp: ds_wf_def)
    show ?thesis
    proof (cases "\<exists>w. ds_latched st = Some w \<and> remaining_before w = 0")
      case True
      then obtain w where w: "ds_latched st = Some w" "remaining_before w = 0" by blast
      show ?thesis
      proof (rule popped)
        show "pop_or_stop st = Some (Some (lw_event w), st\<lparr>ds_latched := None\<rparr>)"
          using op assms(2) w by (simp add: pop_or_stop_def)
        show "ds_wf cfg (st\<lparr>ds_latched := None\<rparr>)" using assms run op
          by (auto simp: ds_wf_def counted_def slots_def)
      qed (use op run w assms(2) in \<open>auto simp: pending_events_def\<close>)
    next
      case nowake: False
      have "ds_queue st \<noteq> []"
        using False nowake assms(1) by (auto simp: pending_events_def ds_wf_def split: option.splits)
      then obtain item rest where q: "ds_queue st = item # rest" by (cases "ds_queue st") auto
      let ?s = "st\<lparr>ds_queue := rest,
            ds_latched := map_option (\<lambda>w. w\<lparr>remaining_before := remaining_before w - 1\<rparr>) (ds_latched st),
            in_flight_lane := policy_lane (de_policy item)\<rparr>"
      have lane: "policy_lane (de_policy item) \<noteq> None"
        using assms(1) q by (auto simp: ds_wf_def counted_def is_must_deliver_def split: event_policy.splits)
      show ?thesis
      proof (rule popped)
        show "pop_or_stop st = Some (Some item, ?s)"
          using op assms(2) nowake q by (auto simp: pop_or_stop_def split: option.splits)
        show "ds_wf cfg ?s" using assms run op q lane
          by (auto simp: ds_wf_def counted_def slots_def)
        show "pending_events st = item # pending_events ?s"
        proof (cases "ds_latched st")
          case None
          then show ?thesis by (simp add: pending_events_def q)
        next
          case (Some w)
          then obtain n where "remaining_before w = Suc n" using nowake by (cases "remaining_before w") auto
          then show ?thesis using Some by (simp add: pending_events_def q)
        qed
      qed (use op run in auto)
    qed
  qed
qed

lemma complete_wf:
  assumes "ds_wf cfg st" "ds_closed st \<or> drainer_running st"
  shows "ds_wf cfg (complete_in_flight st)" "pending_events (complete_in_flight st) = pending_events st"
    "in_flight_lane (complete_in_flight st) = None" "ds_closed (complete_in_flight st) = ds_closed st"
    "drainer_running (complete_in_flight st) = drainer_running st"
  using assms
  by (auto simp: complete_in_flight_def Let_def ds_wf_def counted_def slots_def idle_clean_def pending_events_def
      split: option.splits)

text \<open>The invariant under each kind of change.\<close>

lemma inv_closed: "delivery_inv cfg d \<Longrightarrow> delivery_inv cfg (d\<lparr>dv_state := mark_closed st\<rparr>)"
  using mark_closed_clean(1) [of st] by (simp add: delivery_inv_def in_hand_def idle_clean_def)

lemma inv_cleared:
  assumes "delivery_inv cfg d" "\<not> drainer_running (dv_state d)" "\<not> drainer_running st" "idle_clean st"
    "ds_closed st = ds_closed (dv_state d)"
  shows "delivery_inv cfg (d\<lparr>dv_state := st\<rparr>)"
proof -
  have "idle_clean (dv_state d)" using assms(1,2) by (simp add: delivery_inv_def ds_wf_def)
  then have "pending_events st = pending_events (dv_state d)" using assms(4) by (simp add: pending_clean)
  moreover have "in_flight_lane st = None" using assms(4) by (simp add: idle_clean_def)
  ultimately show ?thesis using assms ds_wf_clean [OF assms(4,3)] by (simp add: delivery_inv_def in_hand_def)
qed

lemma inv_queued:
  assumes "delivery_inv cfg d" "ds_wf cfg st" "pending_events st = pending_events (dv_state d) @ [item]"
    "drainer_running st" "\<not> ds_closed (dv_state d)" "in_flight_lane st = in_flight_lane (dv_state d)"
  shows "delivery_inv cfg (d\<lparr>dv_state := st, dv_accepted := dv_accepted d @ [de_event item]\<rparr>)"
  using assms by (simp add: delivery_inv_def in_hand_def)

lemma inv_sent:
  assumes "delivery_inv cfg d" "\<not> drainer_running (dv_state d)" "\<not> ds_closed (dv_state d)"
  shows "delivery_inv cfg (d\<lparr>dv_sent := dv_sent d @ [e], dv_accepted := dv_accepted d @ [e]\<rparr>)"
proof -
  have "pending_events (dv_state d) = []" "dv_item d = None"
    using assms by (simp_all add: delivery_inv_def ds_wf_def pending_clean)
  then show ?thesis using assms by (simp add: delivery_inv_def in_hand_def)
qed

lemma dstep_inv:
  assumes "delivery_inv cfg d" "dstep cfg d d'"
  shows "delivery_inv cfg d'"
proof -
  have wf: "ds_wf cfg (dv_state d)" using assms(1) by (simp add: delivery_inv_def)
  note kinds = assms(1) inv_closed [OF assms(1)] inv_cleared [OF assms(1)] inv_queued [OF assms(1)]
    inv_sent [OF assms(1)]
  show ?thesis using assms(2)
  proof (cases rule: dstep.cases)
    case (admit_step env item r out st)
    show ?thesis using wf admit_step(3)
    proof (cases rule: admit_owned_cases [where env = env])
      case (refused err st')
      then show ?thesis using admit_step kinds by auto
    next
      case sent
      then show ?thesis using admit_step kinds by simp
    next
      case (queued st')
      then show ?thesis using admit_step kinds by simp
    qed
  next
    case (direct_step env event policy r out st)
    show ?thesis
      by (cases rule: try_direct_cases [OF wf, of env event policy]) (use direct_step kinds in auto)
  next
    case (latch_step env item r st)
    show ?thesis using wf
    proof (cases rule: latch_wake_cases [where env = env and item = item])
      case (latched st')
      then show ?thesis using latch_step kinds by simp
    qed (use latch_step kinds in auto)
  next
    case (pop_step item st)
    have fl: "in_flight_lane (dv_state d) = None" using assms(1) pop_step by (simp add: delivery_inv_def)
    show ?thesis using wf fl
    proof (cases rule: pop_or_stop_cases)
      case closed
      then show ?thesis using pop_step assms(1) mark_closed_clean(1) [of "dv_state d"]
        by (simp add: delivery_inv_def in_hand_def idle_clean_def)
    next
      case stopped
      then show ?thesis using pop_step assms(1) fl
        by (simp add: delivery_inv_def in_hand_def ds_wf_clean pending_clean idle_clean_def ds_wf_def counted_def slots_def)
    next
      case (popped i st')
      then show ?thesis using pop_step assms(1) by (simp add: delivery_inv_def in_hand_def prefix_def)
    qed
  next
    case (sent_step item)
    have "ds_closed (dv_state d) \<or> drainer_running (dv_state d)"
      using assms(1) sent_step by (auto simp: delivery_inv_def)
    then show ?thesis using sent_step assms(1) complete_wf [OF wf]
      by (simp add: delivery_inv_def in_hand_def)
  next
    case (failed_step item)
    have "prefix (dv_sent d) (dv_accepted d)" using assms(1) by (auto simp: delivery_inv_def prefix_def)
    then show ?thesis using failed_step mark_closed_clean(1) [of "complete_in_flight (dv_state d)"]
      by (simp add: delivery_inv_def in_hand_def idle_clean_def)
  next
    case close_step
    then show ?thesis using kinds(2) by simp
  qed
qed


lemma start_inv: "delivery_inv (fst (deferred_new cap :: deferred_config \<times> 'e deferred_state)) (delivery_start cap :: 'e delivery)"
  by (simp add: delivery_inv_def delivery_start_def deferred_new_def ds_wf_def counted_def slots_def
      idle_clean_def in_hand_def pending_events_def)

lemma reachable_inv: "reachable cap (d :: 'e delivery) \<Longrightarrow>
    delivery_inv (fst (deferred_new cap :: deferred_config \<times> 'e deferred_state)) d"
  by (induction rule: reachable.induct) (simp_all add: start_inv dstep_inv)

declare drainer.simps [simp del]

lemma drainer_all:
  assumes "ds_wf cfg st" "in_flight_lane st = None" "\<not> ds_closed st"
    "length answers \<ge> length (pending_events st)" "\<forall>a\<in>set answers. a"
  shows "\<exists>st'. drainer answers st = Some (map de_event (pending_events st), st') \<and> ds_is_idle st' \<and> \<not> ds_closed st'"
  using assms
proof (induction answers arbitrary: st)
  case Nil
  then have p: "pending_events st = []" by simp
  show ?case using Nil.prems(1,2)
  proof (cases rule: pop_or_stop_cases)
    case (popped item st')
    then show ?thesis using p by simp
  qed (use Nil.prems p drainer.simps [of "[]" st] in \<open>simp_all add: ds_is_idle_def idle_clean_def\<close>)
next
  case (Cons a answers)
  show ?case using Cons.prems(1,2)
  proof (cases rule: pop_or_stop_cases)
    case (popped item st')
    note c = complete_wf [OF popped(3) disjI2 [OF popped(6)]]
    have all: "\<forall>x\<in>set answers. x" using Cons.prems(5) by (meson list.set_intros(2))
    have "\<exists>st''. drainer answers (complete_in_flight st') = Some (map de_event (pending_events st'), st'')
        \<and> ds_is_idle st'' \<and> \<not> ds_closed st''"
      using Cons.IH [OF c(1,3) _ _ all] Cons.prems(4) popped(4,5) c(2,4) by simp
    then show ?thesis using popped Cons.prems(5) drainer.simps [of "a # answers" st] by (auto simp: Let_def)
  qed (use Cons.prems drainer.simps [of "a # answers" st] in
      \<open>simp_all add: ds_is_idle_def idle_clean_def pending_clean\<close>)
qed

lemma control_held:
  assumes "counted cfg st" "slots st = capacity cfg" "control_reserve cfg \<le> capacity cfg"
  shows "control_reserve cfg \<le> length (filter (\<lambda>i. \<not> non_control i) (ds_queue st))
    + (if in_flight_lane st = Some Control then 1 else 0)"
proof -
  have "length (filter non_control (ds_queue st)) + length (filter (\<lambda>i. \<not> non_control i) (ds_queue st))
      = length (ds_queue st)"
    using sum_length_filter_compl [of non_control "ds_queue st"] by simp
  then show ?thesis using assms by (auto simp: counted_def slots_def split: if_splits)
qed

lemma reserve_le: "control_reserve (fst (deferred_new cap)) \<le> capacity (fst (deferred_new cap))"
  by (simp add: deferred_new_def DEFAULT_CONTROL_RESERVE_def)

section \<open>Properties\<close>


text \<open>The bounds of the spill queue hold in every reachable state: queued and in-flight events
  never exceed the capacity, events outside the control lane never use the control reserve, so a full
  queue holds at least the reserve's number of control events; and no step of the drainer or of a
  must-deliver admission trips an assertion.\<close>

theorem delivery_bounds:
  fixes d :: "'e delivery" and cfg :: deferred_config
  assumes "reachable cap d" "cfg = fst (deferred_new cap :: deferred_config \<times> 'e deferred_state)"
  shows "slots (dv_state d) \<le> capacity cfg
    \<and> non_control_len (dv_state d) \<le> capacity cfg - control_reserve cfg
    \<and> (slots (dv_state d) = capacity cfg \<longrightarrow> control_reserve cfg
        \<le> length (filter (\<lambda>i. policy_lane (de_policy i) = Some Control) (ds_queue (dv_state d)))
          + (if in_flight_lane (dv_state d) = Some Control then 1 else 0))
    \<and> (dv_item d = None \<longrightarrow> pop_or_stop (dv_state d) \<noteq> None)
    \<and> (is_must_deliver (de_policy item) \<longrightarrow> admit_owned cfg env item (dv_state d) \<noteq> None)"
proof -
  have inv: "delivery_inv cfg d" using reachable_inv [OF assms(1)] by (simp add: assms(2))
  have wf: "ds_wf cfg (dv_state d)" and c: "counted cfg (dv_state d)"
    using inv by (simp_all add: delivery_inv_def ds_wf_def)
  have "pop_or_stop (dv_state d) \<noteq> None" if "dv_item d = None"
  proof -
    have "in_flight_lane (dv_state d) = None" using inv that by (simp add: delivery_inv_def)
    with wf show ?thesis by (cases rule: pop_or_stop_cases) simp_all
  qed
  moreover have "admit_owned cfg env item (dv_state d) \<noteq> None" if "is_must_deliver (de_policy item)"
    by (rule admit_owned_cases [OF wf that, of env]) simp_all
  moreover have "control_reserve cfg \<le> capacity cfg" by (simp only: assms(2) reserve_le)
  ultimately show ?thesis using c control_held [OF c] by (simp add: counted_def)
qed

text \<open>C38. The drainer empties the queue: started in any reachable open state with nothing in hand, and
  with no new admissions and a channel that takes every event, it sends exactly the pending events in
  order and stops with the queue idle.\<close>

theorem drainer_delivers_all:
  assumes "reachable cap d" "dv_item d = None" "\<not> ds_closed (dv_state d)"
    "length answers \<ge> length (pending_events (dv_state d))" "\<forall>a\<in>set answers. a"
  shows "\<exists>st. drainer answers (dv_state d) = Some (map de_event (pending_events (dv_state d)), st)
    \<and> ds_is_idle st \<and> \<not> ds_closed st"
  using reachable_inv [OF assms(1)] assms(2-) by (intro drainer_all) (auto simp: delivery_inv_def)


text \<open>A concrete run: with the channel full, a control event is deferred, a wake is latched behind it
  and a work result is deferred behind both.\<close>

definition full_env :: tx_env where
  "full_env = \<lparr>tx_closed = False, tx_send = SendFull, tx_spawn = True\<rparr>"

definition demo_item :: "nat \<Rightarrow> event_policy \<Rightarrow> nat deferred_event" where
  "demo_item n p = \<lparr>de_event = n, de_kind = [], de_policy = p\<rparr>"

definition demo_delivery :: "nat delivery" where
  "demo_delivery = \<lparr>dv_state = \<lparr>
       ds_queue = [demo_item 1 (MustDeliver Control), demo_item 3 (MustDeliver WorkResult)],
       ds_latched = Some \<lparr>lw_event = demo_item 2 (BestEffort []), remaining_before = 1\<rparr>,
       in_flight_lane = None, non_control_len = 1, drainer_running = True, ds_closed = False\<rparr>,
     dv_item = None, dv_accepted = [1, 2, 3], dv_sent = []\<rparr>"

lemma demo_delivery_reachable: "reachable 2 demo_delivery"
proof -
  let ?cfg = "fst (deferred_new 2 :: deferred_config \<times> nat deferred_state)"
  let ?st = "\<lparr>ds_queue = [demo_item 1 (MustDeliver Control)], ds_latched = None, in_flight_lane = None,
      non_control_len = 0, drainer_running = True, ds_closed = False\<rparr>"
  let ?d1 = "\<lparr>dv_state = ?st, dv_item = None, dv_accepted = [1], dv_sent = []\<rparr>"
  let ?d2 = "?d1\<lparr>dv_state := ?st\<lparr>ds_latched := Some \<lparr>lw_event = demo_item 2 (BestEffort []),
      remaining_before = 1\<rparr>\<rparr>, dv_accepted := [1, 2]\<rparr>"
  have "dstep ?cfg (delivery_start 2) ?d1"
    using admit_step [of ?cfg full_env "demo_item 1 (MustDeliver Control)" "delivery_start 2" "Inr Deferred" "[]" ?st]
    by (simp add: admit_owned_def full_env_def delivery_start_def deferred_new_def demo_item_def Let_def
        start_drainer_def has_capacity_def ds_push_def is_must_deliver_def)
  moreover have "dstep ?cfg ?d1 ?d2"
    using latch_step [of full_env "demo_item 2 (BestEffort [])" ?d1 "Inr Deferred" "dv_state ?d2" ?cfg]
    by (simp add: latch_wake_def full_env_def demo_item_def Let_def)
  moreover have "dstep ?cfg ?d2 demo_delivery"
    using admit_step [of ?cfg full_env "demo_item 3 (MustDeliver WorkResult)" ?d2 "Inr Deferred" "[]" "dv_state demo_delivery"]
    by (simp add: admit_owned_def full_env_def deferred_new_def demo_item_def demo_delivery_def Let_def
        start_drainer_def has_capacity_def ds_push_def is_must_deliver_def)
  ultimately show ?thesis by (meson reachable.intros)
qed


theorem delivery_bounds_witness:
  "slots (dv_state demo_delivery) \<le> 2 \<and> pop_or_stop (dv_state demo_delivery) \<noteq> None"
  using delivery_bounds [OF demo_delivery_reachable refl]
  by (simp add: deferred_new_def demo_delivery_def)

theorem drainer_delivers_all_witness:
  "\<exists>st. drainer [True, True, True] (dv_state demo_delivery) = Some ([1, 2, 3], st) \<and> ds_is_idle st"
  using drainer_delivers_all [OF demo_delivery_reachable, of "[True, True, True]"]
  by (auto simp: demo_delivery_def pending_events_def demo_item_def)


lemma emit_direct_coalesced:
  "emit_direct ops env event policy ig = Some (r, sent, ig') \<Longrightarrow> ig_coalesced ig' = ig_coalesced ig"
  by (auto simp: emit_direct_def split: event_policy.splits prod.splits Option.bind_splits)

lemma wake_owner_ok:
  assumes "wake_owner ops envs receipt ig = Some (Inr r, out, ig')"
  shows "r = receipt \<and> ig_coalesced ig' = ig_coalesced ig"
proof -
  obtain r1 sent ig1 where e: "emit_direct ops (envs 1) (op_wake ops) (op_policy ops (op_wake ops)) ig = Some (r1, sent, ig1)"
    using assms by (auto simp: wake_owner_def Let_def split: Option.bind_splits)
  show ?thesis using assms e emit_direct_coalesced [OF e]
    by (cases r1) (auto simp: wake_owner_def Let_def split: prod.splits sum.splits if_splits)
qed

text \<open>Accepting a coalesced event leaves a wake pending for the owner: whenever \<open>emit\<close> of a keyed
  latest-value or stale-able event reports success, the value is in the store and the store's wake
  flag is armed, so the owner's next drain will deliver it.\<close>

theorem coalesced_success_arms_wake:
  assumes "lb_wf (ig_coalesced ig)" "op_key ops event = Some key"
    "class_of (op_policy ops event) = cls" "\<not> is_must_deliver (op_policy ops event)"
    "policy_key (op_policy ops event) \<noteq> None"
    "emit ops envs event ig = Some (Inr receipt, out, ig')"
  shows "lb_wake_pending (ig_coalesced ig') \<and> (key, event, cls) \<in> set (entries (ig_coalesced ig'))
    \<and> lb_wf (ig_coalesced ig')"
proof -
  have "emit_coalesced ops envs event (op_policy ops event) ig = Some (Inr receipt, out, ig')"
    using assms by (auto simp: emit_def Let_def emit_stale_def while_open_def split: event_policy.splits if_splits)
  then obtain ins b where i: "insert_prioritized (ig_coalesced ig) key event cls = Some (ins, b)" "accepted ins"
    "if should_wake ins then wake_owner ops envs (Coalesced (replaced_existing ins) (evicted_oldest ins))
       (ig\<lparr>ig_coalesced := b\<rparr>) = Some (Inr receipt, out, ig') else ig' = ig\<lparr>ig_coalesced := b\<rparr>"
    using assms(2,3) by (auto simp: emit_coalesced_def Let_def split: if_splits Option.bind_splits)
  have same: "ig_coalesced ig' = b" using i(3) wake_owner_ok [of ops envs _ "ig\<lparr>ig_coalesced := b\<rparr>" receipt out ig']
    by (auto split: if_splits)
  have s: "lb_wf b" "case offer (lb_max (ig_coalesced ig)) key event cls (entries (ig_coalesced ig)) of
      None \<Rightarrow> False | Some xs \<Rightarrow> lb_wake_pending b \<and> entries b = xs"
    using insert_prioritized_spec [OF assms(1), of key event cls] i(1,2) by (auto split: option.splits)
  have "(key, event, cls) \<in> set xs" if "offer n key event cls ys = Some xs" for n ys xs
    using that by (auto simp: offer_def split: if_splits)
  then show ?thesis using s same by (auto split: option.splits)
qed

definition demo_ops :: "(nat, nat) owner_ops" where
  "demo_ops = \<lparr>op_policy = (\<lambda>n. if n = 0 then BestEffort [] else CoalesceLatest Telemetry PlayerVolume),
     op_kind = (\<lambda>_. []), op_key = (\<lambda>n. if n = 0 then None else Some n), op_wake = 0\<rparr>"

definition demo_ingress :: "(nat, nat) ingress" where
  "demo_ingress = \<lparr>ig_open = True, ig_coalesced = the (latest_new 2), ig_cfg = fst (deferred_new 4 :: _ \<times> nat deferred_state),
     ig_deferred = snd (deferred_new 4)\<rparr>"

lemma demo_ingress_wf: "lb_wf (ig_coalesced demo_ingress)"
  by (simp add: demo_ingress_def latest_new_def lb_wf_def)

theorem coalesced_success_arms_wake_witness:
  "\<exists>r out ig'. emit demo_ops (\<lambda>_. full_env) 5 demo_ingress = Some (Inr r, out, ig')
     \<and> lb_wake_pending (ig_coalesced ig') \<and> (5, 5, TelemetryClass) \<in> set (entries (ig_coalesced ig'))"
proof -
  have "\<exists>r out ig'. emit demo_ops (\<lambda>_. full_env) 5 demo_ingress = Some (Inr r, out, ig')"
    by (simp add: emit_def emit_coalesced_def wake_owner_def emit_direct_def try_direct_def latch_wake_def
        insert_prioritized_def latest_victim_def store_def while_open_def class_of_def demo_ops_def full_env_def
        demo_ingress_def deferred_new_def latest_new_def Let_def)
  then obtain r out ig' where e: "emit demo_ops (\<lambda>_. full_env) 5 demo_ingress = Some (Inr r, out, ig')" by blast
  show ?thesis using e coalesced_success_arms_wake [OF demo_ingress_wf _ _ _ _ e, of 5 TelemetryClass]
    by (simp add: demo_ops_def class_of_def is_must_deliver_def)
qed

end
