(* ===== verification/Chord.thy ===== *)
theory Chord
  imports Text
begin

text \<open>
  \<open>src/keymap/chord.rs\<close>: normalized key chords, their textual form in the configuration file and
  their mpv form, over the key codes of the vendored \<open>crates/crossterm/src/event.rs\<close>.

  A character is its scalar value; the modifiers are the 8-bit flag set of the source.
\<close>

section \<open>Keys\<close>

datatype media_key_code =
    MPlay | MPause | MPlayPause | MReverse | MStop | MFastForward
  | MRewind | MTrackNext | MTrackPrevious | MRecord | MLowerVolume | MRaiseVolume
  | MMuteVolume

datatype modifier_key_code =
    LeftShift | LeftControl | LeftAlt | LeftSuper | LeftHyper | LeftMeta
  | RightShift | RightControl | RightAlt | RightSuper | RightHyper | RightMeta
  | IsoLevel3Shift | IsoLevel5Shift

datatype key_code =
    KBackspace | KEnter | KLeft | KRight | KUp | KDown
  | KHome | KEnd | KPageUp | KPageDown | KTab | KBackTab
  | KDelete | KInsert | KF u8 | KChar nat | KNull | KEsc
  | KCapsLock | KScrollLock | KNumLock | KPrintScreen | KPause | KMenu
  | KKeypadBegin | KMedia media_key_code | KModifier modifier_key_code

type_synonym key_modifiers = u8

definition SHIFT :: key_modifiers where "SHIFT = 1"
definition CONTROL :: key_modifiers where "CONTROL = 2"
definition ALT :: key_modifiers where "ALT = 4"

definition contains :: "key_modifiers \<Rightarrow> key_modifiers \<Rightarrow> bool" where
  "contains m f \<longleftrightarrow> and m f = f"

definition intersects :: "key_modifiers \<Rightarrow> key_modifiers \<Rightarrow> bool" where
  "intersects m f \<longleftrightarrow> and m f \<noteq> 0"

definition remove_flag :: "key_modifiers \<Rightarrow> key_modifiers \<Rightarrow> key_modifiers" where
  "remove_flag m f = and m (not f)"

definition set_flag_to :: "key_modifiers \<Rightarrow> key_modifiers \<Rightarrow> bool \<Rightarrow> key_modifiers" where
  "set_flag_to m f b = (if b then or m f else remove_flag m f)"

record chord =
  ch_code :: key_code
  ch_mods :: key_modifiers

section \<open>Normalization\<close>

text \<open>The Hangul jamo of the 2-beolsik layout and the QWERTY keys they sit on.\<close>

definition korean_table :: "(nat \<times> nat) list" where
  "korean_table =
     [(12610, 113), (12616, 119), (12599, 101), (12593, 114), (12613, 116), (12635, 121), (12629, 117),
      (12625, 105), (12624, 111), (12628, 112), (12609, 97), (12596, 115), (12615, 100), (12601, 102),
      (12622, 103), (12631, 104), (12627, 106), (12623, 107), (12643, 108), (12619, 122), (12620, 120),
      (12618, 99), (12621, 118), (12640, 98), (12636, 110), (12641, 109), (12611, 81), (12617, 87),
      (12600, 69), (12594, 82), (12614, 84), (12626, 79), (12630, 80)]"

definition korean_2set_key :: "nat \<Rightarrow> nat option" where
  "korean_2set_key c = map_of korean_table c"

definition chord_new :: "key_code \<Rightarrow> key_modifiers \<Rightarrow> chord" where
  "chord_new code mods =
     (let mods = and mods (or (or CONTROL ALT) SHIFT);
          code = (if code = KTab \<and> contains mods SHIFT then KBackTab else code);
          modified_char = intersects mods (or CONTROL ALT);
          (code, mods) = (case code of
              KChar c \<Rightarrow> (case korean_2set_key c of
                  Some latin \<Rightarrow>
                    if modified_char
                    then (KChar (to_ascii_lower latin),
                          set_flag_to mods SHIFT (contains mods SHIFT \<or> is_ascii_uppercase latin))
                    else (KChar (if contains mods SHIFT \<and> is_ascii_lowercase latin
                                 then to_ascii_upper latin else latin), mods)
                | None \<Rightarrow> (code, mods))
            | _ \<Rightarrow> (code, mods));
          code = (case code of
              KChar c \<Rightarrow> if \<not> modified_char \<and> contains mods SHIFT \<and> is_ascii_lowercase c
                then KChar (to_ascii_upper c) else code
            | _ \<Rightarrow> code);
          mods = (if code = KBackTab \<or> (case code of KChar _ \<Rightarrow> \<not> modified_char | _ \<Rightarrow> False)
                  then remove_flag mods SHIFT else mods);
          code = (case code of
              KChar c \<Rightarrow> if intersects mods (or CONTROL ALT) \<and> is_ascii_alphabetic c
                then KChar (to_ascii_lower c) else code
            | _ \<Rightarrow> code)
      in \<lparr>ch_code = code, ch_mods = mods\<rparr>)"

definition is_typeable :: "chord \<Rightarrow> bool" where
  "is_typeable ch \<longleftrightarrow> (case ch_code ch of KChar _ \<Rightarrow> True | _ \<Rightarrow> False)
     \<and> \<not> contains (ch_mods ch) CONTROL \<and> \<not> contains (ch_mods ch) ALT"

section \<open>Parsing\<close>

text \<open>The names of the match in \<open>parse_code\<close>, in its order.\<close>

definition named_codes :: "(string \<times> key_code) list" where
  "named_codes =
     [(''space'', KChar 32), (''enter'', KEnter), (''return'', KEnter),
      (''esc'', KEsc), (''escape'', KEsc), (''tab'', KTab),
      (''backtab'', KBackTab), (''backspace'', KBackspace), (''bs'', KBackspace),
      (''delete'', KDelete), (''del'', KDelete), (''insert'', KInsert),
      (''ins'', KInsert), (''up'', KUp), (''down'', KDown),
      (''left'', KLeft), (''right'', KRight), (''home'', KHome),
      (''end'', KEnd), (''pageup'', KPageUp), (''pgup'', KPageUp),
      (''pagedown'', KPageDown), (''pgdn'', KPageDown), (''null'', KNull),
      (''capslock'', KCapsLock), (''caps_lock'', KCapsLock), (''scrolllock'', KScrollLock),
      (''scroll_lock'', KScrollLock), (''numlock'', KNumLock), (''num_lock'', KNumLock),
      (''printscreen'', KPrintScreen), (''print_screen'', KPrintScreen), (''prtsc'', KPrintScreen),
      (''pause'', KPause), (''menu'', KMenu), (''keypadbegin'', KKeypadBegin),
      (''keypad_begin'', KKeypadBegin), (''begin'', KKeypadBegin), (''media_play'', KMedia MPlay),
      (''media_pause'', KMedia MPause), (''media_play_pause'', KMedia MPlayPause), (''media_playpause'', KMedia MPlayPause),
      (''media_reverse'', KMedia MReverse), (''media_stop'', KMedia MStop), (''media_fast_forward'', KMedia MFastForward),
      (''media_fastforward'', KMedia MFastForward), (''media_rewind'', KMedia MRewind), (''media_track_next'', KMedia MTrackNext),
      (''media_next'', KMedia MTrackNext), (''media_track_previous'', KMedia MTrackPrevious), (''media_previous'', KMedia MTrackPrevious),
      (''media_prev'', KMedia MTrackPrevious), (''media_record'', KMedia MRecord), (''media_lower_volume'', KMedia MLowerVolume),
      (''media_volume_down'', KMedia MLowerVolume), (''media_raise_volume'', KMedia MRaiseVolume), (''media_volume_up'', KMedia MRaiseVolume),
      (''media_mute_volume'', KMedia MMuteVolume), (''media_mute'', KMedia MMuteVolume), (''left_shift'', KModifier LeftShift),
      (''left_ctrl'', KModifier LeftControl), (''left_control'', KModifier LeftControl), (''left_alt'', KModifier LeftAlt),
      (''left_super'', KModifier LeftSuper), (''left_hyper'', KModifier LeftHyper), (''left_meta'', KModifier LeftMeta),
      (''right_shift'', KModifier RightShift), (''right_ctrl'', KModifier RightControl), (''right_control'', KModifier RightControl),
      (''right_alt'', KModifier RightAlt), (''right_super'', KModifier RightSuper), (''right_hyper'', KModifier RightHyper),
      (''right_meta'', KModifier RightMeta), (''iso_level3_shift'', KModifier IsoLevel3Shift), (''iso_level_3_shift'', KModifier IsoLevel3Shift),
      (''iso_level5_shift'', KModifier IsoLevel5Shift), (''iso_level_5_shift'', KModifier IsoLevel5Shift)]"

definition code_table :: "(ustring \<times> key_code) list" where
  "code_table = map (apfst utf) named_codes"

text \<open>\<open>str::parse::<u8>\<close>: an optional plus sign and at least one digit, no overflow.\<close>

definition parse_u8 :: "ustring \<Rightarrow> u8 option" where
  "parse_u8 s =
     (let d = (if s \<noteq> [] \<and> hd s = 43 then tl s else s);
          n = foldl (\<lambda>a c. 10 * a + (c - 48)) 0 d
      in if d \<noteq> [] \<and> list_all is_ascii_digit d \<and> n < 256 then Some (of_nat n) else None)"

text \<open>The two \<open>None\<close>s of a chain of \<open>?\<close> are one: the text is empty or longer than one character.\<close>

definition parse_code :: "ustring \<Rightarrow> key_code option" where
  "parse_code t =
     (let lower = str_lower t
      in case map_of code_table lower of
           Some code \<Rightarrow> Some code
         | None \<Rightarrow>
             (case (if starts_with (utf ''f'') lower then parse_u8 (drop 1 lower) else None) of
                Some n \<Rightarrow> if 1 \<le> n \<and> n \<le> 12 then Some (KF n)
                  else (case t of [c] \<Rightarrow> Some (KChar c) | _ \<Rightarrow> None)
              | None \<Rightarrow> (case t of [c] \<Rightarrow> Some (KChar c) | _ \<Rightarrow> None)))"

text \<open>The prefixes are ASCII, so the byte slice of the source is a slice of characters.\<close>

definition strip_ci :: "ustring \<Rightarrow> ustring \<Rightarrow> ustring option" where
  "strip_ci s prefix =
     (if length s \<ge> length prefix \<and> str_lower (take (length prefix) s) = str_lower prefix
      then Some (drop (length prefix) s) else None)"

lemma strip_ci_shorter: "strip_ci s p = Some r \<Longrightarrow> p \<noteq> [] \<Longrightarrow> length r < length s"
  by (cases p; cases s) (auto simp: strip_ci_def split: if_splits)

function parse_mods :: "ustring \<Rightarrow> key_modifiers \<Rightarrow> ustring \<times> key_modifiers" where
  "parse_mods rest mods =
     (case (case strip_ci rest (utf ''ctrl+'') of Some r \<Rightarrow> Some r
            | None \<Rightarrow> strip_ci rest (utf ''control+'')) of
        Some r \<Rightarrow> parse_mods r (or mods CONTROL)
      | None \<Rightarrow> (case strip_ci rest (utf ''alt+'') of
          Some r \<Rightarrow> parse_mods r (or mods ALT)
        | None \<Rightarrow> (case strip_ci rest (utf ''shift+'') of
            Some r \<Rightarrow> parse_mods r (or mods SHIFT)
          | None \<Rightarrow> (rest, mods))))"
  by pat_completeness auto

termination parse_mods
  by (relation "measure (\<lambda>(rest, mods). length rest)")
    (auto simp: utf_def dest!: strip_ci_shorter split: option.splits)

definition parse_chord :: "ustring \<Rightarrow> chord option" where
  "parse_chord s = (let (rest, mods) = parse_mods (trim s) 0
     in map_option (\<lambda>code. chord_new code mods) (parse_code rest))"

section \<open>Printing\<close>

fun media_token :: "media_key_code \<Rightarrow> string" where
  "media_token MPlay = ''media_play''"
| "media_token MPause = ''media_pause''"
| "media_token MPlayPause = ''media_play_pause''"
| "media_token MReverse = ''media_reverse''"
| "media_token MStop = ''media_stop''"
| "media_token MFastForward = ''media_fast_forward''"
| "media_token MRewind = ''media_rewind''"
| "media_token MTrackNext = ''media_track_next''"
| "media_token MTrackPrevious = ''media_track_previous''"
| "media_token MRecord = ''media_record''"
| "media_token MLowerVolume = ''media_lower_volume''"
| "media_token MRaiseVolume = ''media_raise_volume''"
| "media_token MMuteVolume = ''media_mute_volume''"

fun modifier_token :: "modifier_key_code \<Rightarrow> string" where
  "modifier_token LeftShift = ''left_shift''"
| "modifier_token LeftControl = ''left_ctrl''"
| "modifier_token LeftAlt = ''left_alt''"
| "modifier_token LeftSuper = ''left_super''"
| "modifier_token LeftHyper = ''left_hyper''"
| "modifier_token LeftMeta = ''left_meta''"
| "modifier_token RightShift = ''right_shift''"
| "modifier_token RightControl = ''right_ctrl''"
| "modifier_token RightAlt = ''right_alt''"
| "modifier_token RightSuper = ''right_super''"
| "modifier_token RightHyper = ''right_hyper''"
| "modifier_token RightMeta = ''right_meta''"
| "modifier_token IsoLevel3Shift = ''iso_level3_shift''"
| "modifier_token IsoLevel5Shift = ''iso_level5_shift''"

fun code_token :: "key_code \<Rightarrow> string" where
  "code_token KEnter = ''enter''"
| "code_token KEsc = ''esc''"
| "code_token KTab = ''tab''"
| "code_token KBackTab = ''backtab''"
| "code_token KBackspace = ''backspace''"
| "code_token KDelete = ''delete''"
| "code_token KInsert = ''insert''"
| "code_token KUp = ''up''"
| "code_token KDown = ''down''"
| "code_token KLeft = ''left''"
| "code_token KRight = ''right''"
| "code_token KHome = ''home''"
| "code_token KEnd = ''end''"
| "code_token KPageUp = ''pageup''"
| "code_token KPageDown = ''pagedown''"
| "code_token KNull = ''null''"
| "code_token KCapsLock = ''capslock''"
| "code_token KScrollLock = ''scrolllock''"
| "code_token KNumLock = ''numlock''"
| "code_token KPrintScreen = ''printscreen''"
| "code_token KPause = ''pause''"
| "code_token KMenu = ''menu''"
| "code_token KKeypadBegin = ''keypadbegin''"
| "code_token (KMedia media) = media_token media"
| "code_token (KModifier modifier) = modifier_token modifier"
| "code_token (KF n) = ''?''"
| "code_token (KChar c) = ''?''"

text \<open>\<open>format!("{n}")\<close> of an 8-bit number.\<close>

definition show_u8 :: "u8 \<Rightarrow> ustring" where
  "show_u8 n = (let k = unat n
     in (if k \<ge> 100 then [48 + k div 100] else []) @ (if k \<ge> 10 then [48 + k div 10 mod 10] else [])
        @ [48 + k mod 10])"

definition mods_prefix :: "key_modifiers \<Rightarrow> ustring" where
  "mods_prefix mods = (if contains mods CONTROL then utf ''ctrl+'' else [])
     @ (if contains mods ALT then utf ''alt+'' else []) @ (if contains mods SHIFT then utf ''shift+'' else [])"

definition code_text :: "key_code \<Rightarrow> ustring" where
  "code_text code = (case code of
      KChar c \<Rightarrow> if c = 32 then utf ''space'' else [c]
    | KF n \<Rightarrow> utf ''f'' @ show_u8 n
    | _ \<Rightarrow> utf (code_token code))"

definition chord_to_config :: "chord \<Rightarrow> ustring" where
  "chord_to_config ch = mods_prefix (ch_mods ch) @ code_text (ch_code ch)"

definition mpv_base :: "key_code \<Rightarrow> (ustring \<times> bool) option" where
  "mpv_base code = (case code of
      KChar c \<Rightarrow> if c = 32 then Some (utf ''SPACE'', False)
        else if c < 128 \<and> \<not> (c < 32 \<or> c = 127) then Some ([c], False) else None
    | KEsc \<Rightarrow> Some (utf ''ESC'', False)
    | KLeft \<Rightarrow> Some (utf ''LEFT'', False)
    | KRight \<Rightarrow> Some (utf ''RIGHT'', False)
    | KUp \<Rightarrow> Some (utf ''UP'', False)
    | KDown \<Rightarrow> Some (utf ''DOWN'', False)
    | KEnter \<Rightarrow> Some (utf ''ENTER'', False)
    | KTab \<Rightarrow> Some (utf ''TAB'', False)
    | KBackTab \<Rightarrow> Some (utf ''TAB'', True)
    | KBackspace \<Rightarrow> Some (utf ''BS'', False)
    | KDelete \<Rightarrow> Some (utf ''DEL'', False)
    | KHome \<Rightarrow> Some (utf ''HOME'', False)
    | KEnd \<Rightarrow> Some (utf ''END'', False)
    | KPageUp \<Rightarrow> Some (utf ''PGUP'', False)
    | KPageDown \<Rightarrow> Some (utf ''PGDWN'', False)
    | KF n \<Rightarrow> if 1 \<le> n \<and> n \<le> 12 then Some (utf ''F'' @ show_u8 n, False) else None
    | _ \<Rightarrow> None)"

definition chord_to_mpv_input :: "chord \<Rightarrow> ustring option" where
  "chord_to_mpv_input ch = map_option (\<lambda>(base, inherent_shift).
     (if contains (ch_mods ch) CONTROL then utf ''Ctrl+'' else [])
     @ (if contains (ch_mods ch) ALT then utf ''Alt+'' else [])
     @ (if inherent_shift \<or> contains (ch_mods ch) SHIFT then utf ''Shift+'' else []) @ base)
     (mpv_base (ch_code ch))"


section \<open>Normal chords\<close>

lemma korean_alphabetic: "korean_2set_key c = Some l \<Longrightarrow> is_ascii_alphabetic l"
proof -
  have "list_all (\<lambda>(k, l). is_ascii_alphabetic l) korean_table"
    by (simp add: korean_table_def is_ascii_alphabetic_def is_ascii_uppercase_def is_ascii_lowercase_def)
  moreover assume "korean_2set_key c = Some l"
  then have "(c, l) \<in> set korean_table" unfolding korean_2set_key_def by (rule map_of_SomeD)
  ultimately show ?thesis by (auto simp: list_all_iff)
qed

lemma korean_ascii: "c < 128 \<Longrightarrow> korean_2set_key c = None"
proof -
  have "list_all (\<lambda>(k, l). k \<ge> 128) korean_table" by (simp add: korean_table_def)
  then show "c < 128 \<Longrightarrow> ?thesis" by (force simp: korean_2set_key_def map_of_eq_None_iff list_all_iff)
qed

lemma mods_cases:
  obtains "and (m :: u8) 7 = 0" | "and m 7 = 1" | "and m 7 = 2" | "and m 7 = 3"
  | "and m 7 = 4" | "and m 7 = 5" | "and m 7 = 6" | "and m 7 = 7"
proof -
  have "and m 7 = take_bit 3 m" by (simp add: take_bit_eq_mask mask_eq_exp_minus_1)
  then have lt: "unat (and m 7) < 8" using take_bit_nat_less_exp [of 3 "unat m"] by (simp add: unsigned_take_bit_eq)
  obtain k where k: "k = unat (and m 7)" by blast
  then have "and m 7 = word_of_nat k" by simp
  moreover have "k = 0 \<or> k = 1 \<or> k = 2 \<or> k = 3 \<or> k = 4 \<or> k = 5 \<or> k = 6 \<or> k = 7" using lt k by linarith
  ultimately show ?thesis using that by auto
qed

lemmas chord_mods_defs = contains_def intersects_def remove_flag_def set_flag_to_def SHIFT_def CONTROL_def ALT_def

text \<open>The flag operations on the eight values the normalization keeps.\<close>

lemma mods_eval:
  "contains 0 SHIFT = False" "contains 0 CONTROL = False" "contains 0 ALT = False"
  "intersects 0 (or CONTROL ALT) = False" "remove_flag 0 SHIFT = 0"
  "set_flag_to 0 SHIFT b = (if b then 1 else 0)"
  "and 0 (or (or CONTROL ALT) SHIFT) = 0"
  "contains 1 SHIFT = True" "contains 1 CONTROL = False" "contains 1 ALT = False"
  "intersects 1 (or CONTROL ALT) = False" "remove_flag 1 SHIFT = 0"
  "set_flag_to 1 SHIFT b = (if b then 1 else 0)"
  "and 1 (or (or CONTROL ALT) SHIFT) = 1"
  "contains 2 SHIFT = False" "contains 2 CONTROL = True" "contains 2 ALT = False"
  "intersects 2 (or CONTROL ALT) = True" "remove_flag 2 SHIFT = 2"
  "set_flag_to 2 SHIFT b = (if b then 3 else 2)"
  "and 2 (or (or CONTROL ALT) SHIFT) = 2"
  "contains 3 SHIFT = True" "contains 3 CONTROL = True" "contains 3 ALT = False"
  "intersects 3 (or CONTROL ALT) = True" "remove_flag 3 SHIFT = 2"
  "set_flag_to 3 SHIFT b = (if b then 3 else 2)"
  "and 3 (or (or CONTROL ALT) SHIFT) = 3"
  "contains 4 SHIFT = False" "contains 4 CONTROL = False" "contains 4 ALT = True"
  "intersects 4 (or CONTROL ALT) = True" "remove_flag 4 SHIFT = 4"
  "set_flag_to 4 SHIFT b = (if b then 5 else 4)"
  "and 4 (or (or CONTROL ALT) SHIFT) = 4"
  "contains 5 SHIFT = True" "contains 5 CONTROL = False" "contains 5 ALT = True"
  "intersects 5 (or CONTROL ALT) = True" "remove_flag 5 SHIFT = 4"
  "set_flag_to 5 SHIFT b = (if b then 5 else 4)"
  "and 5 (or (or CONTROL ALT) SHIFT) = 5"
  "contains 6 SHIFT = False" "contains 6 CONTROL = True" "contains 6 ALT = True"
  "intersects 6 (or CONTROL ALT) = True" "remove_flag 6 SHIFT = 6"
  "set_flag_to 6 SHIFT b = (if b then 7 else 6)"
  "and 6 (or (or CONTROL ALT) SHIFT) = 6"
  "contains 7 SHIFT = True" "contains 7 CONTROL = True" "contains 7 ALT = True"
  "intersects 7 (or CONTROL ALT) = True" "remove_flag 7 SHIFT = 6"
  "set_flag_to 7 SHIFT b = (if b then 7 else 6)"
  "and 7 (or (or CONTROL ALT) SHIFT) = 7"
  by (simp_all add: chord_mods_defs)

lemmas ascii_defs = is_ascii_alphabetic_def is_ascii_uppercase_def is_ascii_lowercase_def
  to_ascii_lower_def to_ascii_upper_def

lemma chord_new_idem_char:
  assumes "v = 0 \<or> v = 1 \<or> v = 2 \<or> v = 3 \<or> v = 4 \<or> v = 5 \<or> v = 6 \<or> v = 7"
  shows "chord_new (ch_code (chord_new (KChar c) v)) (ch_mods (chord_new (KChar c) v)) = chord_new (KChar c) v"
proof (cases "korean_2set_key c")
  case None
  have "korean_2set_key (to_ascii_upper c) = None" "korean_2set_key (to_ascii_lower c) = None"
    using None korean_ascii by (auto simp: ascii_defs)
  then show ?thesis using assms None
    by (elim disjE; simp add: chord_new_def mods_eval Let_def; simp add: ascii_defs)
next
  case (Some l)
  have l: "is_ascii_alphabetic l" using korean_alphabetic [OF Some] .
  then have "korean_2set_key l = None" "korean_2set_key (to_ascii_upper l) = None"
    "korean_2set_key (to_ascii_lower l) = None" using korean_ascii by (auto simp: ascii_defs)
  note none = this
  show ?thesis
  proof (cases "is_ascii_uppercase l")
    case True
    have "\<not> is_ascii_lowercase l" "is_ascii_lowercase (to_ascii_lower l)" "is_ascii_alphabetic (to_ascii_lower l)"
      using True by (auto simp: ascii_defs)
    then show ?thesis using assms Some l none True
      by (elim disjE; simp add: chord_new_def mods_eval Let_def)
  next
    case False
    then have "is_ascii_lowercase l" "\<not> is_ascii_lowercase (to_ascii_upper l)" "to_ascii_lower l = l"
      using l by (auto simp: ascii_defs)
    then show ?thesis using assms Some l none False
      by (elim disjE; simp add: chord_new_def mods_eval Let_def)
  qed
qed


lemma chord_new_masked: "chord_new code m = chord_new code (and m 7)"
proof -
  have "and m (or (or CONTROL ALT) SHIFT) = and m 7" for m :: u8
    by (simp add: chord_mods_defs)
  then show ?thesis by (simp only: chord_new_def and.assoc) simp
qed

lemma chord_new_idem_plain:
  assumes "\<forall>c. code \<noteq> KChar c"
    "v = 0 \<or> v = 1 \<or> v = 2 \<or> v = 3 \<or> v = 4 \<or> v = 5 \<or> v = 6 \<or> v = 7"
  shows "chord_new (ch_code (chord_new code v)) (ch_mods (chord_new code v)) = chord_new code v"
proof -
  have simple: "chord_new code v = \<lparr>ch_code = (if code = KTab \<and> contains v SHIFT then KBackTab else code),
      ch_mods = (if code = KBackTab \<or> code = KTab \<and> contains v SHIFT then remove_flag v SHIFT else v)\<rparr>"
    if "\<forall>c. code \<noteq> KChar c" "and v (or (or CONTROL ALT) SHIFT) = v" for code v
    using that by (cases code) (simp_all add: chord_new_def Let_def)
  have and7: "and v (or (or CONTROL ALT) SHIFT) = v" "and (remove_flag v SHIFT) (or (or CONTROL ALT) SHIFT) = remove_flag v SHIFT"
    "\<not> contains (remove_flag v SHIFT) SHIFT" "remove_flag (remove_flag v SHIFT) SHIFT = remove_flag v SHIFT"
    using assms(2) by (elim disjE; simp add: mods_eval)+
  show ?thesis using simple [OF assms(1) and7(1)] assms(1) simple [of KBackTab] and7
    by (auto simp: simple)
qed

lemma chord_new_idem: "chord_new (ch_code (chord_new code m)) (ch_mods (chord_new code m)) = chord_new code m"
proof -
  have v: "and m 7 = 0 \<or> and m 7 = 1 \<or> and m 7 = 2 \<or> and m 7 = 3 \<or> and m 7 = 4 \<or> and m 7 = 5
      \<or> and m 7 = 6 \<or> and m 7 = 7" by (cases rule: mods_cases [of m]) blast+
  show ?thesis
    unfolding chord_new_masked [of code m]
    using chord_new_idem_plain [OF _ v] chord_new_idem_char [OF v] by (cases "\<exists>c. code = KChar c") blast+
qed

lemma chord_new_mods: "ch_mods (chord_new code m) = and (ch_mods (chord_new code m)) 7"
proof -
  have v: "and m 7 = 0 \<or> and m 7 = 1 \<or> and m 7 = 2 \<or> and m 7 = 3 \<or> and m 7 = 4 \<or> and m 7 = 5
      \<or> and m 7 = 6 \<or> and m 7 = 7" by (cases rule: mods_cases [of m]) blast+
  have "\<exists>w \<in> {0, 1, 2, 3, 4, 5, 6, 7}. ch_mods (chord_new code (and m 7)) = w"
    using v by (elim disjE; auto simp: chord_new_def mods_eval Let_def split: key_code.splits option.splits)
  then show ?thesis unfolding chord_new_masked [of code m] by auto
qed

section \<open>Parsing prefixes\<close>

declare parse_mods.simps [simp del]

lemma strip_ci_append: "str_lower q = str_lower p \<Longrightarrow> strip_ci (q @ r) p = Some r"
proof -
  assume a: "str_lower q = str_lower p"
  then have "length q = length p" by (metis length_str_lower)
  then show ?thesis using a by (simp add: strip_ci_def)
qed

lemma utf_append: "utf (a @ b) = utf a @ utf b"
  by (simp add: utf_def)

lemma parse_mods_ctrl: "parse_mods (utf ''ctrl+'' @ r) m = parse_mods r (or m CONTROL)"
  by (simp add: parse_mods.simps [of "utf ''ctrl+'' @ r"] strip_ci_append)

lemma parse_mods_alt: "parse_mods (utf ''alt+'' @ r) m = parse_mods r (or m ALT)"
proof -
  have "strip_ci (utf ''alt+'' @ r) (utf ''ctrl+'') = None" "strip_ci (utf ''alt+'' @ r) (utf ''control+'') = None"
    by (auto simp: strip_ci_def utf_def str_lower_def to_ascii_lower_def is_ascii_uppercase_def)
  then show ?thesis by (simp add: parse_mods.simps [of "utf ''alt+'' @ r"] strip_ci_append)
qed

lemma parse_mods_shift: "parse_mods (utf ''shift+'' @ r) m = parse_mods r (or m SHIFT)"
proof -
  have "strip_ci (utf ''shift+'' @ r) (utf ''ctrl+'') = None" "strip_ci (utf ''shift+'' @ r) (utf ''control+'') = None"
    "strip_ci (utf ''shift+'' @ r) (utf ''alt+'') = None"
    by (auto simp: strip_ci_def utf_def str_lower_def to_ascii_lower_def is_ascii_uppercase_def)
  then show ?thesis by (simp add: parse_mods.simps [of "utf ''shift+'' @ r"] strip_ci_append)
qed

text \<open>A text that starts with none of the four prefixes.\<close>

definition bare :: "ustring \<Rightarrow> bool" where
  "bare s \<longleftrightarrow> strip_ci s (utf ''ctrl+'') = None \<and> strip_ci s (utf ''control+'') = None
     \<and> strip_ci s (utf ''alt+'') = None \<and> strip_ci s (utf ''shift+'') = None"

lemma parse_mods_bare: "bare s \<Longrightarrow> parse_mods s m = (s, m)"
  by (simp add: bare_def parse_mods.simps [of s])

lemma parse_mods_prefix:
  assumes "bare s" "v = 0 \<or> v = 1 \<or> v = 2 \<or> v = 3 \<or> v = 4 \<or> v = 5 \<or> v = 6 \<or> v = 7"
  shows "parse_mods (mods_prefix v @ s) 0 = (s, v)"
  using assms(2)
  by (elim disjE; simp add: mods_prefix_def mods_eval parse_mods_ctrl parse_mods_alt parse_mods_shift
      parse_mods_bare [OF assms(1)]; simp add: chord_mods_defs)

text \<open>What a printed key code satisfies: no modifier prefix, no white space at its ends, and it
  parses back.\<close>

definition code_ok :: "key_code \<Rightarrow> bool" where
  "code_ok code \<longleftrightarrow> bare (code_text code) \<and> trimmed (code_text code) \<and> code_text code \<noteq> []
     \<and> parse_code (code_text code) = Some code"

lemma mods_prefix_head: "mods_prefix v @ s = [] \<or> hd (mods_prefix v @ s) = hd s \<and> mods_prefix v = []
    \<or> \<not> is_whitespace (hd (mods_prefix v @ s))"
  by (simp add: mods_prefix_def utf_def is_whitespace_def)

lemma roundtrip_ok:
  assumes "code_ok code" "v = 0 \<or> v = 1 \<or> v = 2 \<or> v = 3 \<or> v = 4 \<or> v = 5 \<or> v = 6 \<or> v = 7"
    "chord_new code v = \<lparr>ch_code = code, ch_mods = v\<rparr>"
  shows "parse_chord (chord_to_config \<lparr>ch_code = code, ch_mods = v\<rparr>) = Some \<lparr>ch_code = code, ch_mods = v\<rparr>"
proof -
  let ?t = "mods_prefix v @ code_text code"
  have "\<not> is_whitespace (hd ?t)" "\<not> is_whitespace (last ?t)"
    using assms(1) mods_prefix_head [of v "code_text code"] by (auto simp: code_ok_def trimmed_def)
  then have "trim ?t = ?t" by (intro trim_id) (simp add: trimmed_def)
  then show ?thesis using assms parse_mods_prefix [of "code_text code" v]
    by (simp add: parse_chord_def chord_to_config_def code_ok_def)
qed


text \<open>The codes a configuration can name: every key but function keys beyond F12 and white-space
  characters other than the blank.\<close>

definition nameable :: "key_code \<Rightarrow> bool" where
  "nameable code = (case code of
      KF n \<Rightarrow> 1 \<le> n \<and> n \<le> 12
    | KChar c \<Rightarrow> c = 32 \<or> \<not> is_whitespace c
    | _ \<Rightarrow> True)"

lemmas text_eval = code_ok_def bare_def strip_ci_def utf_def str_lower_def to_ascii_lower_def
  is_ascii_uppercase_def trimmed_def is_whitespace_def code_text_def

lemma parse_code_named: "map_of code_table (str_lower t) = Some code \<Longrightarrow> parse_code t = Some code"
  by (simp add: parse_code_def)

lemma code_ok_char: "\<not> is_whitespace c \<Longrightarrow> code_ok (KChar c)"
proof -
  assume w: "\<not> is_whitespace c"
  then have c: "c \<noteq> 32" by (auto simp: is_whitespace_def)
  have long: "list_all (\<lambda>(s, _). length s \<ge> 2) code_table" by (simp add: code_table_def named_codes_def utf_def)
  have "map_of code_table (str_lower [c]) = None"
    using long by (force simp: map_of_eq_None_iff list_all_iff str_lower_def)
  then have "parse_code [c] = Some (KChar c)"
    by (auto simp: parse_code_def Let_def parse_u8_def str_lower_def split: option.splits if_splits)
  then show ?thesis using w c by (simp add: code_ok_def code_text_def bare_def strip_ci_def utf_def trimmed_def)
qed

lemma u8_1_12: "1 \<le> n \<Longrightarrow> n \<le> 12 \<Longrightarrow> n \<in> {1, 2, 3, 4, 5, 6, 7, 8, 9, 10, 11, 12 :: u8}"
proof -
  assume "1 \<le> n" "n \<le> 12"
  then have n: "unat n \<ge> 1" "unat n \<le> 12" by (simp_all add: word_le_nat_alt)
  obtain k where k: "n = word_of_nat k" "k = unat n" by simp
  have "k = 1 \<or> k = 2 \<or> k = 3 \<or> k = 4 \<or> k = 5 \<or> k = 6 \<or> k = 7
      \<or> k = 8 \<or> k = 9 \<or> k = 10 \<or> k = 11 \<or> k = 12" using n unfolding k(2) [symmetric] by presburger
  then show ?thesis unfolding k(1) by (elim disjE) simp_all
qed

lemma code_ok_F: "1 \<le> n \<Longrightarrow> n \<le> 12 \<Longrightarrow> code_ok (KF n)"
  using u8_1_12 [of n]
  by (auto simp: text_eval show_u8_def parse_code_def code_table_def named_codes_def starts_with_def
      parse_u8_def is_ascii_digit_def)


lemma code_ok_32: "code_ok (KChar 32)"
  by (simp add: text_eval parse_code_def code_table_def named_codes_def)

lemma code_ok_media: "code_ok (KMedia m)"
  by (cases m) (simp_all add: text_eval parse_code_def code_table_def named_codes_def)

lemma code_ok_modifier: "code_ok (KModifier m)"
  by (cases m) (simp_all add: text_eval parse_code_def code_table_def named_codes_def)

lemma code_ok_nameable: "nameable code \<Longrightarrow> code_ok code"
proof (cases code)
  case (KF n)
  then show "nameable code \<Longrightarrow> ?thesis" by (simp add: nameable_def code_ok_F)
next
  case (KChar c)
  then show "nameable code \<Longrightarrow> ?thesis" by (auto simp: nameable_def code_ok_32 code_ok_char)
next
  case (KMedia m)
  then show ?thesis by (simp add: code_ok_media)
next
  case (KModifier m)
  then show ?thesis by (simp add: code_ok_modifier)
qed (simp_all add: text_eval parse_code_def code_table_def named_codes_def)

section \<open>Properties\<close>

text \<open>C40. The configuration form of a chord parses back to the same chord: for every chord the
  normalization produces from a key a configuration can name, printing and parsing is the identity.\<close>

theorem chord_config_roundtrip:
  assumes "ch = chord_new code mods" "nameable (ch_code ch)"
  shows "parse_chord (chord_to_config ch) = Some ch"
proof -
  have v: "ch_mods ch = 0 \<or> ch_mods ch = 1 \<or> ch_mods ch = 2 \<or> ch_mods ch = 3 \<or> ch_mods ch = 4 \<or> ch_mods ch = 5
      \<or> ch_mods ch = 6 \<or> ch_mods ch = 7"
    using chord_new_mods [of code mods] unfolding assms(1) [symmetric]
    by (cases rule: mods_cases [of "ch_mods ch"]) (metis, metis, metis, metis, metis, metis, metis, metis)
  have "chord_new (ch_code ch) (ch_mods ch) = \<lparr>ch_code = ch_code ch, ch_mods = ch_mods ch\<rparr>"
    using chord_new_idem [of code mods] by (simp add: assms(1))
  then show ?thesis using roundtrip_ok [OF code_ok_nameable [OF assms(2)] v] by (cases ch) simp
qed

theorem chord_config_roundtrip_witness:
  "parse_chord (chord_to_config \<lparr>ch_code = KChar 120, ch_mods = 3\<rparr>) = Some \<lparr>ch_code = KChar 120, ch_mods = 3\<rparr>"
proof -
  have "chord_new (KChar 88) 3 = \<lparr>ch_code = KChar 120, ch_mods = 3\<rparr>"
    by (simp add: chord_new_def mods_eval korean_ascii ascii_defs Let_def)
  then show ?thesis using chord_config_roundtrip [of "\<lparr>ch_code = KChar 120, ch_mods = 3\<rparr>" "KChar 88" 3]
    by (simp add: nameable_def is_whitespace_def)
qed

text \<open>Normalizing a chord is idempotent, leaves only the control, alt and shift flags, and makes a
  shifted tab, a plain upper-case letter and a letter of the Korean layout one chord with the key they
  stand for: a normalized plain character carries no shift, and one with control or alt is not an
  upper-case letter.\<close>

theorem chord_normal_form:
  fixes code mods
  defines "ch \<equiv> chord_new code mods"
  shows "chord_new (ch_code ch) (ch_mods ch) = ch \<and> and (ch_mods ch) 7 = ch_mods ch
    \<and> (ch_code ch = KChar c \<longrightarrow> korean_2set_key c = None
         \<and> (if intersects (ch_mods ch) (or CONTROL ALT) then \<not> is_ascii_uppercase c
            else \<not> contains (ch_mods ch) SHIFT))"
proof -
  have v: "and mods 7 = 0 \<or> and mods 7 = 1 \<or> and mods 7 = 2 \<or> and mods 7 = 3 \<or> and mods 7 = 4
      \<or> and mods 7 = 5 \<or> and mods 7 = 6 \<or> and mods 7 = 7" by (cases rule: mods_cases [of mods]) blast+
  have lower: "korean_2set_key (to_ascii_lower l) = None" "korean_2set_key (to_ascii_upper l) = None"
    if "is_ascii_alphabetic l" for l using that korean_ascii by (auto simp: ascii_defs)
  have same: "korean_2set_key (to_ascii_lower l) = None" "korean_2set_key (to_ascii_upper l) = None"
    if "korean_2set_key l = None" for l
    using that lower [of l] by (cases "is_ascii_alphabetic l"; auto simp: ascii_defs)+
  have "ch_code (chord_new code (and mods 7)) = KChar c \<longrightarrow> korean_2set_key c = None
         \<and> (if intersects (ch_mods (chord_new code (and mods 7))) (or CONTROL ALT) then \<not> is_ascii_uppercase c
            else \<not> contains (ch_mods (chord_new code (and mods 7))) SHIFT)"
  proof (cases "\<exists>d. code = KChar d")
    case True
    then obtain d where d: "code = KChar d" by blast
    show ?thesis
    proof (cases "korean_2set_key d")
      case None
      then show ?thesis using v d same [OF None]
        by (elim disjE; auto simp: chord_new_def mods_eval Let_def is_ascii_alphabetic_def)
    next
      case (Some l)
      have l: "is_ascii_alphabetic l" using korean_alphabetic [OF Some] .
      have n: "korean_2set_key l = None" using l korean_ascii by (auto simp: ascii_defs)
      have up: "\<not> is_ascii_lowercase (to_ascii_upper l)" by (auto simp: ascii_defs)
      show ?thesis using v d Some l lower [OF l] n same [OF n] up
        by (elim disjE; auto simp: chord_new_def mods_eval Let_def split: if_splits)
    qed
  next
    case False
    then show ?thesis by (cases code) (auto simp: chord_new_def Let_def)
  qed
  then show ?thesis using chord_new_idem chord_new_mods chord_new_masked by (metis ch_def)
qed

theorem chord_normal_form_witness:
  "korean_2set_key 113 = None \<and> \<not> is_ascii_uppercase 113"
proof -
  have "chord_new (KChar 12611) 2 = \<lparr>ch_code = KChar 113, ch_mods = 3\<rparr>"
    by (simp add: chord_new_def mods_eval ascii_defs Let_def korean_2set_key_def korean_table_def)
  then show ?thesis using chord_normal_form [where code = "KChar 12611" and mods = 2 and c = 113]
    by (simp add: mods_eval)
qed

end
