(* ===== verification/OrderedMap.thy ===== *)
theory OrderedMap
  imports Text "HOL-Library.Option_ord"
begin

text \<open>
  \<open>BTreeMap\<close> of the Rust standard library as a list of entries with strictly ascending keys, so
  that equal maps are equal lists and iteration is in key order.  \<open>om_upsert\<close> is the entry idiom
  \<open>entry(k).and_modify(f).or_insert(v)\<close>.  The locale \<open>ordered_map\<close> is the interface the clients
  rest on: what a lookup returns after an insertion, and that a map is determined by its lookups.
\<close>

definition om_wf :: "('k :: linorder \<times> 'v) list \<Rightarrow> bool" where
  "om_wf m \<longleftrightarrow> sorted_wrt (<) (map fst m)"

definition om_get :: "('k :: linorder \<times> 'v) list \<Rightarrow> 'k \<Rightarrow> 'v option" where
  "om_get m k = map_of m k"

fun om_insert :: "'k :: linorder \<Rightarrow> 'v \<Rightarrow> ('k \<times> 'v) list \<Rightarrow> ('k \<times> 'v) list" where
  "om_insert k v [] = [(k, v)]"
| "om_insert k v ((k', v') # m) =
     (if k < k' then (k, v) # (k', v') # m
      else if k = k' then (k, v) # m
      else (k', v') # om_insert k v m)"

definition om_remove :: "'k :: linorder \<Rightarrow> ('k \<times> 'v) list \<Rightarrow> ('k \<times> 'v) list" where
  "om_remove k m = filter (\<lambda>(k', _). k' \<noteq> k) m"

definition om_upsert :: "'k :: linorder \<Rightarrow> ('v \<Rightarrow> 'v) \<Rightarrow> 'v \<Rightarrow> ('k \<times> 'v) list \<Rightarrow> ('k \<times> 'v) list" where
  "om_upsert k f v m = om_insert k (case om_get m k of None \<Rightarrow> v | Some x \<Rightarrow> f x) m"

definition om_keys :: "('k :: linorder \<times> 'v) list \<Rightarrow> 'k list" where
  "om_keys m = map fst m"

section \<open>Laws\<close>

lemma om_wf_Nil [simp]: "om_wf []"
  by (simp add: om_wf_def)

lemma om_get_Nil [simp]: "om_get [] k = None"
  by (simp add: om_get_def)

lemma om_get_Cons: "om_get ((k, v) # m) k' = (if k' = k then Some v else om_get m k')"
  by (simp add: om_get_def)

lemma om_wf_Cons: "om_wf ((k, v) # m) \<longleftrightarrow> om_wf m \<and> (\<forall>k' \<in> fst ` set m. k < k')"
  by (auto simp: om_wf_def)

lemma om_insert_keys: "fst ` set (om_insert k v m) = insert k (fst ` set m)"
  by (induction k v m rule: om_insert.induct) auto

lemma om_insert_wf: "om_wf m \<Longrightarrow> om_wf (om_insert k v m)"
proof (induction k v m rule: om_insert.induct)
  case (1 k v)
  then show ?case by (simp add: om_wf_Cons)
next
  case (2 k v k' v' m)
  then show ?case by (auto simp: om_wf_Cons om_insert_keys)
qed

lemma om_get_notin: "k \<notin> fst ` set m \<Longrightarrow> om_get m k = None"
  by (simp add: om_get_def map_of_eq_None_iff)

lemma om_get_insert: "om_get (om_insert k v m) k' = (if k' = k then Some v else om_get m k')"
  by (induction k v m rule: om_insert.induct) (auto simp: om_get_def)

lemma om_wf_distinct: "om_wf m \<Longrightarrow> distinct (map fst m)"
  by (simp add: om_wf_def strict_sorted_iff)

lemma om_get_iff: "om_wf m \<Longrightarrow> om_get m k = Some v \<longleftrightarrow> (k, v) \<in> set m"
  by (simp add: om_get_def om_wf_distinct)

lemma om_ext:
  assumes "om_wf m" "om_wf m'" "om_get m = om_get m'"
  shows "m = m'"
proof -
  have "set m = set m'" using om_get_iff [OF assms(1)] om_get_iff [OF assms(2)] assms(3) by auto
  then show ?thesis using assms(1,2) map_sorted_distinct_set_unique [of fst m m']
    by (auto simp: om_wf_def strict_sorted_iff intro!: map_sorted_distinct_set_unique [of fst])
      (metis eq_key_imp_eq_value fst_conv inj_onI om_wf_def om_wf_distinct surjective_pairing assms(1,2))
qed

lemma om_keys_iff: "k \<in> set (om_keys m) \<longleftrightarrow> om_get m k \<noteq> None"
  by (simp add: om_keys_def om_get_def map_of_eq_None_iff)

lemma om_get_upsert: "om_get (om_upsert k f v m) k' =
    (if k' = k then Some (case om_get m k of None \<Rightarrow> v | Some x \<Rightarrow> f x) else om_get m k')"
  by (simp add: om_upsert_def om_get_insert)

lemma om_upsert_wf: "om_wf m \<Longrightarrow> om_wf (om_upsert k f v m)"
  by (simp add: om_upsert_def om_insert_wf)

lemma om_wf_filter: "om_wf m \<Longrightarrow> om_wf (filter P m)"
  by (induction m) (auto simp: om_wf_Cons)

lemma om_get_remove: "om_get (om_remove k m) k' = (if k' = k then None else om_get m k')"
  by (induction m) (auto simp: om_remove_def om_get_def)

section \<open>Maps all of whose entries have a property\<close>

definition om_all :: "('k :: linorder \<Rightarrow> 'v \<Rightarrow> bool) \<Rightarrow> ('k \<times> 'v) list \<Rightarrow> bool" where
  "om_all P m \<longleftrightarrow> om_wf m \<and> (\<forall>k v. om_get m k = Some v \<longrightarrow> P k v)"

lemma om_all_wf: "om_all P m \<Longrightarrow> om_wf m"
  by (simp add: om_all_def)

lemma om_all_get: "om_all P m \<Longrightarrow> om_get m k = Some v \<Longrightarrow> P k v"
  by (simp add: om_all_def)

lemma om_all_set: "om_all P m \<Longrightarrow> (k, v) \<in> set m \<Longrightarrow> P k v"
  by (simp add: om_all_def om_get_iff [symmetric])

lemma om_all_Nil [simp]: "om_all P []"
  by (simp add: om_all_def)

lemma om_all_insert: "om_all P m \<Longrightarrow> P k v \<Longrightarrow> om_all P (om_insert k v m)"
  by (simp add: om_all_def om_insert_wf om_get_insert)

lemma om_remove_wf: "om_wf m \<Longrightarrow> om_wf (om_remove k m)"
  by (simp add: om_remove_def om_wf_filter)

lemma om_all_remove: "om_all P m \<Longrightarrow> om_all P (om_remove k m)"
  by (simp add: om_all_def om_get_remove om_remove_wf)

lemma om_all_upsert: "om_all P m \<Longrightarrow> (\<And>x. om_get m k = Some x \<Longrightarrow> P k (f x)) \<Longrightarrow> P k v \<Longrightarrow> om_all P (om_upsert k f v m)"
  by (auto simp: om_upsert_def intro!: om_all_insert split: option.split)

lemma om_all_foldl:
  "om_all P m \<Longrightarrow> (\<And>m x. om_all P m \<Longrightarrow> x \<in> set xs \<Longrightarrow> om_all P (f m x)) \<Longrightarrow> om_all P (foldl f m xs)"
  by (induction xs arbitrary: m) simp_all

lemma om_all_filter: "om_all P m \<Longrightarrow> om_all P (filter Q m)"
  by (auto simp: om_all_def om_wf_filter om_get_iff)

lemma om_get_filter: "om_wf m \<Longrightarrow> om_get (filter (\<lambda>x. P (snd x)) m) k =
    (case om_get m k of None \<Rightarrow> None | Some v \<Rightarrow> if P v then Some v else None)"
proof (induction m)
  case (Cons x m)
  obtain j v where x: "x = (j, v)" by (cases x)
  have m: "om_wf m" "om_get m j = None" using Cons.prems om_get_notin [of j m] by (auto simp: x om_wf_Cons)
  show ?case using Cons.IH [OF m(1)] m(2) by (cases "k = j") (simp_all add: x om_get_Cons)
qed simp

locale ordered_map =
  fixes wf :: "'m \<Rightarrow> bool" and get :: "'m \<Rightarrow> 'k \<Rightarrow> 'v option"
    and ins :: "'k \<Rightarrow> 'v \<Rightarrow> 'm \<Rightarrow> 'm" and empty_map :: 'm
  assumes wf_empty: "wf empty_map" and get_empty: "get empty_map k = None"
    and wf_ins: "wf m \<Longrightarrow> wf (ins k v m)"
    and get_ins: "wf m \<Longrightarrow> get (ins k v m) k' = (if k' = k then Some v else get m k')"
    and map_ext: "wf m \<Longrightarrow> wf m' \<Longrightarrow> (\<And>k. get m k = get m' k) \<Longrightarrow> m = m'"
begin

text \<open>Insertions under different keys commute, and the last insertion under a key wins.\<close>

lemma ins_commute: "wf m \<Longrightarrow> k \<noteq> k' \<Longrightarrow> ins k v (ins k' v' m) = ins k' v' (ins k v m)"
  by (rule map_ext) (auto simp: wf_ins get_ins)

lemma ins_same: "wf m \<Longrightarrow> ins k v (ins k v' m) = ins k v m"
  by (rule map_ext) (auto simp: wf_ins get_ins)

end

interpretation omap: ordered_map om_wf om_get om_insert "[]"
  by unfold_locales (auto simp: om_insert_wf om_get_insert intro: om_ext)

end
