(* ===== verification/PersonalModel.thy ===== *)
theory PersonalModel
  imports OrderedMap
begin

text \<open>
  \<open>src/personal_state/model.rs\<close>: the portable personal-state ledger.  Operations carry a causal
  stamp (a dot and the version vector its author had observed); the registry of devices is derived
  from the membership operations of the ledger.

  The payloads of two operations, the imported baseline and the listening change, are type
  parameters: no function below looks into them.  The check of a device's public keys rests on the
  crates \<open>age\<close>, \<open>base64\<close> and \<open>ed25519_dalek\<close> and is the parameter \<open>check_identity\<close>.
\<close>

definition MAX_OPERATIONS :: nat where "MAX_OPERATIONS = 250000"
definition MAX_DEVICES :: nat where "MAX_DEVICES = 256"
definition MAX_TEXT_CHARS :: nat where "MAX_TEXT_CHARS = 1024"
definition MAX_TRACK_ID_CHARS :: nat where "MAX_TRACK_ID_CHARS = 512"

datatype personal_state_error =
    UnsupportedKind | UnsupportedSchema u32 | EmptyIdentifier string | IdentifierTooLong string
  | InvalidVersionVector | DuplicateDot | ConflictingOperationId | ConflictingDeviceIdentity
  | TooManyOperations | TooManyDevices | InvalidOperation string | Serialization ustring | Io ustring
  | ProjectionMismatch

type_synonym 'a outcome = "personal_state_error + 'a"

fun bind_ok :: "'a outcome \<Rightarrow> ('a \<Rightarrow> 'b outcome) \<Rightarrow> 'b outcome" where
  "bind_ok (Inl e) f = Inl e"
| "bind_ok (Inr x) f = f x"

section \<open>Dots, version vectors and stamps\<close>

type_synonym device_id = ustring
type_synonym playlist_id = ustring
type_synonym playlist_entry_id = ustring

record dot =
  dot_device :: device_id
  dot_sequence :: u64

type_synonym version_vector = "(device_id \<times> u64) list"

definition vv_observed :: "version_vector \<Rightarrow> device_id \<Rightarrow> u64" where
  "vv_observed v device = (case om_get v device of None \<Rightarrow> 0 | Some n \<Rightarrow> n)"

definition vv_observe :: "version_vector \<Rightarrow> dot \<Rightarrow> version_vector" where
  "vv_observe v d = om_upsert (dot_device d) (\<lambda>n. max n (dot_sequence d)) (dot_sequence d) v"

definition vv_covers :: "version_vector \<Rightarrow> dot \<Rightarrow> bool" where
  "vv_covers v d \<longleftrightarrow> vv_observed v (dot_device d) \<ge> dot_sequence d"

definition vv_merge :: "version_vector \<Rightarrow> version_vector \<Rightarrow> version_vector" where
  "vv_merge v other = foldl (\<lambda>v (device, n). om_upsert device (\<lambda>c. max c n) n v) v other"

record causal_stamp =
  stamp_dot :: dot
  stamp_observed :: version_vector
  recorded_at_unix :: int

definition happens_after :: "causal_stamp \<Rightarrow> causal_stamp \<Rightarrow> bool" where
  "happens_after s other \<longleftrightarrow> vv_covers (stamp_observed s) (stamp_dot other)"

section \<open>Operations\<close>

datatype rating = Neutral | Liked | Disliked

datatype portable_track_key =
    Catalog ustring ustring
  | OpenSubsonicKey ustring ustring ustring
  | LocalPlaceholder ustring

record portable_track =
  pt_key :: portable_track_key
  pt_title :: ustring
  pt_artist :: ustring
  pt_album :: "ustring option"
  pt_duration_secs :: "u32 option"
  pt_isrc :: "ustring option"

datatype engagement_kind = Play | QuickSkip | Completion

datatype operation_origin = OriginLocal | OriginWebDav | OriginOpenSubsonic ustring | OriginImported

datatype explore = Tight | Balanced | Wide

record device_public_identity =
  age_recipient :: ustring
  ed25519_verifying_key :: ustring

record device_record =
  dev_id :: device_id
  dev_name :: ustring
  dev_revoked :: bool
  dev_public_identity :: "device_public_identity option"

datatype ('b, 'l) operation =
    SetRating portable_track rating
  | RecordEngagement ustring portable_track engagement_kind "u64 option" "u64 option" ustring
  | SetRadioFavorite portable_track bool
  | UpsertPlaylist playlist_id ustring
  | DeletePlaylist playlist_id bool
  | UpsertPlaylistEntry playlist_id playlist_entry_id portable_track "playlist_entry_id option"
  | MovePlaylistEntry playlist_id playlist_entry_id "playlist_entry_id option"
  | RemovePlaylistEntry playlist_id playlist_entry_id bool
  | SetStationProfile "ustring option" explore
  | SetAvoidArtist ustring bool
  | BindTrack portable_track_key portable_track_key
  | AddDevice device_record
  | RevokeDevice device_id
  | LegacyBaseline 'b
  | Listening 'l

record ('b, 'l) operation_envelope =
  operation_id :: ustring
  op_stamp :: causal_stamp
  op_origin :: operation_origin
  operation :: "('b, 'l) operation"

section \<open>Validation\<close>

definition forbidden_char :: "nat \<Rightarrow> bool" where
  "forbidden_char c \<longleftrightarrow> is_control c \<or> c = 0x061c \<or> (0x200b \<le> c \<and> c \<le> 0x200f)
     \<or> (0x202a \<le> c \<and> c \<le> 0x202e) \<or> (0x2066 \<le> c \<and> c \<le> 0x2069) \<or> c = 0xfeff"

definition validate_id :: "string \<Rightarrow> ustring \<Rightarrow> nat \<Rightarrow> unit outcome" where
  "validate_id field s max_chars =
     (if trim s = [] then Inl (EmptyIdentifier field)
      else if length s > max_chars \<or> list_ex forbidden_char s then Inl (IdentifierTooLong field)
      else Inr ())"

definition validate_text :: "string \<Rightarrow> ustring \<Rightarrow> unit outcome" where
  "validate_text field s =
     (if length s > MAX_TEXT_CHARS \<or> list_ex forbidden_char s then Inl (InvalidOperation field) else Inr ())"

fun validate_version_vector :: "version_vector \<Rightarrow> unit outcome" where
  "validate_version_vector [] = Inr ()"
| "validate_version_vector ((device, n) # v) =
     bind_ok (validate_id ''version-vector device id'' device MAX_TRACK_ID_CHARS) (\<lambda>_.
       if n = 0 then Inl InvalidVersionVector else validate_version_vector v)"

definition validate_device_record ::
    "(device_public_identity \<Rightarrow> unit outcome) \<Rightarrow> device_record \<Rightarrow> bool \<Rightarrow> unit outcome" where
  "validate_device_record check_identity device allow_revoked =
     bind_ok (validate_id ''device id'' (dev_id device) MAX_TRACK_ID_CHARS) (\<lambda>_.
     bind_ok (validate_text ''device name'' (dev_name device)) (\<lambda>_.
       if dev_revoked device \<and> \<not> allow_revoked
       then Inl (InvalidOperation ''AddDevice cannot add a revoked device'')
       else case dev_public_identity device of None \<Rightarrow> Inr () | Some identity \<Rightarrow> check_identity identity))"

section \<open>The device registry\<close>

type_synonym device_registry = "(device_id \<times> device_record) list"

definition merge_device_addition :: "device_record \<Rightarrow> device_record \<Rightarrow> device_record outcome" where
  "merge_device_addition existing candidate =
     (case (dev_public_identity existing, dev_public_identity candidate) of
        (Some left, Some right) \<Rightarrow>
          if left \<noteq> right then Inl ConflictingDeviceIdentity
          else if dev_name candidate < dev_name existing
            then Inr (existing\<lparr>dev_name := dev_name candidate\<rparr>) else Inr existing
      | (None, Some identity) \<Rightarrow>
          Inr (existing\<lparr>dev_name := dev_name candidate, dev_public_identity := Some identity\<rparr>)
      | (Some _, None) \<Rightarrow> Inr existing
      | (None, None) \<Rightarrow>
          if dev_name candidate < dev_name existing
          then Inr (existing\<lparr>dev_name := dev_name candidate\<rparr>) else Inr existing)"

text \<open>The first loop of \<open>derive_device_registry\<close>: the additions so far and the set of revoked ids.\<close>

definition registry_step ::
    "(device_public_identity \<Rightarrow> unit outcome) \<Rightarrow> ('b, 'l) operation \<Rightarrow> device_registry \<times> device_id set
      \<Rightarrow> (device_registry \<times> device_id set) outcome" where
  "registry_step check_identity op st = (case st of (additions, revoked) \<Rightarrow> (case op of
      AddDevice device \<Rightarrow>
        if dev_revoked device then Inl (InvalidOperation ''AddDevice cannot add a revoked device'')
        else bind_ok (validate_device_record check_identity device False) (\<lambda>_.
          case om_get additions (dev_id device) of
            Some existing \<Rightarrow> bind_ok (merge_device_addition existing device) (\<lambda>merged.
              Inr (om_insert (dev_id device) merged additions, revoked))
          | None \<Rightarrow> Inr (om_insert (dev_id device) device additions, revoked))
    | RevokeDevice device_id \<Rightarrow>
        bind_ok (validate_id ''device id'' device_id MAX_TRACK_ID_CHARS) (\<lambda>_.
          Inr (additions, insert device_id revoked))
    | _ \<Rightarrow> Inr st))"

fun registry_loop ::
    "(device_public_identity \<Rightarrow> unit outcome) \<Rightarrow> ('b, 'l) operation_envelope list
      \<Rightarrow> device_registry \<times> device_id set \<Rightarrow> (device_registry \<times> device_id set) outcome" where
  "registry_loop check_identity [] st = Inr st"
| "registry_loop check_identity (envelope # ops) st =
     bind_ok (registry_step check_identity (operation envelope) st) (registry_loop check_identity ops)"

definition revoke_device :: "device_registry \<Rightarrow> device_id \<Rightarrow> device_registry" where
  "revoke_device additions device_id = om_upsert device_id (\<lambda>d. d\<lparr>dev_revoked := True\<rparr>)
     \<lparr>dev_id = device_id, dev_name = utf ''Revoked device'', dev_revoked = True, dev_public_identity = None\<rparr>
     additions"

definition derive_device_registry ::
    "(device_public_identity \<Rightarrow> unit outcome) \<Rightarrow> ('b, 'l) operation_envelope list \<Rightarrow> device_registry outcome" where
  "derive_device_registry check_identity ops =
     bind_ok (registry_loop check_identity ops ([], {})) (\<lambda>(additions, revoked).
       let additions = foldl revoke_device additions (sorted_list_of_set revoked)
       in if length additions > MAX_DEVICES then Inl TooManyDevices else Inr additions)"

fun ok_part :: "'e + 'a \<Rightarrow> 'a option" where
  "ok_part (Inl e) = None"
| "ok_part (Inr x) = Some x"

lemma ok_part_bind [simp]: "ok_part (bind_ok r f) = Option.bind (ok_part r) (\<lambda>x. ok_part (f x))"
  by (cases r) simp_all

section \<open>Version vectors\<close>

lemma vv_observed_upsert: "om_wf v \<Longrightarrow> vv_observed (om_upsert d (\<lambda>c. max c n) n v) d'
    = (if d' = d then max (vv_observed v d) n else vv_observed v d')"
  by (auto simp: vv_observed_def om_get_upsert split: option.split)

lemma vv_merge_Nil [simp]: "vv_merge v [] = v"
  by (simp add: vv_merge_def)

lemma vv_merge_Cons [simp]: "vv_merge v ((d, n) # w) = vv_merge (om_upsert d (\<lambda>c. max c n) n v) w"
  by (simp add: vv_merge_def)

lemma vv_merge_wf: "om_wf v \<Longrightarrow> om_wf (vv_merge v w)"
  by (induction w arbitrary: v) (auto simp: om_upsert_wf)

definition join :: "u64 option \<Rightarrow> u64 option \<Rightarrow> u64 option" where
  "join a b = (case a of None \<Rightarrow> b | Some x \<Rightarrow> (case b of None \<Rightarrow> a | Some y \<Rightarrow> Some (max x y)))"

lemma join_simps [simp]: "join None b = b" "join a None = a" "join (Some x) (Some y) = Some (max x y)"
  by (simp_all add: join_def split: option.split)

lemma join_comm: "join a b = join b a"
  by (cases a; cases b) (simp_all add: max.commute)

lemma join_assoc: "join (join a b) c = join a (join b c)"
  by (cases a; cases b; cases c) (simp_all add: max.assoc)

lemma join_idem: "join a a = a"
  by (cases a) simp_all

lemma vv_get_merge: "om_wf v \<Longrightarrow> om_wf w \<Longrightarrow> om_get (vv_merge v w) d = join (om_get v d) (om_get w d)"
proof (induction w arbitrary: v)
  case Nil
  then show ?case by simp
next
  case (Cons p w)
  obtain e n where p: "p = (e, n)" by (cases p)
  have w: "om_wf w" "e \<notin> fst ` set w" using Cons.prems(2) by (auto simp: p om_wf_Cons)
  have "om_get (vv_merge v (p # w)) d = join (om_get (om_upsert e (\<lambda>c. max c n) n v) d) (om_get w d)"
    using Cons.IH w(1) Cons.prems(1) by (simp add: p om_upsert_wf)
  also have "\<dots> = join (om_get v d) (om_get (p # w) d)"
    using om_get_notin [OF w(2)] Cons.prems(1)
    by (cases "om_get v e") (simp_all add: om_get_upsert p om_get_Cons)
  finally show ?case .
qed

lemma vv_observed_merge:
  "om_wf v \<Longrightarrow> om_wf w \<Longrightarrow> vv_observed (vv_merge v w) d = max (vv_observed v d) (vv_observed w d)"
  by (cases "om_get v d"; cases "om_get w d") (simp_all add: vv_observed_def vv_get_merge)

lemma vv_merge_comm: "om_wf v \<Longrightarrow> om_wf w \<Longrightarrow> vv_merge v w = vv_merge w v"
  by (rule om_ext) (auto simp: vv_merge_wf vv_get_merge join_comm fun_eq_iff)

lemma vv_merge_assoc:
  "om_wf u \<Longrightarrow> om_wf v \<Longrightarrow> om_wf w \<Longrightarrow> vv_merge (vv_merge u v) w = vv_merge u (vv_merge v w)"
  by (rule om_ext) (auto simp: vv_merge_wf vv_get_merge join_assoc fun_eq_iff)

lemma vv_merge_idem: "om_wf v \<Longrightarrow> vv_merge v v = v"
  by (rule om_ext) (auto simp: vv_merge_wf vv_get_merge join_idem fun_eq_iff)

section \<open>Additions commute\<close>

definition may_add :: "(device_public_identity \<Rightarrow> unit outcome) \<Rightarrow> device_record \<Rightarrow> bool" where
  "may_add check d \<longleftrightarrow> \<not> dev_revoked d \<and> ok_part (validate_device_record check d False) \<noteq> None"

definition merged :: "device_record option \<Rightarrow> device_record \<Rightarrow> device_record option" where
  "merged e d = (case e of None \<Rightarrow> Some d | Some e \<Rightarrow> ok_part (merge_device_addition e d))"

definition add_step :: "device_record \<Rightarrow> device_registry \<Rightarrow> device_registry option" where
  "add_step d m = map_option (\<lambda>r. om_insert (dev_id d) r m) (merged (om_get m (dev_id d)) d)"

fun op_step :: "(device_public_identity \<Rightarrow> unit outcome) \<Rightarrow> ('b, 'l) operation
    \<Rightarrow> device_registry \<times> device_id set \<Rightarrow> (device_registry \<times> device_id set) option" where
  "op_step check (AddDevice d) (m, r) = (if may_add check d then map_option (\<lambda>m. (m, r)) (add_step d m) else None)"
| "op_step check (RevokeDevice i) (m, r) =
     (if ok_part (validate_id ''device id'' i MAX_TRACK_ID_CHARS) = None then None else Some (m, insert i r))"
| "op_step check _ st = Some st"

lemma op_step_registry_step: "op_step check op st = ok_part (registry_step check op st)"
proof (cases st)
  case (Pair m r)
  show ?thesis
  proof (cases "\<exists>d. op = AddDevice d")
    case True
    then obtain d where op: "op = AddDevice d" by blast
    show ?thesis
      by (cases "ok_part (validate_device_record check d False)")
        (auto simp: op Pair registry_step_def may_add_def add_step_def merged_def bind_map_option o_def
          map_conv_bind_option split: option.split)
  next
    case False
    then show ?thesis
      by (cases op) (auto simp: Pair registry_step_def not_Some_eq split: Option.bind_split)
  qed
qed

lemma registry_loop_run:
  "ok_part (registry_loop check ops st) = run_steps (\<lambda>e. op_step check (operation e)) ops st"
proof (induction ops arbitrary: st)
  case Nil
  then show ?case by simp
next
  case (Cons e ops)
  then show ?case by (cases "op_step check (operation e) st") (auto simp: op_step_registry_step)
qed

lemma merged_comm:
  assumes "dev_id d = dev_id d'" "\<not> dev_revoked d" "\<not> dev_revoked d'"
  shows "Option.bind (merged e d) (\<lambda>m. merged (Some m) d') = Option.bind (merged e d') (\<lambda>m. merged (Some m) d)"
proof (cases e)
  case None
  then show ?thesis using assms
    by (cases "dev_public_identity d"; cases "dev_public_identity d'")
      (auto simp: merged_def merge_device_addition_def)
next
  case (Some x)
  then show ?thesis using assms
    by (cases "dev_public_identity d"; cases "dev_public_identity d'"; cases "dev_public_identity x")
      (auto simp: merged_def merge_device_addition_def)
qed

lemma add_step_get: "om_wf m \<Longrightarrow> add_step d m = Some m' \<Longrightarrow>
    om_wf m' \<and> (\<forall>k. om_get m' k = (if k = dev_id d then merged (om_get m (dev_id d)) d else om_get m k))"
  by (auto simp: add_step_def om_insert_wf om_get_insert)

lemma add_step_comm:
  assumes "om_wf m" "\<not> dev_revoked d" "\<not> dev_revoked d'"
  shows "Option.bind (add_step d m) (add_step d') = Option.bind (add_step d' m) (add_step d)"
proof (cases "dev_id d = dev_id d'")
  case True
  have "Option.bind (add_step a m) (add_step b) = map_option (\<lambda>r. om_insert (dev_id a) r m)
      (Option.bind (merged (om_get m (dev_id a)) a) (\<lambda>x. merged (Some x) b))" if "dev_id a = dev_id b" for a b
    using that assms(1) omap.ins_same [OF assms(1)]
    by (cases "merged (om_get m (dev_id a)) a") (auto simp: add_step_def om_get_insert o_def option.map_comp)
  then show ?thesis using merged_comm [OF True assms(2,3)] True by metis
next
  case False
  then show ?thesis using assms(1) omap.ins_commute [OF assms(1) False]
    by (cases "merged (om_get m (dev_id d)) d"; cases "merged (om_get m (dev_id d')) d'")
      (auto simp: add_step_def om_get_insert)
qed

lemma op_step_comm:
  assumes "om_wf (fst st)"
  shows "Option.bind (op_step check a st) (op_step check b) = Option.bind (op_step check b st) (op_step check a)"
proof -
  obtain m r where st: "st = (m, r)" by (cases st)
  show ?thesis
  proof (cases "\<exists>d d'. a = AddDevice d \<and> b = AddDevice d'")
    case True
    then obtain d d' where ab: "a = AddDevice d" "b = AddDevice d'" by blast
    show ?thesis
    proof (cases "may_add check d \<and> may_add check d'")
      case True
      have run: "Option.bind (op_step check (AddDevice x) st) (op_step check (AddDevice y))
          = map_option (\<lambda>m. (m, r)) (Option.bind (add_step x m) (add_step y))"
        if "may_add check x" "may_add check y" for x y
        using that by (cases "add_step x m") (auto simp: st)
      have "Option.bind (add_step d m) (add_step d') = Option.bind (add_step d' m) (add_step d)"
        using True assms by (intro add_step_comm) (simp_all add: st may_add_def)
      then show ?thesis using run [of d d'] run [of d' d] conjunct1 [OF True] conjunct2 [OF True]
        unfolding ab by metis
    next
      case False
      then show ?thesis by (cases "add_step d m"; cases "add_step d' m") (auto simp: ab st)
    qed
  next
    case False
    then show ?thesis
      by (cases a; cases b) (auto simp: st insert_commute bind_map_option o_def split: Option.bind_split)
  qed
qed

text \<open>Adding the same record again changes nothing.\<close>

lemma merged_idem: "Option.bind (merged e d) (\<lambda>m. merged (Some m) d) = merged e d"
  by (cases e; cases "dev_public_identity d")
    (auto simp: merged_def merge_device_addition_def split: option.splits)

lemma op_step_idem:
  assumes "om_wf (fst st)"
  shows "Option.bind (op_step check op st) (op_step check op) = op_step check op st"
proof (cases "\<exists>d. op = AddDevice d")
  case True
  then obtain d where op: "op = AddDevice d" by blast
  obtain m r where st: "st = (m, r)" by (cases st)
  have "Option.bind (add_step d m) (add_step d) = add_step d m"
    using merged_idem [of "om_get m (dev_id d)" d] omap.ins_same assms
    by (cases "merged (om_get m (dev_id d)) d") (auto simp: add_step_def om_get_insert st)
  then show ?thesis by (cases "add_step d m") (auto simp: op st)
next
  case False
  then show ?thesis by (cases op; cases st) auto
qed

interpretation registry: absorbing_steps "\<lambda>st. om_wf (fst st)" "\<lambda>_. True"
    "\<lambda>e :: ('b, 'l) operation_envelope. op_step check (operation e)"
  for check :: "device_public_identity \<Rightarrow> unit outcome"
proof unfold_locales
  fix s t :: "device_registry \<times> device_id set" and x :: "('b, 'l) operation_envelope"
  assume "om_wf (fst s)" "op_step check (operation x) s = Some t"
  then show "om_wf (fst t)" by (cases s; cases "operation x") (auto dest: add_step_get split: if_splits)
qed (rule op_step_comm op_step_idem, assumption)+

section \<open>What the registry holds\<close>

definition none_revoked :: "device_registry \<Rightarrow> bool" where
  "none_revoked m \<longleftrightarrow> (\<forall>i d. om_get m i = Some d \<longrightarrow> \<not> dev_revoked d)"

lemma op_step_cases:
  assumes "op_step check op (m, r) = Some (m', r')"
  obtains (add) d where "op = AddDevice d" "may_add check d" "add_step d m = Some m'" "r' = r"
    | (revoke) i where "op = RevokeDevice i" "m' = m" "r' = insert i r"
    | (other) "m' = m" "r' = r" "\<And>d. op \<noteq> AddDevice d" "\<And>i. op \<noteq> RevokeDevice i"
  using assms by (cases op) (auto split: if_splits)

lemma add_step_keys:
  assumes "om_wf m" "add_step d m = Some m'"
  shows "om_get m' i \<noteq> None \<longleftrightarrow> om_get m i \<noteq> None \<or> dev_id d = i"
proof -
  have "merged (om_get m (dev_id d)) d \<noteq> None" using assms(2) by (auto simp: add_step_def)
  then show ?thesis using add_step_get [OF assms] by auto
qed

lemma op_step_keys:
  assumes "op_step check op (m, r) = Some (m', r')" "om_wf m"
  shows "om_get m' i \<noteq> None \<longleftrightarrow> om_get m i \<noteq> None \<or> (\<exists>d. op = AddDevice d \<and> dev_id d = i)"
    and "i \<in> r' \<longleftrightarrow> i \<in> r \<or> op = RevokeDevice i" and "om_wf m'"
proof -
  show "om_get m' i \<noteq> None \<longleftrightarrow> om_get m i \<noteq> None \<or> (\<exists>d. op = AddDevice d \<and> dev_id d = i)"
    using assms(1)
  proof (cases rule: op_step_cases)
    case (add d)
    then show ?thesis using add_step_keys [OF assms(2) add(3), of i] by simp
  qed simp_all
  show "i \<in> r' \<longleftrightarrow> i \<in> r \<or> op = RevokeDevice i"
    using assms(1) by (cases rule: op_step_cases) auto
  show "om_wf m'" using assms(1)
    by (cases rule: op_step_cases) (simp_all add: assms(2) add_step_get [OF assms(2)])
qed

lemma merged_unrevoked: "\<not> dev_revoked d \<Longrightarrow> merged e d = Some x \<Longrightarrow>
    (\<And>y. e = Some y \<Longrightarrow> \<not> dev_revoked y) \<Longrightarrow> \<not> dev_revoked x"
  by (auto simp: merged_def merge_device_addition_def split: option.splits if_splits)

lemma op_step_none_revoked:
  assumes "op_step check op (m, r) = Some (m', r')" "om_wf m" "none_revoked m"
  shows "none_revoked m'"
  using assms(1)
proof (cases rule: op_step_cases)
  case (add d)
  have "\<not> dev_revoked x" if "merged (om_get m (dev_id d)) d = Some x" for x
    using merged_unrevoked [OF _ that] add(2) assms(3) by (auto simp: may_add_def none_revoked_def)
  then show ?thesis using add_step_get [OF assms(2) add(3)] assms(3) by (auto simp: none_revoked_def)
qed (simp_all add: assms(3))

lemma run_steps_registry:
  assumes "run_steps (\<lambda>e. op_step check (operation e)) ops (m, r) = Some (m', r')" "om_wf m"
  shows "om_wf m' \<and> (none_revoked m \<longrightarrow> none_revoked m')
     \<and> (\<forall>i. i \<in> r' \<longleftrightarrow> i \<in> r \<or> (\<exists>e \<in> set ops. operation e = RevokeDevice i))
     \<and> (\<forall>i. om_get m' i \<noteq> None \<longleftrightarrow>
          om_get m i \<noteq> None \<or> (\<exists>e \<in> set ops. \<exists>d. operation e = AddDevice d \<and> dev_id d = i))"
  using assms
proof (induction ops arbitrary: m r)
  case Nil
  then show ?case by simp
next
  case (Cons e ops)
  then obtain m1 r1 where step: "op_step check (operation e) (m, r) = Some (m1, r1)"
    and run: "run_steps (\<lambda>e. op_step check (operation e)) ops (m1, r1) = Some (m', r')"
    by (cases "op_step check (operation e) (m, r)") auto
  note keys = op_step_keys [OF step Cons.prems(2)]
  note IH = Cons.IH [OF run keys(3)]
  have "none_revoked m \<longrightarrow> none_revoked m'" using IH op_step_none_revoked [OF step Cons.prems(2)] by blast
  moreover have "i \<in> r' \<longleftrightarrow> i \<in> r \<or> (\<exists>e \<in> set (e # ops). operation e = RevokeDevice i)" for i
    using IH keys(2) [of i] by simp
  moreover have "om_get m' i \<noteq> None \<longleftrightarrow>
      om_get m i \<noteq> None \<or> (\<exists>e \<in> set (e # ops). \<exists>d. operation e = AddDevice d \<and> dev_id d = i)" for i
    using IH keys(1) [of i] by simp
  ultimately show ?case using IH by blast
qed

lemma revoke_device_get: "om_wf m \<Longrightarrow> om_wf (revoke_device m i) \<and> (\<forall>k. om_get (revoke_device m i) k =
    (if k = i then Some (case om_get m i of
         None \<Rightarrow> \<lparr>dev_id = i, dev_name = utf ''Revoked device'', dev_revoked = True, dev_public_identity = None\<rparr>
       | Some d \<Rightarrow> d\<lparr>dev_revoked := True\<rparr>) else om_get m k))"
  by (simp add: revoke_device_def om_upsert_wf om_get_upsert)

lemma foldl_revoke:
  assumes "om_wf m"
  shows "om_wf (foldl revoke_device m is)
    \<and> (\<forall>k. om_get (foldl revoke_device m is) k \<noteq> None \<longleftrightarrow> om_get m k \<noteq> None \<or> k \<in> set is)
    \<and> (\<forall>k d. om_get (foldl revoke_device m is) k = Some d \<longrightarrow>
        (dev_revoked d \<longleftrightarrow> k \<in> set is \<or> (\<exists>d. om_get m k = Some d \<and> dev_revoked d)))"
  using assms
proof (induction "is" arbitrary: m)
  case Nil
  then show ?case by simp
next
  case (Cons i "is")
  note get = revoke_device_get [OF Cons.prems, of i]
  then show ?case using Cons.IH [of "revoke_device m i"] by (auto split: if_splits option.splits)
qed

lemma derive_ok_part: "ok_part (derive_device_registry check ops) =
    Option.bind (run_steps (\<lambda>e. op_step check (operation e)) ops ([], {})) (\<lambda>(m, r).
      if length (foldl revoke_device m (sorted_list_of_set r)) > MAX_DEVICES then None
      else Some (foldl revoke_device m (sorted_list_of_set r)))"
  unfolding derive_device_registry_def registry_loop_run [symmetric]
  by (cases "registry_loop check ops ([], {})") (auto simp: Let_def)

lemma ok_part_Some [simp]: "ok_part r = Some x \<longleftrightarrow> r = Inr x"
  by (cases r) auto

text \<open>C10. The registry derived from a ledger.  When \<open>derive_device_registry\<close> succeeds, a device is in
  the registry exactly when some operation adds or revokes it, and it is revoked exactly when some
  operation revokes it: a revocation wins over every addition, whatever the order, and nothing else
  revokes a device.  There are at most 256 devices.\<close>

theorem registry_membership:
  assumes "derive_device_registry check ops = Inr reg"
  shows "(om_get reg i \<noteq> None \<longleftrightarrow>
           RevokeDevice i \<in> operation ` set ops \<or> (\<exists>d. AddDevice d \<in> operation ` set ops \<and> dev_id d = i))
    \<and> ((\<exists>d. om_get reg i = Some d \<and> dev_revoked d) \<longleftrightarrow> RevokeDevice i \<in> operation ` set ops)
    \<and> om_wf reg \<and> length reg \<le> 256"
proof -
  have "ok_part (derive_device_registry check ops) = Some reg" using assms by simp
  then obtain m r where run: "run_steps (\<lambda>e. op_step check (operation e)) ops ([], {}) = Some (m, r)"
    and reg: "reg = foldl revoke_device m (sorted_list_of_set r)" and len: "length reg \<le> MAX_DEVICES"
    unfolding derive_ok_part by (auto simp: bind_eq_Some_conv split: if_splits)
  note loop = run_steps_registry [OF run om_wf_Nil]
  have "r \<subseteq> (\<lambda>e. case operation e of RevokeDevice i \<Rightarrow> i | _ \<Rightarrow> []) ` set ops"
  proof
    fix i assume "i \<in> r"
    then obtain e where "e \<in> set ops" "operation e = RevokeDevice i" using loop by auto
    then show "i \<in> (\<lambda>e. case operation e of RevokeDevice i \<Rightarrow> i | _ \<Rightarrow> []) ` set ops"
      by (intro image_eqI [of _ _ e]) simp_all
  qed
  then have "finite r" by (rule finite_subset) simp
  then have r: "k \<in> set (sorted_list_of_set r) \<longleftrightarrow> RevokeDevice k \<in> operation ` set ops" for k
    using loop by (simp add: image_iff eq_commute)
  have none: "\<not> dev_revoked d" if "om_get m k = Some d" for k d
    using loop that by (simp add: none_revoked_def)
  have keys: "om_get m k \<noteq> None \<longleftrightarrow> (\<exists>d. AddDevice d \<in> operation ` set ops \<and> dev_id d = k)" for k
  proof -
    have "(\<exists>d. AddDevice d \<in> operation ` set ops \<and> dev_id d = k)
        \<longleftrightarrow> (\<exists>e \<in> set ops. \<exists>d. operation e = AddDevice d \<and> dev_id d = k)" by (force simp: image_iff)
    then show ?thesis using loop by simp
  qed
  note rev = foldl_revoke [of m "sorted_list_of_set r", folded reg, unfolded r]
  have "om_wf m" using loop by blast
  then have wf: "om_wf reg" and dom: "om_get reg i \<noteq> None \<longleftrightarrow>
      om_get m i \<noteq> None \<or> RevokeDevice i \<in> operation ` set ops"
    and revd: "\<And>d. om_get reg i = Some d \<Longrightarrow> dev_revoked d \<longleftrightarrow> RevokeDevice i \<in> operation ` set ops"
    using rev none by blast+
  have "(\<exists>d. om_get reg i = Some d \<and> dev_revoked d) \<longleftrightarrow> RevokeDevice i \<in> operation ` set ops"
    using dom revd by (cases "om_get reg i") blast+
  then show ?thesis using wf dom keys len by (auto simp: MAX_DEVICES_def)
qed

definition phone :: device_record where
  "phone = \<lparr>dev_id = utf ''p'', dev_name = utf ''Phone'', dev_revoked = False, dev_public_identity = None\<rparr>"

definition ledger_entry :: "u64 \<Rightarrow> (unit, unit) operation \<Rightarrow> (unit, unit) operation_envelope" where
  "ledger_entry n op = \<lparr>operation_id = [], op_stamp = \<lparr>stamp_dot = \<lparr>dot_device = utf ''a'', dot_sequence = n\<rparr>,
     stamp_observed = [], recorded_at_unix = 0\<rparr>, op_origin = OriginLocal, operation = op\<rparr>"

definition small_ledger :: "(unit, unit) operation_envelope list" where
  "small_ledger = [ledger_entry 1 (RevokeDevice (utf ''p'')), ledger_entry 2 (AddDevice phone),
     ledger_entry 3 (AddDevice (phone\<lparr>dev_name := utf ''My phone''\<rparr>))]"

lemmas registry_eval = derive_device_registry_def small_ledger_def ledger_entry_def phone_def
  registry_step_def validate_device_record_def validate_id_def validate_text_def
  merge_device_addition_def revoke_device_def om_upsert_def om_get_def trim_def trim_start_def trim_end_def
  is_whitespace_def forbidden_char_def is_control_def utf_def MAX_TRACK_ID_CHARS_def MAX_TEXT_CHARS_def MAX_DEVICES_def

lemma small_ledger_registry: "derive_device_registry (\<lambda>_. Inr ()) small_ledger =
    Inr [(utf ''p'', phone\<lparr>dev_name := utf ''My phone'', dev_revoked := True\<rparr>)]"
  by (simp add: registry_eval)

theorem registry_membership_witness:
  "\<exists>d. om_get [(utf ''p'', phone\<lparr>dev_name := utf ''My phone'', dev_revoked := True\<rparr>)] (utf ''p'') = Some d \<and> dev_revoked d"
  using registry_membership [OF small_ledger_registry, of "utf ''p''"]
  by (simp add: small_ledger_def ledger_entry_def)

lemma derive_set: "set ops = set ops' \<Longrightarrow>
    ok_part (derive_device_registry check ops) = ok_part (derive_device_registry check ops')"
  using registry.steps_set [of "([], {})" ops ops' check] derive_ok_part [of check ops]
    derive_ok_part [of check ops'] by simp

text \<open>C9. The registry converges.  Two replicas that hold the same operations, in whatever order and
  however often each is repeated, derive the same registry, or both refuse: additions of one
  device commute (the lexically least name wins, an enrolled identity and its name win over a legacy
  placeholder, two different identities are a conflict in either order).\<close>

theorem registry_converges:
  assumes "set ops = set ops'"
  shows "derive_device_registry check ops = Inr reg \<longleftrightarrow> derive_device_registry check ops' = Inr reg"
  using derive_set [OF assms, of check] by (simp add: ok_part_Some [symmetric] del: ok_part_Some)

theorem registry_converges_witness:
  "derive_device_registry (\<lambda>_. Inr ()) (rev (small_ledger @ small_ledger)) =
     Inr [(utf ''p'', phone\<lparr>dev_name := utf ''My phone'', dev_revoked := True\<rparr>)]"
  using registry_converges [of "small_ledger" "rev (small_ledger @ small_ledger)" "\<lambda>_. Inr ()"
      "[(utf ''p'', phone\<lparr>dev_name := utf ''My phone'', dev_revoked := True\<rparr>)]"]
    small_ledger_registry by simp

text \<open>Version vectors form a join semilattice under \<open>merge\<close> (commutative, associative, idempotent
  on ordered maps), and the join covers a dot exactly when one of the two vectors does.\<close>

theorem version_vectors_join:
  assumes "om_wf u" "om_wf v" "om_wf w"
  shows "vv_merge u v = vv_merge v u \<and> vv_merge (vv_merge u v) w = vv_merge u (vv_merge v w)
    \<and> vv_merge v v = v \<and> (vv_covers (vv_merge u v) d \<longleftrightarrow> vv_covers u d \<or> vv_covers v d)"
  using vv_merge_comm [of u v] vv_merge_assoc [of u v w] vv_merge_idem [of v] assms
  by (auto simp: vv_covers_def vv_observed_merge max_def)

theorem version_vectors_join_witness:
  "vv_merge [(utf ''a'', 3)] [(utf ''b'', 1)] = vv_merge [(utf ''b'', 1)] [(utf ''a'', 3)]"
  using version_vectors_join [of "[(utf ''a'', 3)]" "[(utf ''b'', 1)]" "[]"] by (simp add: om_wf_def)

end
