(* ===== verification/Ledger.thy ===== *)
theory Ledger
  imports PersonalModel "HOL-Library.Product_Lexorder"
begin

text \<open>
  The whole ledger: \<open>PersonalStateV2\<close> with its validation and normalisation
  (\<open>src/personal_state/model.rs\<close>), the rules for compaction checkpoints
  (\<open>src/personal_state/compaction.rs\<close>) and the merge of two replicas
  (\<open>merge\<close> of \<open>src/personal_state/reducer.rs\<close>).

  What the validation asks of the payloads is the record \<open>rules\<close>: the public keys of a device (crates
  \<open>age\<close>, \<open>base64\<close>, \<open>ed25519_dalek\<close>), the imported baseline (its check reads floating-point values), the
  listening change with the device of its resume provenance, and the checkpoint hash (\<open>serde_json\<close> and
  \<open>sha2\<close>).  A \<open>BTreeSet\<close> of ids is a strictly ascending list.
\<close>

definition PERSONAL_STATE_KIND :: ustring where "PERSONAL_STATE_KIND = utf ''yututui_personal_state''"
definition PERSONAL_STATE_SCHEMA_VERSION :: u32 where "PERSONAL_STATE_SCHEMA_VERSION = 2"
definition PERSONAL_STATE_LISTENING_SCHEMA_VERSION :: u32 where "PERSONAL_STATE_LISTENING_SCHEMA_VERSION = 3"
definition ENGAGEMENT_EVENTS_MAX :: nat where "ENGAGEMENT_EVENTS_MAX = 20000"

type_synonym id_set = "ustring list"

record leader_authorization =
  membership_epoch :: u64
  membership_head_hash :: ustring
  leader_device_id :: device_id
  introducing_checkpoint_sequence :: u64
  introducing_checkpoint_parent_hash :: ustring
  authorization_signature :: ustring

record compaction_checkpoint =
  checkpoint_id :: ustring
  compaction_generation :: u64
  coverage :: version_vector
  previous_checkpoint_hash :: "ustring option"
  retained_engagement_operations :: id_set
  retained_listening_operations :: id_set
  leader_authorization :: "leader_authorization option"
  acknowledged_by :: id_set

record state_metadata =
  source_app_version :: ustring
  contains_listening_history :: bool
  credentials_included :: bool
  filesystem_paths_included :: bool
  playable_urls_included :: bool

record ('b, 'l) personal_state =
  ps_kind :: ustring
  schema_version :: u32
  dataset_id :: ustring
  ps_revision :: u64
  ps_registry :: device_registry
  ps_version_vector :: version_vector
  ps_operations :: "('b, 'l) operation_envelope list"
  ps_checkpoint :: "compaction_checkpoint option"
  ps_metadata :: state_metadata
  projection_fingerprint :: "ustring option"

record ('b, 'l) rules =
  check_identity :: "device_public_identity \<Rightarrow> unit outcome"
  check_baseline :: "'b \<Rightarrow> unit outcome"
  check_listening :: "'l \<Rightarrow> unit outcome"
  resume_device :: "'l \<Rightarrow> device_id option"
  checkpoint_hash :: "ustring \<Rightarrow> u64 \<Rightarrow> version_vector \<Rightarrow> ustring option \<Rightarrow> id_set \<Rightarrow> id_set
    \<Rightarrow> ('b, 'l) operation_envelope list \<Rightarrow> ustring outcome"

section \<open>Sequences of checks\<close>

fun checks :: "unit outcome list \<Rightarrow> unit outcome" where
  "checks [] = Inr ()"
| "checks (r # rs) = (case r of Inl e \<Rightarrow> Inl e | Inr _ \<Rightarrow> checks rs)"

definition ensure :: "bool \<Rightarrow> personal_state_error \<Rightarrow> unit outcome" where
  "ensure b e = (if b then Inr () else Inl e)"

fun when_some :: "('a \<Rightarrow> unit outcome) \<Rightarrow> 'a option \<Rightarrow> unit outcome" where
  "when_some f None = Inr ()"
| "when_some f (Some x) = f x"

section \<open>Validation of tracks and operations\<close>

definition MAX_SERVER_ID_BYTES :: nat where "MAX_SERVER_ID_BYTES = 512"

definition is_forbidden_id_character :: "nat \<Rightarrow> bool" where
  "is_forbidden_id_character c \<longleftrightarrow> is_control c \<or> (0x200b \<le> c \<and> c \<le> 0x200f)
     \<or> (0x202a \<le> c \<and> c \<le> 0x202e) \<or> (0x2066 \<le> c \<and> c \<le> 0x2069) \<or> c = 0xfeff"

text \<open>\<open>BackendId::new\<close> and its siblings succeed.\<close>

definition server_id_ok :: "ustring \<Rightarrow> bool" where
  "server_id_ok s \<longleftrightarrow> s \<noteq> [] \<and> byte_len s \<le> MAX_SERVER_ID_BYTES \<and> \<not> list_ex is_forbidden_id_character s"

fun validate_key :: "portable_track_key \<Rightarrow> unit outcome" where
  "validate_key (Catalog provider exact_id) = checks [
     validate_id ''track provider'' provider 64,
     validate_id ''catalog track id'' exact_id MAX_TRACK_ID_CHARS]"
| "validate_key (OpenSubsonicKey backend account item) = checks [
     validate_id ''backend id'' backend MAX_TRACK_ID_CHARS,
     validate_id ''account scope id'' account MAX_TRACK_ID_CHARS,
     validate_id ''server item id'' item MAX_TRACK_ID_CHARS,
     ensure (server_id_ok backend) (InvalidOperation ''invalid OpenSubsonic backend identity''),
     ensure (server_id_ok account) (InvalidOperation ''invalid OpenSubsonic account identity''),
     ensure (server_id_ok item) (InvalidOperation ''invalid OpenSubsonic item identity'')]"
| "validate_key (LocalPlaceholder placeholder) =
     validate_id ''portable placeholder id'' placeholder MAX_TRACK_ID_CHARS"

definition validate_track :: "portable_track \<Rightarrow> unit outcome" where
  "validate_track t = checks [
     validate_key (pt_key t),
     validate_text ''track title'' (pt_title t),
     validate_text ''track artist'' (pt_artist t),
     when_some (validate_text ''track album'') (pt_album t),
     when_some (\<lambda>isrc. validate_id ''ISRC'' isrc 64) (pt_isrc t)]"

definition validate_optional_text :: "string \<Rightarrow> ustring \<Rightarrow> unit outcome" where
  "validate_optional_text field s = (if s = [] then Inr () else validate_text field s)"

text \<open>\<open>u64::saturating_mul\<close>.\<close>

definition saturating_mul :: "u64 \<Rightarrow> u64 \<Rightarrow> u64" where
  "saturating_mul a b = (if unat a * unat b < 2 ^ 64 then a * b else - 1)"

definition check_following :: "playlist_entry_id \<Rightarrow> playlist_entry_id option \<Rightarrow> unit outcome" where
  "check_following entry_id after_id = checks [
     ensure (after_id \<noteq> Some entry_id) (InvalidOperation ''playlist entry cannot follow itself''),
     when_some (\<lambda>a. validate_id ''previous playlist entry id'' a MAX_TRACK_ID_CHARS) after_id]"

fun validate_operation :: "('b, 'l) rules \<Rightarrow> ('b, 'l) operation \<Rightarrow> unit outcome" where
  "validate_operation rules (SetRating t _) = validate_track t"
| "validate_operation rules (RecordEngagement event_id t _ played_ms total_ms artist_key) = checks [
     validate_id ''event id'' event_id 256,
     validate_track t,
     validate_optional_text ''artist key'' artist_key,
     (case (played_ms, total_ms) of
        (Some p, Some n) \<Rightarrow> ensure (\<not> (n > 0 \<and> p > saturating_mul n 4))
          (InvalidOperation ''played duration is outside the accepted bound'')
      | _ \<Rightarrow> Inr ())]"
| "validate_operation rules (SetRadioFavorite station _) = validate_track station"
| "validate_operation rules (UpsertPlaylist playlist_id name) = checks [
     validate_id ''playlist id'' playlist_id MAX_TRACK_ID_CHARS,
     validate_text ''playlist name'' name]"
| "validate_operation rules (DeletePlaylist playlist_id _) =
     validate_id ''playlist id'' playlist_id MAX_TRACK_ID_CHARS"
| "validate_operation rules (UpsertPlaylistEntry playlist_id entry_id t after_id) = checks [
     validate_id ''playlist id'' playlist_id MAX_TRACK_ID_CHARS,
     validate_id ''playlist entry id'' entry_id MAX_TRACK_ID_CHARS,
     check_following entry_id after_id,
     validate_track t]"
| "validate_operation rules (MovePlaylistEntry playlist_id entry_id after_id) = checks [
     validate_id ''playlist id'' playlist_id MAX_TRACK_ID_CHARS,
     validate_id ''playlist entry id'' entry_id MAX_TRACK_ID_CHARS,
     check_following entry_id after_id]"
| "validate_operation rules (RemovePlaylistEntry playlist_id entry_id _) = checks [
     validate_id ''playlist id'' playlist_id MAX_TRACK_ID_CHARS,
     validate_id ''playlist entry id'' entry_id MAX_TRACK_ID_CHARS]"
| "validate_operation rules (SetStationProfile query _) = when_some (validate_text ''station query'') query"
| "validate_operation rules (SetAvoidArtist artist_key _) = validate_text ''station artist key'' artist_key"
| "validate_operation rules (BindTrack placeholder target) = checks [validate_key placeholder, validate_key target]"
| "validate_operation rules (AddDevice device) = checks [
     ensure (\<not> dev_revoked device) (InvalidOperation ''AddDevice cannot add a revoked device''),
     validate_device_record (check_identity rules) device False]"
| "validate_operation rules (RevokeDevice device_id) = validate_id ''device id'' device_id MAX_TRACK_ID_CHARS"
| "validate_operation rules (LegacyBaseline baseline) = check_baseline rules baseline"
| "validate_operation rules (Listening change) = check_listening rules change"

fun validate_origin :: "operation_origin \<Rightarrow> unit outcome" where
  "validate_origin (OriginOpenSubsonic backend_id) = validate_id ''origin backend id'' backend_id MAX_TRACK_ID_CHARS"
| "validate_origin _ = Inr ()"

definition validate_listening_author :: "('b, 'l) rules \<Rightarrow> ('b, 'l) operation_envelope \<Rightarrow> unit outcome" where
  "validate_listening_author rules e = (case operation e of
      Listening change \<Rightarrow> (case resume_device rules change of
          Some device \<Rightarrow> ensure (device = dot_device (stamp_dot (op_stamp e)))
            (InvalidOperation ''resume provenance does not match its causal device'')
        | None \<Rightarrow> Inr ())
    | _ \<Rightarrow> Inr ())"

section \<open>Checkpoints\<close>

fun is_engagement :: "('b, 'l) operation \<Rightarrow> bool" where
  "is_engagement (RecordEngagement _ _ _ _ _ _) = True"
| "is_engagement _ = False"

fun is_listening :: "('b, 'l) operation \<Rightarrow> bool" where
  "is_listening (Listening _) = True"
| "is_listening _ = False"

definition valid_hash :: "ustring \<Rightarrow> bool" where
  "valid_hash h \<longleftrightarrow> byte_len h = 64 \<and> list_all (\<lambda>c. (48 \<le> c \<and> c \<le> 57) \<or> (97 \<le> c \<and> c \<le> 102)) h"

text \<open>The total preorder of \<open>normalize\<close>: by dot, then by id.  \<open>sort_by\<close> is a stable sort.\<close>

definition envelope_key :: "('b, 'l) operation_envelope \<Rightarrow> device_id \<times> u64 \<times> ustring" where
  "envelope_key e = (dot_device (stamp_dot (op_stamp e)), dot_sequence (stamp_dot (op_stamp e)), operation_id e)"

definition sort_envelopes :: "('b, 'l) operation_envelope list \<Rightarrow> ('b, 'l) operation_envelope list" where
  "sort_envelopes ops = sort_key envelope_key ops"

text \<open>\<open>Vec::dedup_by\<close> drops an element equal to the last one kept.\<close>

fun dedup_ids :: "('b, 'l) operation_envelope list \<Rightarrow> ('b, 'l) operation_envelope list" where
  "dedup_ids [] = []"
| "dedup_ids [e] = [e]"
| "dedup_ids (e # f # es) =
     (if operation_id f = operation_id e then dedup_ids (e # es) else e # dedup_ids (f # es))"

definition retained_covered ::
    "version_vector \<Rightarrow> id_set \<Rightarrow> id_set \<Rightarrow> ('b, 'l) operation_envelope list \<Rightarrow> ('b, 'l) operation_envelope list" where
  "retained_covered cover engagements listenings ops = dedup_ids (sort_envelopes (filter (\<lambda>e.
     vv_covers cover (stamp_dot (op_stamp e))
     \<and> (\<not> is_engagement (operation e) \<or> operation_id e \<in> set engagements)
     \<and> (\<not> is_listening (operation e) \<or> operation_id e \<in> set listenings)) ops))"

definition checkpoint_id_for ::
    "('b, 'l) rules \<Rightarrow> ustring \<Rightarrow> u64 \<Rightarrow> version_vector \<Rightarrow> ustring option \<Rightarrow> id_set \<Rightarrow> id_set
      \<Rightarrow> ('b, 'l) operation_envelope list \<Rightarrow> ustring outcome" where
  "checkpoint_id_for rules dataset generation cover previous engagements listenings ops =
     checkpoint_hash rules dataset generation cover previous engagements listenings
       (retained_covered cover engagements listenings ops)"

definition vector_dominates :: "version_vector \<Rightarrow> version_vector \<Rightarrow> bool" where
  "vector_dominates candidate ancestor \<longleftrightarrow> list_all (\<lambda>(device, n). vv_observed candidate device \<ge> n) ancestor"

definition checkpoint_fork :: personal_state_error where
  "checkpoint_fork = InvalidOperation ''compaction checkpoint history forked''"

text \<open>The \<open>BTreeMap\<close> from ids to operations; later operations replace earlier ones.\<close>

definition by_id :: "('b, 'l) operation_envelope list \<Rightarrow> (ustring \<times> ('b, 'l) operation_envelope) list" where
  "by_id ops = foldl (\<lambda>m e. om_insert (operation_id e) e m) [] ops"

definition check_retained ::
    "(('b, 'l) operation \<Rightarrow> bool) \<Rightarrow> string \<Rightarrow> string \<Rightarrow> version_vector
      \<Rightarrow> (ustring \<times> ('b, 'l) operation_envelope) list \<Rightarrow> ustring \<Rightarrow> unit outcome" where
  "check_retained right_kind missing invalid cover ops i = (case om_get ops i of
      None \<Rightarrow> Inl (InvalidOperation missing)
    | Some e \<Rightarrow> ensure (right_kind (operation e) \<and> vv_covers cover (stamp_dot (op_stamp e))) (InvalidOperation invalid))"

definition resurrected ::
    "(('b, 'l) operation \<Rightarrow> bool) \<Rightarrow> id_set \<Rightarrow> version_vector \<Rightarrow> ('b, 'l) operation_envelope \<Rightarrow> bool" where
  "resurrected kind retained cover e \<longleftrightarrow>
     kind (operation e) \<and> vv_covers cover (stamp_dot (op_stamp e)) \<and> operation_id e \<notin> set retained"

definition validate_checkpoint ::
    "('b, 'l) rules \<Rightarrow> ('b, 'l) personal_state \<Rightarrow> compaction_checkpoint \<Rightarrow> unit outcome" where
  "validate_checkpoint rules st cp = checks ([
     ensure (length (retained_engagement_operations cp) \<le> ENGAGEMENT_EVENTS_MAX
         \<and> length (retained_listening_operations cp) \<le> MAX_OPERATIONS
         \<and> vector_dominates (ps_version_vector st) (coverage cp)
         \<and> valid_hash (checkpoint_id cp)
         \<and> (case previous_checkpoint_hash cp of None \<Rightarrow> True | Some h \<Rightarrow> valid_hash h))
       (InvalidOperation ''invalid engagement compaction checkpoint''),
     bind_ok (checkpoint_id_for rules (dataset_id st) (compaction_generation cp) (coverage cp)
         (previous_checkpoint_hash cp) (retained_engagement_operations cp) (retained_listening_operations cp)
         (ps_operations st))
       (\<lambda>expected. ensure (checkpoint_id cp = expected)
          (InvalidOperation ''engagement compaction checkpoint hash does not match''))]
   @ map (check_retained is_engagement ''compaction retained engagement operation is missing''
        ''compaction retained engagement operation is invalid'' (coverage cp) (by_id (ps_operations st)))
      (retained_engagement_operations cp)
   @ map (check_retained is_listening ''compaction retained listening operation is missing''
        ''compaction retained listening operation is invalid'' (coverage cp) (by_id (ps_operations st)))
      (retained_listening_operations cp)
   @ [ensure (\<not> list_ex (resurrected is_engagement (retained_engagement_operations cp) (coverage cp)) (ps_operations st))
        (InvalidOperation ''compacted engagement operation was resurrected''),
      ensure (\<not> list_ex (resurrected is_listening (retained_listening_operations cp) (coverage cp)) (ps_operations st))
        (InvalidOperation ''compacted listening operation was resurrected'')])"

definition checkpoint_content_eq :: "compaction_checkpoint \<Rightarrow> compaction_checkpoint \<Rightarrow> bool" where
  "checkpoint_content_eq left right \<longleftrightarrow> checkpoint_id left = checkpoint_id right
     \<and> compaction_generation left = compaction_generation right
     \<and> coverage left = coverage right
     \<and> previous_checkpoint_hash left = previous_checkpoint_hash right
     \<and> retained_engagement_operations left = retained_engagement_operations right
     \<and> retained_listening_operations left = retained_listening_operations right
     \<and> leader_authorization left = leader_authorization right"

definition without_acknowledgements :: "compaction_checkpoint \<Rightarrow> compaction_checkpoint" where
  "without_acknowledgements cp = cp\<lparr>acknowledged_by := []\<rparr>"

text \<open>\<open>checked_add\<close> is the test against the largest generation.\<close>

definition require_newer_checkpoint :: "compaction_checkpoint \<Rightarrow> compaction_checkpoint \<Rightarrow> unit outcome" where
  "require_newer_checkpoint newer older = checks [
     ensure (vector_dominates (coverage newer) (coverage older))
       (InvalidOperation ''compaction checkpoint coverage moved backwards''),
     ensure (\<not> (compaction_generation older \<noteq> - 1
         \<and> compaction_generation older + 1 = compaction_generation newer
         \<and> previous_checkpoint_hash newer \<noteq> Some (checkpoint_id older)))
       checkpoint_fork]"

definition select_checkpoint ::
    "compaction_checkpoint option \<Rightarrow> compaction_checkpoint option \<Rightarrow> compaction_checkpoint option outcome" where
  "select_checkpoint left right = (case (left, right) of
      (None, None) \<Rightarrow> Inr None
    | (Some l, None) \<Rightarrow> Inr (Some (without_acknowledgements l))
    | (None, Some r) \<Rightarrow> Inr (Some (without_acknowledgements r))
    | (Some l, Some r) \<Rightarrow>
        if checkpoint_content_eq l r then Inr (Some (without_acknowledgements l))
        else if compaction_generation l > compaction_generation r
          then bind_ok (require_newer_checkpoint l r) (\<lambda>_. Inr (Some (without_acknowledgements l)))
        else if compaction_generation r > compaction_generation l
          then bind_ok (require_newer_checkpoint r l) (\<lambda>_. Inr (Some (without_acknowledgements r)))
        else Inl checkpoint_fork)"

definition operation_survives_checkpoint ::
    "compaction_checkpoint option \<Rightarrow> ('b, 'l) operation_envelope \<Rightarrow> bool" where
  "operation_survives_checkpoint checkpoint e = (case checkpoint of
      None \<Rightarrow> True
    | Some cp \<Rightarrow> (\<not> is_engagement (operation e) \<and> \<not> is_listening (operation e))
        \<or> \<not> vv_covers (coverage cp) (stamp_dot (op_stamp e))
        \<or> (case operation e of
             RecordEngagement _ _ _ _ _ _ \<Rightarrow> operation_id e \<in> set (retained_engagement_operations cp)
           | Listening _ \<Rightarrow> operation_id e \<in> set (retained_listening_operations cp)
           | _ \<Rightarrow> True))"

section \<open>Validation of a state\<close>

definition check_authorization :: "leader_authorization \<Rightarrow> unit outcome" where
  "check_authorization a = checks [
     ensure (membership_epoch a \<noteq> 0 \<and> introducing_checkpoint_sequence a \<ge> 2)
       (InvalidOperation ''compaction authorization sequence is invalid''),
     validate_id ''compaction authorization membership head'' (membership_head_hash a) 128,
     validate_id ''compaction authorization leader device'' (leader_device_id a) MAX_TRACK_ID_CHARS,
     validate_id ''compaction authorization checkpoint parent'' (introducing_checkpoint_parent_hash a) 128,
     validate_id ''compaction authorization signature'' (authorization_signature a) 256]"

definition check_checkpoint_shape :: "compaction_checkpoint \<Rightarrow> unit outcome" where
  "check_checkpoint_shape cp = checks ([
     ensure (compaction_generation cp \<noteq> 0) (InvalidOperation ''compaction generation is invalid''),
     validate_id ''checkpoint id'' (checkpoint_id cp) 256,
     ensure (length (coverage cp) \<le> MAX_DEVICES \<and> length (acknowledged_by cp) \<le> MAX_DEVICES) TooManyDevices,
     validate_version_vector (coverage cp)]
   @ map (\<lambda>d. validate_id ''checkpoint device id'' d MAX_TRACK_ID_CHARS) (acknowledged_by cp)
   @ [when_some (\<lambda>h. validate_id ''previous checkpoint hash'' h 128) (previous_checkpoint_hash cp),
      when_some check_authorization (leader_authorization cp)])"

text \<open>The loop over the operations with its three accumulators.\<close>

fun check_operations ::
    "('b, 'l) rules \<Rightarrow> u32 \<Rightarrow> version_vector \<Rightarrow> ('b, 'l) operation_envelope list
      \<Rightarrow> (dot \<rightharpoonup> ustring) \<Rightarrow> (ustring \<rightharpoonup> ('b, 'l) operation_envelope) \<Rightarrow> version_vector \<Rightarrow> version_vector outcome" where
  "check_operations rules schema vector [] dots ids seen = Inr seen"
| "check_operations rules schema vector (e # es) dots ids seen =
     (let s = op_stamp e; d = stamp_dot s in
      bind_ok (checks [
        validate_id ''operation id'' (operation_id e) 256,
        validate_id ''operation device id'' (dot_device d) MAX_TRACK_ID_CHARS,
        ensure (dot_sequence d \<noteq> 0) (InvalidOperation ''dot sequence must be positive''),
        ensure (length (stamp_observed s) \<le> MAX_DEVICES) TooManyDevices,
        validate_version_vector (stamp_observed s),
        ensure (vv_observed (stamp_observed s) (dot_device d) < dot_sequence d) InvalidVersionVector,
        ensure (vector_dominates vector (stamp_observed s)) InvalidVersionVector,
        ensure (case dots d of None \<Rightarrow> True | Some i \<Rightarrow> i = operation_id e) DuplicateDot,
        ensure (case ids (operation_id e) of None \<Rightarrow> True | Some f \<Rightarrow> f = e) ConflictingOperationId,
        validate_origin (op_origin e),
        ensure (\<not> (schema = PERSONAL_STATE_SCHEMA_VERSION \<and> is_listening (operation e)))
          (InvalidOperation ''listening operations require personal-state schema 3''),
        validate_operation rules (operation e),
        validate_listening_author rules e])
      (\<lambda>_. check_operations rules schema vector es (dots(d \<mapsto> operation_id e)) (ids(operation_id e \<mapsto> e))
         (vv_observe seen d)))"

definition check_header :: "('b, 'l) personal_state \<Rightarrow> unit outcome" where
  "check_header st = checks [
     ensure (ps_kind st = PERSONAL_STATE_KIND) UnsupportedKind,
     ensure (schema_version st = PERSONAL_STATE_SCHEMA_VERSION
         \<or> schema_version st = PERSONAL_STATE_LISTENING_SCHEMA_VERSION) (UnsupportedSchema (schema_version st)),
     validate_id ''dataset id'' (dataset_id st) 128,
     validate_id ''source app version'' (source_app_version (ps_metadata st)) 128,
     ensure (\<not> credentials_included (ps_metadata st) \<and> \<not> filesystem_paths_included (ps_metadata st)
         \<and> \<not> playable_urls_included (ps_metadata st))
       (InvalidOperation ''portable metadata includes private machine data''),
     ensure (length (ps_operations st) \<le> MAX_OPERATIONS) TooManyOperations,
     ensure (length (ps_registry st) \<le> MAX_DEVICES \<and> length (ps_version_vector st) \<le> MAX_DEVICES) TooManyDevices,
     validate_version_vector (ps_version_vector st)]"

definition check_registry_entry :: "('b, 'l) rules \<Rightarrow> device_id \<times> device_record \<Rightarrow> unit outcome" where
  "check_registry_entry rules = (\<lambda>(device, r). checks [
     validate_id ''device id'' device MAX_TRACK_ID_CHARS,
     ensure (device = dev_id r) (InvalidOperation ''device registry key does not match its record''),
     validate_device_record (check_identity rules) r True])"

definition validate_state :: "('b, 'l) rules \<Rightarrow> ('b, 'l) personal_state \<Rightarrow> unit outcome" where
  "validate_state rules st = checks (
     check_header st # map (check_registry_entry rules) (ps_registry st) @ [
     when_some check_checkpoint_shape (ps_checkpoint st),
     bind_ok (check_operations rules (schema_version st) (ps_version_vector st) (ps_operations st)
         Map.empty Map.empty [])
       (\<lambda>seen. ensure (vector_dominates (ps_version_vector st) seen) InvalidVersionVector),
     bind_ok (derive_device_registry (check_identity rules) (ps_operations st))
       (\<lambda>registry. ensure (registry = ps_registry st)
          (InvalidOperation ''device registry does not match membership operations'')),
     when_some (validate_checkpoint rules st) (ps_checkpoint st)])"

section \<open>Normalisation\<close>

definition observe_all :: "version_vector \<Rightarrow> ('b, 'l) operation_envelope list \<Rightarrow> version_vector" where
  "observe_all v ops = foldl (\<lambda>v e. vv_observe (vv_merge v (stamp_observed (op_stamp e))) (stamp_dot (op_stamp e))) v ops"

definition normalize_state :: "('b, 'l) rules \<Rightarrow> ('b, 'l) personal_state \<Rightarrow> ('b, 'l) personal_state outcome" where
  "normalize_state rules st = bind_ok (validate_state rules st) (\<lambda>_.
     let ops = dedup_ids (sort_envelopes (ps_operations st))
     in Inr (st\<lparr>ps_operations := ops, ps_version_vector := observe_all (ps_version_vector st) ops\<rparr>))"

definition next_revision :: "('b, 'l) personal_state \<Rightarrow> u64 outcome" where
  "next_revision st = (if ps_revision st = - 1 then Inl (InvalidOperation ''personal-state revision exhausted'')
     else Inr (ps_revision st + 1))"

section \<open>Merging two replicas\<close>

record merge_summary =
  local_operations :: nat
  remote_operations :: nat
  added_operations :: nat
  duplicate_operations :: nat

text \<open>The loop over the remote operations, with the map of operations and the two counts; the counts
  have no effect on the map.\<close>

fun merge_loop ::
    "ustring set \<Rightarrow> ('b, 'l) operation_envelope list \<Rightarrow> (ustring \<times> ('b, 'l) operation_envelope) list \<times> nat \<times> nat
      \<Rightarrow> ((ustring \<times> ('b, 'l) operation_envelope) list \<times> nat \<times> nat) outcome" where
  "merge_loop local_ids [] acc = Inr acc"
| "merge_loop local_ids (e # es) (ops, added, duplicates) = (case om_get ops (operation_id e) of
      Some existing \<Rightarrow> if existing = e then merge_loop local_ids es (ops, added, duplicates + 1)
        else Inl ConflictingOperationId
    | None \<Rightarrow> merge_loop local_ids es (om_insert (operation_id e) e ops,
        (if operation_id e \<in> local_ids then added else added + 1),
        (if operation_id e \<in> local_ids then duplicates + 1 else duplicates)))"

definition merge_states ::
    "('b, 'l) rules \<Rightarrow> ('b, 'l) personal_state \<Rightarrow> ('b, 'l) personal_state
      \<Rightarrow> (('b, 'l) personal_state \<times> merge_summary) outcome" where
  "merge_states rules here there =
     bind_ok (validate_state rules here) (\<lambda>_.
     bind_ok (validate_state rules there) (\<lambda>_.
     if dataset_id here \<noteq> dataset_id there
     then Inl (InvalidOperation ''different datasets require an explicit import'')
     else
       let local_ids = operation_id ` set (ps_operations here) in
       bind_ok (merge_loop local_ids (ps_operations there) (by_id (ps_operations here), 0, 0)) (\<lambda>(ops, _, duplicates).
       bind_ok (select_checkpoint (ps_checkpoint here) (ps_checkpoint there)) (\<lambda>cp.
       let survivors = filter (\<lambda>(_, e). operation_survives_checkpoint cp e) ops;
           added = length (filter (\<lambda>(_, e). operation_id e \<notin> local_ids) survivors);
           all_ops = map snd survivors in
       bind_ok (derive_device_registry (check_identity rules) all_ops) (\<lambda>registry.
       bind_ok (normalize_state rules (here\<lparr>
           schema_version := max (schema_version here) (schema_version there),
           ps_operations := all_ops,
           ps_version_vector := vv_merge (ps_version_vector here) (ps_version_vector there),
           ps_registry := registry,
           ps_checkpoint := cp,
           ps_revision := max (ps_revision here) (ps_revision there),
           projection_fingerprint := None\<rparr>)) (\<lambda>result.
       Inr (result, \<lparr>local_operations = length (ps_operations here), remote_operations = length (ps_operations there),
         added_operations = added, duplicate_operations = duplicates\<rparr>)))))))"

section \<open>The order of track keys\<close>

text \<open>The derived \<open>Ord\<close> of \<open>PortableTrackKey\<close>: the variant, then its fields.\<close>

fun track_key_rank :: "portable_track_key \<Rightarrow> nat \<times> ustring \<times> ustring \<times> ustring" where
  "track_key_rank (Catalog p i) = (0, p, i, [])"
| "track_key_rank (OpenSubsonicKey b a i) = (1, b, a, i)"
| "track_key_rank (LocalPlaceholder p) = (2, p, [], [])"

lemma track_key_rank_inj: "track_key_rank k = track_key_rank l \<Longrightarrow> k = l"
  by (cases k; cases l) auto

instantiation portable_track_key :: linorder
begin

definition less_eq_portable_track_key :: "portable_track_key \<Rightarrow> portable_track_key \<Rightarrow> bool" where
  "less_eq_portable_track_key k l \<longleftrightarrow> track_key_rank k \<le> track_key_rank l"

definition less_portable_track_key :: "portable_track_key \<Rightarrow> portable_track_key \<Rightarrow> bool" where
  "less_portable_track_key k l \<longleftrightarrow> track_key_rank k < track_key_rank l"

instance
  by standard (auto simp: less_eq_portable_track_key_def less_portable_track_key_def intro: track_key_rank_inj)

end

end
