(* ===== verification/LedgerValid.thy ===== *)
theory LedgerValid
  imports Ledger
begin

text \<open>
  What a validated ledger is, in terms of sets: \<open>validate_state_ok\<close> turns the loops of the validation
  into conditions on the set of operations, \<open>merge_loop_by_id\<close> the loop of the merge into a union, and
  \<open>normalize_ok\<close> shows that normalising only reorders the operations of a valid state.
\<close>

section \<open>What a successful validation says\<close>

lemma checks_ok: "checks rs = Inr () \<longleftrightarrow> (\<forall>r \<in> set rs. r = Inr ())"
  by (induction rs) (auto split: sum.splits)

declare checks.simps [simp del]

lemma case_option_all: "(case x of None \<Rightarrow> True | Some i \<Rightarrow> P i) \<longleftrightarrow> (\<forall>i. x = Some i \<longrightarrow> P i)"
  by (cases x) auto

lemma ensure_ok [simp]: "ensure b e = Inr () \<longleftrightarrow> b"
  by (simp add: ensure_def)

lemma bind_ok_ok: "bind_ok r f = Inr y \<longleftrightarrow> (\<exists>x. r = Inr x \<and> f x = Inr y)"
  by (cases r) auto

lemma bind_ok_unit: "bind_ok r f = Inr y \<longleftrightarrow> r = Inr () \<and> f () = Inr y"
  by (cases r) auto

lemma when_some_ok: "when_some f x = Inr () \<longleftrightarrow> (\<forall>y. x = Some y \<longrightarrow> f y = Inr ())"
  by (cases x) auto

text \<open>The checks of one operation that do not look at the others.\<close>

definition operation_ok :: "('b, 'l) rules \<Rightarrow> u32 \<Rightarrow> version_vector \<Rightarrow> ('b, 'l) operation_envelope \<Rightarrow> bool" where
  "operation_ok rules schema vector e \<longleftrightarrow> (let s = op_stamp e; d = stamp_dot s in
     checks [
        validate_id ''operation id'' (operation_id e) 256,
        validate_id ''operation device id'' (dot_device d) MAX_TRACK_ID_CHARS,
        ensure (dot_sequence d \<noteq> 0) (InvalidOperation ''dot sequence must be positive''),
        ensure (length (stamp_observed s) \<le> MAX_DEVICES) TooManyDevices,
        validate_version_vector (stamp_observed s),
        ensure (vv_observed (stamp_observed s) (dot_device d) < dot_sequence d) InvalidVersionVector,
        ensure (vector_dominates vector (stamp_observed s)) InvalidVersionVector,
        validate_origin (op_origin e),
        ensure (\<not> (schema = PERSONAL_STATE_SCHEMA_VERSION \<and> is_listening (operation e)))
          (InvalidOperation ''listening operations require personal-state schema 3''),
        validate_operation rules (operation e),
        validate_listening_author rules e] = Inr ())"

abbreviation dot_of :: "('b, 'l) operation_envelope \<Rightarrow> dot" where
  "dot_of e \<equiv> stamp_dot (op_stamp e)"

text \<open>No two operations share an id, and no two share a dot.\<close>

definition consistent :: "('b, 'l) operation_envelope set \<Rightarrow> bool" where
  "consistent S \<longleftrightarrow> (\<forall>e \<in> S. \<forall>f \<in> S. (operation_id e = operation_id f \<longrightarrow> e = f) \<and> (dot_of e = dot_of f \<longrightarrow> e = f))"

lemma check_operations_Cons: "check_operations rules schema vector (e # es) dots ids seen = Inr r \<longleftrightarrow>
    operation_ok rules schema vector e
    \<and> (\<forall>i. dots (dot_of e) = Some i \<longrightarrow> i = operation_id e)
    \<and> (\<forall>f. ids (operation_id e) = Some f \<longrightarrow> f = e)
    \<and> check_operations rules schema vector es (dots(dot_of e \<mapsto> operation_id e)) (ids(operation_id e \<mapsto> e))
         (vv_observe seen (dot_of e)) = Inr r"
  by (simp add: Let_def bind_ok_unit checks_ok operation_ok_def case_option_all) blast

lemma check_operations_ok:
  "check_operations rules schema vector es dots ids seen = Inr r \<longleftrightarrow>
    (\<forall>e \<in> set es. operation_ok rules schema vector e)
    \<and> (\<forall>e \<in> set es. (\<forall>i. dots (dot_of e) = Some i \<longrightarrow> i = operation_id e)
         \<and> (\<forall>f. ids (operation_id e) = Some f \<longrightarrow> f = e))
    \<and> consistent (set es) \<and> r = foldl (\<lambda>v e. vv_observe v (dot_of e)) seen es"
proof (induction es arbitrary: dots ids seen)
  case Nil
  then show ?case by (auto simp: consistent_def)
next
  case (Cons e es)
  have "consistent (set (e # es)) \<longleftrightarrow> consistent (set es)
      \<and> (\<forall>f \<in> set es. (operation_id f = operation_id e \<longrightarrow> f = e) \<and> (dot_of f = dot_of e \<longrightarrow> f = e))"
    by (auto simp: consistent_def)
  moreover have "(\<forall>i. (dots(dot_of e \<mapsto> operation_id e)) (dot_of f) = Some i \<longrightarrow> i = operation_id f)
        \<and> (\<forall>g. (ids(operation_id e \<mapsto> e)) (operation_id f) = Some g \<longrightarrow> g = f)
      \<longleftrightarrow> (\<forall>i. dots (dot_of f) = Some i \<longrightarrow> i = operation_id f) \<and> (\<forall>g. ids (operation_id f) = Some g \<longrightarrow> g = f)
        \<and> (operation_id f = operation_id e \<longrightarrow> f = e) \<and> (dot_of f = dot_of e \<longrightarrow> f = e)"
    if "\<forall>i. dots (dot_of e) = Some i \<longrightarrow> i = operation_id e" "\<forall>f. ids (operation_id e) = Some f \<longrightarrow> f = e" for f
    using that by (cases "operation_id f = operation_id e"; cases "dot_of f = dot_of e") auto
  ultimately show ?case unfolding check_operations_Cons Cons.IH set_simps by (simp only: ball_simps foldl_Cons) blast
qed

lemma vector_dominates_iff: "om_wf w \<Longrightarrow> vector_dominates v w \<longleftrightarrow> (\<forall>d. vv_observed w d \<le> vv_observed v d)"
proof -
  assume wf: "om_wf w"
  show ?thesis
    unfolding vector_dominates_def list_all_iff
  proof (intro iffI allI ballI)
    fix d assume "\<forall>x \<in> set w. case x of (device, n) \<Rightarrow> n \<le> vv_observed v device"
    then show "vv_observed w d \<le> vv_observed v d"
      using om_get_iff [OF wf, of d] by (cases "om_get w d") (auto simp: vv_observed_def [of w])
  next
    fix x assume le: "\<forall>d. vv_observed w d \<le> vv_observed v d" and x: "x \<in> set w"
    then show "case x of (device, n) \<Rightarrow> n \<le> vv_observed v device"
      using om_get_iff [OF wf, of "fst x" "snd x"] le [rule_format, of "fst x"]
      by (auto simp: vv_observed_def [of w] split_def)
  qed
qed

lemma vv_observed_observe: "vv_observed (vv_observe v a) d = (if d = dot_device a then max (vv_observed v d) (dot_sequence a) else vv_observed v d)"
  by (auto simp: vv_observe_def vv_observed_def om_get_upsert split: option.split)

lemma vv_observe_wf: "om_wf v \<Longrightarrow> om_wf (vv_observe v a)"
  by (simp add: vv_observe_def om_upsert_wf)

lemma foldl_observe: "om_wf v \<Longrightarrow> om_wf (foldl (\<lambda>v e. vv_observe v (dot_of e)) v es)
    \<and> ((\<forall>d. vv_observed (foldl (\<lambda>v e. vv_observe v (dot_of e)) v es) d \<le> vv_observed u d)
       \<longleftrightarrow> (\<forall>d. vv_observed v d \<le> vv_observed u d) \<and> (\<forall>e \<in> set es. vv_covers u (dot_of e)))"
proof (induction es arbitrary: v)
  case Nil
  then show ?case by simp
next
  case (Cons e es)
  have "(\<forall>d. vv_observed (vv_observe v (dot_of e)) d \<le> vv_observed u d)
      \<longleftrightarrow> (\<forall>d. vv_observed v d \<le> vv_observed u d) \<and> vv_covers u (dot_of e)"
    by (auto simp: vv_observed_observe vv_covers_def split: if_splits) 
  then show ?case using Cons.IH [of "vv_observe v (dot_of e)"] Cons.prems by (auto simp: vv_observe_wf)
qed

lemma seen_dominated: "vector_dominates u (foldl (\<lambda>v e. vv_observe v (dot_of e)) [] es)
    \<longleftrightarrow> (\<forall>e \<in> set es. vv_covers u (dot_of e))"
  using foldl_observe [of "[]" es u] by (simp add: vector_dominates_iff vv_observed_def [of "[]"])

lemma validate_state_ok: "validate_state rules st = Inr () \<longleftrightarrow>
    check_header st = Inr () \<and> (\<forall>x \<in> set (ps_registry st). check_registry_entry rules x = Inr ())
    \<and> (\<forall>cp. ps_checkpoint st = Some cp \<longrightarrow> check_checkpoint_shape cp = Inr () \<and> validate_checkpoint rules st cp = Inr ())
    \<and> (\<forall>e \<in> set (ps_operations st). operation_ok rules (schema_version st) (ps_version_vector st) e)
    \<and> consistent (set (ps_operations st)) \<and> (\<forall>e \<in> set (ps_operations st). vv_covers (ps_version_vector st) (dot_of e))
    \<and> derive_device_registry (check_identity rules) (ps_operations st) = Inr (ps_registry st)"
proof -
  have "bind_ok (check_operations rules (schema_version st) (ps_version_vector st) (ps_operations st) Map.empty Map.empty [])
       (\<lambda>seen. ensure (vector_dominates (ps_version_vector st) seen) InvalidVersionVector) = Inr ()
     \<longleftrightarrow> (\<forall>e \<in> set (ps_operations st). operation_ok rules (schema_version st) (ps_version_vector st) e)
    \<and> consistent (set (ps_operations st)) \<and> (\<forall>e \<in> set (ps_operations st). vv_covers (ps_version_vector st) (dot_of e))"
    by (auto simp: bind_ok_ok check_operations_ok seen_dominated)
  moreover have "bind_ok (derive_device_registry (check_identity rules) (ps_operations st))
       (\<lambda>registry. ensure (registry = ps_registry st)
          (InvalidOperation ''device registry does not match membership operations'')) = Inr ()
     \<longleftrightarrow> derive_device_registry (check_identity rules) (ps_operations st) = Inr (ps_registry st)"
    by (auto simp: bind_ok_ok)
  ultimately show ?thesis unfolding validate_state_def checks_ok by (simp add: when_some_ok) blast
qed

section \<open>The union of two ledgers\<close>

definition ids_apart :: "('b, 'l) operation_envelope set \<Rightarrow> bool" where
  "ids_apart S \<longleftrightarrow> (\<forall>e \<in> S. \<forall>f \<in> S. operation_id e = operation_id f \<longrightarrow> e = f)"

lemma consistent_ids_apart: "consistent S \<Longrightarrow> ids_apart S"
  by (simp add: consistent_def ids_apart_def)

lemma ids_apart_subset: "ids_apart S \<Longrightarrow> T \<subseteq> S \<Longrightarrow> ids_apart T"
  by (auto simp: ids_apart_def)

lemma om_ext_get:
  assumes "om_wf m" "om_wf m'" "\<And>k e. om_get m k = Some e \<longleftrightarrow> om_get m' k = Some e"
  shows "m = m'"
proof (rule om_ext [OF assms(1,2)], rule ext)
  fix k
  show "om_get m k = om_get m' k"
  proof (cases "om_get m k")
    case None
    then have "om_get m' k \<noteq> Some e" for e using assms(3) [of k e] by simp
    then show ?thesis using None by (metis not_None_eq)
  next
    case (Some e)
    then show ?thesis using assms(3) [of k e] by simp
  qed
qed

lemma om_insert_same: "om_wf m \<Longrightarrow> om_get m k = Some v \<Longrightarrow> om_insert k v m = m"
  by (rule om_ext_get) (auto simp: om_insert_wf om_get_insert)

lemma by_id_snoc: "by_id (ops @ [e]) = om_insert (operation_id e) e (by_id ops)"
  by (simp add: by_id_def)

lemma by_id_wf: "om_wf (by_id ops)"
  by (induction ops rule: rev_induct) (simp add: by_id_def, simp add: by_id_snoc om_insert_wf)

lemma by_id_get: "ids_apart (set ops) \<Longrightarrow> om_get (by_id ops) k = Some e \<longleftrightarrow> e \<in> set ops \<and> operation_id e = k"
proof (induction ops rule: rev_induct)
  case Nil
  then show ?case by (simp add: by_id_def)
next
  case (snoc a ops)
  then have "ids_apart (set ops)" "\<And>e. e \<in> set ops \<Longrightarrow> operation_id e = operation_id a \<Longrightarrow> e = a"
    by (auto simp: ids_apart_def)
  then show ?case using snoc.IH by (auto simp: by_id_snoc om_get_insert)
qed

definition clash :: "(ustring \<times> ('b, 'l) operation_envelope) list \<Rightarrow> ('b, 'l) operation_envelope list \<Rightarrow> bool" where
  "clash ops es \<longleftrightarrow> (\<exists>e \<in> set es. om_get ops (operation_id e) \<noteq> None \<and> om_get ops (operation_id e) \<noteq> Some e)"

lemma clash_insert: "ids_apart (set (a # es)) \<Longrightarrow> om_get ops (operation_id a) = None \<Longrightarrow>
    clash (om_insert (operation_id a) a ops) es \<longleftrightarrow> clash ops (a # es)"
proof -
  assume ia: "ids_apart (set (a # es))" and none: "om_get ops (operation_id a) = None"
  have "om_get (om_insert (operation_id a) a ops) (operation_id e) \<noteq> None
        \<and> om_get (om_insert (operation_id a) a ops) (operation_id e) \<noteq> Some e
      \<longleftrightarrow> om_get ops (operation_id e) \<noteq> None \<and> om_get ops (operation_id e) \<noteq> Some e" if "e \<in> set es" for e
  proof (cases "operation_id e = operation_id a")
    case True
    then have "e = a" using ia that by (simp add: ids_apart_def)
    then show ?thesis using none by (simp add: om_get_insert)
  next
    case False
    then show ?thesis by (simp add: om_get_insert)
  qed
  then show ?thesis using none by (simp add: clash_def)
qed

lemma merge_loop_clash:
  "ids_apart (set es) \<Longrightarrow> clash ops es \<Longrightarrow> \<exists>err. merge_loop L es (ops, n, m) = Inl err"
proof (induction es arbitrary: ops n m)
  case Nil
  then show ?case by (simp add: clash_def)
next
  case (Cons a es)
  have ia: "ids_apart (set es)" using Cons.prems(1) by (rule ids_apart_subset) auto
  show ?case
  proof (cases "om_get ops (operation_id a)")
    case None
    then show ?thesis using Cons.IH [OF ia] clash_insert [OF Cons.prems(1) None] Cons.prems(2) by simp
  next
    case (Some x)
    then show ?thesis using Cons.IH [OF ia, of ops n "m + 1"] Cons.prems(2) by (cases "x = a") (auto simp: clash_def)
  qed
qed

lemma merge_loop_union:
  "om_wf ops \<Longrightarrow> ids_apart (set es) \<Longrightarrow> \<not> clash ops es \<Longrightarrow>
    \<exists>n' m'. merge_loop L es (ops, n, m) = Inr (foldl (\<lambda>m e. om_insert (operation_id e) e m) ops es, n', m')"
proof (induction es arbitrary: ops n m)
  case Nil
  then show ?case by simp
next
  case (Cons a es)
  have ia: "ids_apart (set es)" using Cons.prems(2) by (rule ids_apart_subset) auto
  show ?case
  proof (cases "om_get ops (operation_id a)")
    case None
    then show ?thesis
      using Cons.IH [OF om_insert_wf [OF Cons.prems(1)] ia] clash_insert [OF Cons.prems(2) None] Cons.prems(3) by simp
  next
    case (Some x)
    then have x: "x = a" using Cons.prems(3) by (auto simp: clash_def)
    then have "om_insert (operation_id a) a ops = ops" using Some by (simp add: om_insert_same [OF Cons.prems(1)])
    moreover have "\<not> clash ops es" using Cons.prems(3) by (auto simp: clash_def)
    ultimately show ?thesis using Cons.IH [OF Cons.prems(1) ia, of n "m + 1"] Some x by simp
  qed
qed

lemma clash_by_id:
  assumes "ids_apart (set xs)" "ids_apart (set ys)"
  shows "clash (by_id xs) ys \<longleftrightarrow> \<not> ids_apart (set xs \<union> set ys)"
proof
  assume "clash (by_id xs) ys"
  then obtain e x where "e \<in> set ys" "om_get (by_id xs) (operation_id e) = Some x" "x \<noteq> e"
    by (auto simp: clash_def)
  then show "\<not> ids_apart (set xs \<union> set ys)" unfolding by_id_get [OF assms(1)] ids_apart_def by blast
next
  assume "\<not> ids_apart (set xs \<union> set ys)"
  then obtain x e where xe: "x \<in> set xs" "e \<in> set ys" "operation_id x = operation_id e" "x \<noteq> e"
    using assms unfolding ids_apart_def by (metis UnE)
  then have "om_get (by_id xs) (operation_id e) = Some x" by (simp add: by_id_get [OF assms(1)])
  then show "clash (by_id xs) ys" using xe by (auto simp: clash_def)
qed

lemma merge_loop_by_id:
  assumes "ids_apart (set xs)" "ids_apart (set ys)"
  shows "if ids_apart (set xs \<union> set ys)
    then \<exists>n' m'. merge_loop L ys (by_id xs, n, m) = Inr (by_id (xs @ ys), n', m')
    else \<exists>err. merge_loop L ys (by_id xs, n, m) = Inl err"
  using merge_loop_clash [OF assms(2), of "by_id xs"] merge_loop_union [OF by_id_wf assms(2), of xs]
    clash_by_id [OF assms] by (simp add: by_id_def)

lemma by_id_cong:
  assumes "ids_apart (set xs)" "set ys = set xs"
  shows "by_id xs = by_id ys"
proof (rule om_ext_get [OF by_id_wf by_id_wf])
  fix k e
  have "ids_apart (set ys)" using assms by simp
  then show "om_get (by_id xs) k = Some e \<longleftrightarrow> om_get (by_id ys) k = Some e"
    by (simp add: by_id_get assms)
qed

lemma set_map_snd: "set (map snd m) = {e. \<exists>k. (k, e) \<in> set m}"
  by force

lemma by_id_values: "ids_apart (set ops) \<Longrightarrow> set (map snd (by_id ops)) = set ops \<and> map fst (by_id ops) = map operation_id (map snd (by_id ops))"
proof -
  assume ia: "ids_apart (set ops)"
  have mem: "(k, e) \<in> set (by_id ops) \<longleftrightarrow> e \<in> set ops \<and> operation_id e = k" for k e
    by (simp add: by_id_get [OF ia] om_get_iff [OF by_id_wf, symmetric])
  have "set (map snd (by_id ops)) = set ops" unfolding set_map_snd by (simp add: mem)
  moreover have "map fst (by_id ops) = map operation_id (map snd (by_id ops))"
    using mem by (auto simp: list.map_comp)
  ultimately show ?thesis by blast
qed

section \<open>Normalisation keeps a valid state valid\<close>

lemma envelope_key_eq: "envelope_key e = envelope_key f \<longleftrightarrow> dot_of e = dot_of f \<and> operation_id e = operation_id f"
  by (auto simp: envelope_key_def)

lemma dedup_ids_first: "es \<noteq> [] \<Longrightarrow> dedup_ids es \<noteq> [] \<and> hd (dedup_ids es) = hd es"
  by (induction es rule: dedup_ids.induct) auto

lemma dedup_ids_sorted:
  "sorted (map envelope_key es) \<Longrightarrow> ids_apart (set es) \<Longrightarrow>
     set (dedup_ids es) = set es \<and> sorted_wrt (<) (map envelope_key (dedup_ids es)) \<and> length (dedup_ids es) \<le> length es"
proof (induction es rule: dedup_ids.induct)
  case (3 e f es)
  show ?case
  proof (cases "operation_id f = operation_id e")
    case True
    have fe: "f = e" using 3(4) True unfolding ids_apart_def by (meson list.set_intros)
    have "sorted (map envelope_key (e # es))" using 3(3) by simp
    moreover have "ids_apart (set (e # es))" using 3(4) by (rule ids_apart_subset) auto
    ultimately have "set (dedup_ids (e # es)) = set (e # es) \<and> sorted_wrt (<) (map envelope_key (dedup_ids (e # es)))
        \<and> length (dedup_ids (e # es)) \<le> length (e # es)" by (rule 3(1) [OF True])
    then show ?thesis unfolding fe by simp
  next
    case False
    have ia: "ids_apart (set (f # es))" using 3(4) by (rule ids_apart_subset) auto
    have IH: "set (dedup_ids (f # es)) = set (f # es)" "sorted_wrt (<) (map envelope_key (dedup_ids (f # es)))"
      "length (dedup_ids (f # es)) \<le> length (f # es)" using 3(2) [OF False] 3(3) ia by auto
    have "envelope_key e < envelope_key g" if g: "g \<in> set (f # es)" for g
    proof -
      have le: "envelope_key e \<le> envelope_key f" "envelope_key f \<le> envelope_key g" using 3(3) g by auto
      have "envelope_key e \<noteq> envelope_key f" using False by (simp add: envelope_key_eq)
      then show ?thesis using le by simp
    qed
    then show ?thesis using IH False by simp
  qed
qed simp_all

lemma sort_envelopes_set [simp]: "set (sort_envelopes ops) = set ops"
  by (simp add: sort_envelopes_def)

lemma normal_order:
  assumes "ids_apart (set ops)"
  shows "set (dedup_ids (sort_envelopes ops)) = set ops
    \<and> sorted_wrt (<) (map envelope_key (dedup_ids (sort_envelopes ops)))
    \<and> length (dedup_ids (sort_envelopes ops)) \<le> length ops"
  using dedup_ids_sorted [of "sort_envelopes ops"] assms by (simp add: sort_envelopes_def)

lemma normal_order_unique:
  assumes "sorted_wrt (<) (map envelope_key xs)" "sorted_wrt (<) (map envelope_key ys)" "set xs = set ys"
  shows "xs = ys"
proof -
  have inj: "inj_on envelope_key (set xs \<union> set ys)"
    using assms by (simp add: strict_sorted_iff distinct_map)
  show ?thesis
    by (rule map_sorted_distinct_set_unique [OF inj]) (use assms in \<open>auto simp: strict_sorted_iff distinct_map\<close>)
qed

lemma normal_order_filter:
  assumes "ids_apart (set ops)" "set ops' = set ops"
  shows "dedup_ids (sort_envelopes (filter P ops')) = dedup_ids (sort_envelopes (filter P ops))"
proof (rule normal_order_unique)
  have "ids_apart (set (filter P ops))" "ids_apart (set (filter P ops'))"
    using assms by (auto simp: ids_apart_def)
  then show "sorted_wrt (<) (map envelope_key (dedup_ids (sort_envelopes (filter P ops'))))"
    "sorted_wrt (<) (map envelope_key (dedup_ids (sort_envelopes (filter P ops))))"
    "set (dedup_ids (sort_envelopes (filter P ops'))) = set (dedup_ids (sort_envelopes (filter P ops)))"
    using normal_order [of "filter P ops"] normal_order [of "filter P ops'"] assms(2) by auto
qed

lemma valid_vector_entries: "validate_version_vector v = Inr () \<Longrightarrow> (d, n) \<in> set v \<Longrightarrow> n \<noteq> 0"
  by (induction v rule: validate_version_vector.induct) (auto simp: bind_ok_unit split: if_splits)

lemma merge_dominated:
  assumes "om_wf v" "om_wf w" "validate_version_vector w = Inr ()" "vector_dominates v w"
  shows "vv_merge v w = v"
proof (rule om_ext [OF vv_merge_wf [OF assms(1)] assms(1)], rule ext)
  fix d
  show "om_get (vv_merge v w) d = om_get v d"
  proof (cases "om_get w d")
    case None
    then show ?thesis by (simp add: vv_get_merge assms(1,2))
  next
    case (Some n)
    then have "n \<noteq> 0" "n \<le> vv_observed v d"
      using valid_vector_entries [OF assms(3)] om_get_iff [OF assms(2)] assms(4)
      by (auto simp: vector_dominates_def list_all_iff)
    then show ?thesis using Some
      by (cases "om_get v d") (auto simp: vv_get_merge assms(1,2) vv_observed_def max_def)
  qed
qed

lemma observe_covered:
  assumes "om_wf v" "vv_covers v d" "dot_sequence d \<noteq> 0"
  shows "vv_observe v d = v"
proof (rule om_ext [OF vv_observe_wf [OF assms(1)] assms(1)], rule ext)
  fix k
  show "om_get (vv_observe v d) k = om_get v k"
    using assms(2,3) by (auto simp: vv_observe_def om_get_upsert vv_covers_def vv_observed_def max_def split: option.splits)
qed

definition vectors_wf :: "('b, 'l) personal_state \<Rightarrow> bool" where
  "vectors_wf st \<longleftrightarrow> om_wf (ps_version_vector st) \<and> (\<forall>e \<in> set (ps_operations st). om_wf (stamp_observed (op_stamp e)))"

lemma operation_ok_facts: "operation_ok rules schema v e \<Longrightarrow> dot_sequence (dot_of e) \<noteq> 0
    \<and> validate_version_vector (stamp_observed (op_stamp e)) = Inr () \<and> vector_dominates v (stamp_observed (op_stamp e))"
  by (simp add: operation_ok_def Let_def checks_ok)

lemma observe_all_same:
  assumes "om_wf v" "\<And>e. e \<in> set ops \<Longrightarrow> om_wf (stamp_observed (op_stamp e))"
    "\<And>e. e \<in> set ops \<Longrightarrow> operation_ok rules schema v e \<and> vv_covers v (dot_of e)"
  shows "observe_all v ops = v"
  using assms(2,3)
proof (induction ops)
  case Nil
  then show ?case by (simp add: observe_all_def)
next
  case (Cons e ops)
  have "vv_merge v (stamp_observed (op_stamp e)) = v"
    using merge_dominated [OF assms(1)] operation_ok_facts Cons.prems by (metis list.set_intros(1))
  moreover have "vv_observe v (dot_of e) = v"
    using observe_covered [OF assms(1)] operation_ok_facts Cons.prems by (metis list.set_intros(1))
  ultimately show ?case using Cons by (simp add: observe_all_def)
qed

lemma validate_checkpoint_set:
  assumes "ids_apart (set (ps_operations st))" "set ops = set (ps_operations st)"
  shows "validate_checkpoint rules (st\<lparr>ps_operations := ops\<rparr>) cp = validate_checkpoint rules st cp"
proof -
  have "by_id ops = by_id (ps_operations st)" using by_id_cong [OF assms] by simp
  moreover have "retained_covered cover engagements listenings ops = retained_covered cover engagements listenings (ps_operations st)"
    for cover engagements listenings
    unfolding retained_covered_def by (rule normal_order_filter [OF assms])
  moreover have "list_ex P ops = list_ex P (ps_operations st)" for P by (simp add: list_ex_iff assms(2))
  ultimately show ?thesis by (simp add: validate_checkpoint_def checkpoint_id_for_def)
qed

lemma normalize_ok:
  assumes "normalize_state rules st = Inr st'" "vectors_wf st"
  shows "validate_state rules st = Inr () \<and> validate_state rules st' = Inr ()
    \<and> st' = st\<lparr>ps_operations := dedup_ids (sort_envelopes (ps_operations st))\<rparr>"
proof -
  let ?ops = "dedup_ids (sort_envelopes (ps_operations st))"
  have valid: "validate_state rules st = Inr ()"
    and st': "st' = st\<lparr>ps_operations := ?ops, ps_version_vector := observe_all (ps_version_vector st) ?ops\<rparr>"
    using assms(1) by (simp_all add: normalize_state_def bind_ok_unit Let_def)
  note v = valid [unfolded validate_state_ok]
  have ia: "ids_apart (set (ps_operations st))" using v consistent_ids_apart by blast
  note norm = normal_order [OF ia]
  have "observe_all (ps_version_vector st) ?ops = ps_version_vector st"
    using assms(2) v norm by (intro observe_all_same) (auto simp: vectors_wf_def)
  then have eq: "st' = st\<lparr>ps_operations := ?ops\<rparr>" by (simp add: st')
  have "validate_state rules (st\<lparr>ps_operations := ?ops\<rparr>) = Inr ()"
    unfolding validate_state_ok
  proof (intro conjI)
    have "length ?ops \<le> MAX_OPERATIONS" using v norm by (auto simp: check_header_def checks_ok)
    then show "check_header (st\<lparr>ps_operations := ?ops\<rparr>) = Inr ()" using v by (simp add: check_header_def checks_ok)
    show "derive_device_registry (check_identity rules) (ps_operations (st\<lparr>ps_operations := ?ops\<rparr>))
        = Inr (ps_registry (st\<lparr>ps_operations := ?ops\<rparr>))"
      using derive_set [of ?ops "ps_operations st" "check_identity rules"] norm v
      by (simp add: ok_part_Some [symmetric] del: ok_part_Some)
    have "validate_checkpoint rules (st\<lparr>ps_operations := ?ops\<rparr>) cp = validate_checkpoint rules st cp" for cp
      using norm by (intro validate_checkpoint_set [OF ia]) simp
    then show "\<forall>cp. ps_checkpoint (st\<lparr>ps_operations := ?ops\<rparr>) = Some cp \<longrightarrow> check_checkpoint_shape cp = Inr ()
        \<and> validate_checkpoint rules (st\<lparr>ps_operations := ?ops\<rparr>) cp = Inr ()" using v by simp
  qed (use v norm in simp_all)
  then show ?thesis using valid eq by simp
qed

end
