(* ===== verification/LedgerMerge.thy ===== *)
theory LedgerMerge
  imports LedgerValid
begin

text \<open>
  The merge of two replicas commutes, is the union of their operations up to compaction, returns a
  valid state in canonical order, and is idempotent.
\<close>

section \<open>Merging\<close>

text \<open>The merged state before normalisation.\<close>

definition joined ::
    "('b, 'l) personal_state \<Rightarrow> ('b, 'l) personal_state \<Rightarrow> ('b, 'l) operation_envelope list
      \<Rightarrow> device_registry \<Rightarrow> compaction_checkpoint option \<Rightarrow> ('b, 'l) personal_state" where
  "joined here there ops registry cp = here\<lparr>
     schema_version := max (schema_version here) (schema_version there),
     ps_operations := ops,
     ps_version_vector := vv_merge (ps_version_vector here) (ps_version_vector there),
     ps_registry := registry,
     ps_checkpoint := cp,
     ps_revision := max (ps_revision here) (ps_revision there),
     projection_fingerprint := None\<rparr>"

definition survivors ::
    "compaction_checkpoint option \<Rightarrow> ('b, 'l) operation_envelope list \<Rightarrow> ('b, 'l) operation_envelope list" where
  "survivors cp ops = map snd (filter (\<lambda>(_, e). operation_survives_checkpoint cp e) (by_id ops))"

definition union_state ::
    "('b, 'l) rules \<Rightarrow> ('b, 'l) personal_state \<Rightarrow> ('b, 'l) personal_state \<Rightarrow> ('b, 'l) personal_state option" where
  "union_state rules here there =
     (let ops = ps_operations here @ ps_operations there in
      if ids_apart (set ops)
      then Option.bind (ok_part (select_checkpoint (ps_checkpoint here) (ps_checkpoint there))) (\<lambda>cp.
        Option.bind (ok_part (derive_device_registry (check_identity rules) (survivors cp ops))) (\<lambda>registry.
        Some (joined here there (survivors cp ops) registry cp)))
      else None)"

lemma merge_states_union:
  assumes "validate_state rules here = Inr ()" "validate_state rules there = Inr ()" "dataset_id here = dataset_id there"
  shows "map_option fst (ok_part (merge_states rules here there)) =
    Option.bind (union_state rules here there) (\<lambda>st. ok_part (normalize_state rules st))"
proof -
  have ia: "ids_apart (set (ps_operations here))" "ids_apart (set (ps_operations there))"
    using assms(1,2) by (simp_all add: validate_state_ok consistent_ids_apart)
  note loop = merge_loop_by_id [OF ia, of "operation_id ` set (ps_operations here)" 0 0]
  show ?thesis
  proof (cases "ids_apart (set (ps_operations here) \<union> set (ps_operations there))")
    case True
    then obtain n m where "merge_loop (operation_id ` set (ps_operations here)) (ps_operations there)
        (by_id (ps_operations here), 0, 0) = Inr (by_id (ps_operations here @ ps_operations there), n, m)"
      using loop by auto
    then show ?thesis using assms True
      by (simp add: merge_states_def union_state_def Let_def survivors_def joined_def split_def
          map_conv_bind_option bind_map_option o_def)
  next
    case False
    then obtain err where "merge_loop (operation_id ` set (ps_operations here)) (ps_operations there)
        (by_id (ps_operations here), 0, 0) = Inl err" using loop by auto
    then show ?thesis using assms False by (simp add: merge_states_def union_state_def Let_def)
  qed
qed

lemma merge_states_None:
  "\<not> (validate_state rules here = Inr () \<and> validate_state rules there = Inr () \<and> dataset_id here = dataset_id there)
    \<Longrightarrow> ok_part (merge_states rules here there) = None"
  by (cases "validate_state rules here"; cases "validate_state rules there") (auto simp: merge_states_def)

lemma select_checkpoint_comm: "ok_part (select_checkpoint l r) = ok_part (select_checkpoint r l)"
proof -
  have eq: "checkpoint_content_eq a b \<longleftrightarrow> checkpoint_content_eq b a" for a b
    by (auto simp: checkpoint_content_eq_def)
  have same: "checkpoint_content_eq a b \<Longrightarrow> without_acknowledgements a = without_acknowledgements b" for a b
    by (simp add: checkpoint_content_eq_def without_acknowledgements_def)
  show ?thesis
  proof (cases l; cases r)
    fix a b assume l: "l = Some a" and r: "r = Some b"
    show ?thesis
    proof (cases "checkpoint_content_eq a b")
      case True
      then show ?thesis using eq [of a b] same [of a b] by (simp add: l r select_checkpoint_def)
    next
      case False
      then show ?thesis using eq [of a b] by (auto simp: l r select_checkpoint_def)
    qed
  qed (simp_all add: select_checkpoint_def)
qed

text \<open>The metadata of the merged state is that of the local replica; it plays no part in the rest.\<close>

definition metadata_ok :: "('b, 'l) personal_state \<Rightarrow> bool" where
  "metadata_ok st \<longleftrightarrow> validate_id ''source app version'' (source_app_version (ps_metadata st)) 128 = Inr ()
     \<and> \<not> credentials_included (ps_metadata st) \<and> \<not> filesystem_paths_included (ps_metadata st)
     \<and> \<not> playable_urls_included (ps_metadata st)"

lemma valid_metadata: "validate_state rules st = Inr () \<Longrightarrow> metadata_ok st"
  by (simp add: validate_state_ok check_header_def checks_ok metadata_ok_def)

lemma validate_metadata:
  assumes "metadata_ok st" "metadata_ok (st\<lparr>ps_metadata := x\<rparr>)"
  shows "validate_state rules (st\<lparr>ps_metadata := x\<rparr>) = Inr () \<longleftrightarrow> validate_state rules st = Inr ()"
proof -
  have "validate_checkpoint rules (st\<lparr>ps_metadata := x\<rparr>) cp = validate_checkpoint rules st cp" for cp
    by (simp add: validate_checkpoint_def)
  moreover have "check_header (st\<lparr>ps_metadata := x\<rparr>) = Inr () \<longleftrightarrow> check_header st = Inr ()"
    using assms by (auto simp: check_header_def checks_ok metadata_ok_def)
  ultimately show ?thesis unfolding validate_state_ok by simp
qed

lemma normalize_metadata:
  assumes "metadata_ok st" "metadata_ok (st\<lparr>ps_metadata := x\<rparr>)"
  shows "ok_part (normalize_state rules (st\<lparr>ps_metadata := x\<rparr>)) = map_option (\<lambda>s. s\<lparr>ps_metadata := x\<rparr>) (ok_part (normalize_state rules st))"
proof (cases "validate_state rules st")
  case (Inl e)
  then have "validate_state rules (st\<lparr>ps_metadata := x\<rparr>) \<noteq> Inr ()" using validate_metadata [OF assms, of rules] by simp
  then show ?thesis using Inl by (cases "validate_state rules (st\<lparr>ps_metadata := x\<rparr>)") (auto simp: normalize_state_def)
next
  case (Inr u)
  then have "validate_state rules (st\<lparr>ps_metadata := x\<rparr>) = Inr ()" using validate_metadata [OF assms, of rules] by simp
  then show ?thesis using Inr by (simp add: normalize_state_def Let_def)
qed

lemma joined_comm:
  assumes "ps_kind here = ps_kind there" "dataset_id here = dataset_id there"
    "om_wf (ps_version_vector here)" "om_wf (ps_version_vector there)"
  shows "joined there here ops registry cp = (joined here there ops registry cp)\<lparr>ps_metadata := ps_metadata there\<rparr>"
  using assms vv_merge_comm [of "ps_version_vector here" "ps_version_vector there"]
  by (simp add: joined_def max.commute)

lemma survivors_comm: "ids_apart (set (xs @ ys)) \<Longrightarrow> survivors cp (xs @ ys) = survivors cp (ys @ xs)"
  using by_id_cong [of "xs @ ys" "ys @ xs"] by (simp add: survivors_def Un_commute)

lemma union_state_comm:
  assumes "validate_state rules here = Inr ()" "validate_state rules there = Inr ()" "dataset_id here = dataset_id there"
    "om_wf (ps_version_vector here)" "om_wf (ps_version_vector there)"
  shows "union_state rules there here = map_option (\<lambda>s. s\<lparr>ps_metadata := ps_metadata there\<rparr>) (union_state rules here there)"
proof -
  have kind: "ps_kind here = ps_kind there"
    using assms(1,2) by (simp add: validate_state_ok check_header_def checks_ok)
  show ?thesis
  proof (cases "ids_apart (set (ps_operations here @ ps_operations there))")
    case True
    then have "ids_apart (set (ps_operations there @ ps_operations here))" by (simp add: Un_commute)
    then show ?thesis
      using True survivors_comm [OF True] select_checkpoint_comm [of "ps_checkpoint here" "ps_checkpoint there"]
        joined_comm [OF kind assms(3-5)]
      by (simp add: union_state_def Let_def map_conv_bind_option)
  next
    case False
    then show ?thesis by (simp add: union_state_def Let_def Un_commute)
  qed
qed

lemma union_metadata: "union_state rules here there = Some st \<Longrightarrow> ps_metadata st = ps_metadata here"
  by (auto simp: union_state_def Let_def bind_eq_Some_conv joined_def split: if_splits)

text \<open>C17. Merging commutes.  Whichever replica starts, the merge succeeds or fails alike, and the two
  results differ at most in the local metadata: same operations, version vector, registry,
  checkpoint, schema and revision.\<close>

theorem merge_commutes:
  assumes "om_wf (ps_version_vector here)" "om_wf (ps_version_vector there)"
  shows "map_option (\<lambda>(st, _). st\<lparr>ps_metadata := x\<rparr>) (ok_part (merge_states rules here there))
    = map_option (\<lambda>(st, _). st\<lparr>ps_metadata := x\<rparr>) (ok_part (merge_states rules there here))"
proof (cases "validate_state rules here = Inr () \<and> validate_state rules there = Inr () \<and> dataset_id here = dataset_id there")
  case False
  then have "ok_part (merge_states rules here there) = None" "ok_part (merge_states rules there here) = None"
    using merge_states_None [of rules here there] merge_states_None [of rules there here] by auto
  then show ?thesis by simp
next
  case True
  let ?y = "ps_metadata there"
  have blank: "map_option (\<lambda>(st, _). st\<lparr>ps_metadata := x\<rparr>) r = map_option (\<lambda>st. st\<lparr>ps_metadata := x\<rparr>) (map_option fst r)"
    for r :: "(('a, 'b) personal_state \<times> merge_summary) option"
    by (simp add: option.map_comp o_def split_def)
  show ?thesis
  proof (cases "union_state rules here there")
    case None
    then show ?thesis using True union_state_comm [of rules here there] assms
      by (simp add: blank merge_states_union)
  next
    case (Some st)
    have "union_state rules there here = Some (st\<lparr>ps_metadata := ?y\<rparr>)"
      using union_state_comm [of rules here there] True assms Some by simp
    moreover have "ok_part (normalize_state rules (st\<lparr>ps_metadata := ?y\<rparr>)) = map_option (\<lambda>s. s\<lparr>ps_metadata := ?y\<rparr>) (ok_part (normalize_state rules st))"
      using valid_metadata True union_metadata [OF Some]
      by (intro normalize_metadata) (auto simp: metadata_ok_def)
    ultimately show ?thesis using True Some
      by (simp add: blank merge_states_union option.map_comp o_def)
  qed
qed

lemma survivors_set: "ids_apart (set ops) \<Longrightarrow> set (survivors cp ops) = {e \<in> set ops. operation_survives_checkpoint cp e}"
  unfolding survivors_def set_map_snd using by_id_get [of ops] om_get_iff [OF by_id_wf, of ops] by auto

lemma survivors_ids: "ids_apart (set ops) \<Longrightarrow> distinct (map operation_id (survivors cp ops))"
proof -
  assume ia: "ids_apart (set ops)"
  have "map operation_id (map snd (filter P (by_id ops))) = map fst (filter P (by_id ops))" for P
    using by_id_get [OF ia] om_get_iff [OF by_id_wf, of ops] by auto
  then show ?thesis using om_wf_distinct [OF om_wf_filter [OF by_id_wf]] unfolding survivors_def by metis
qed

lemma union_fields:
  assumes "union_state rules here there = Some st"
  shows "ids_apart (set (ps_operations here) \<union> set (ps_operations there))
    \<and> ps_operations st = survivors (ps_checkpoint st) (ps_operations here @ ps_operations there)
    \<and> ps_version_vector st = vv_merge (ps_version_vector here) (ps_version_vector there)
    \<and> select_checkpoint (ps_checkpoint here) (ps_checkpoint there) = Inr (ps_checkpoint st)"
  using assms by (auto simp: union_state_def Let_def bind_eq_Some_conv joined_def split: if_splits)

lemma merge_states_Some:
  assumes "merge_states rules here there = Inr (m, s)"
  shows "validate_state rules here = Inr ()" "validate_state rules there = Inr ()" "dataset_id here = dataset_id there"
    and "\<exists>st. union_state rules here there = Some st \<and> normalize_state rules st = Inr m"
proof -
  have ok: "ok_part (merge_states rules here there) = Some (m, s)" by (simp add: assms)
  show v: "validate_state rules here = Inr ()" "validate_state rules there = Inr ()" "dataset_id here = dataset_id there"
    using merge_states_None [of rules here there] ok by auto
  show "\<exists>st. union_state rules here there = Some st \<and> normalize_state rules st = Inr m"
    using merge_states_union [OF v] ok by (cases "union_state rules here there") (auto simp: eq_commute [of "Some m"])
qed

lemma union_vectors_wf:
  assumes "union_state rules here there = Some st" "vectors_wf here" "vectors_wf there"
  shows "vectors_wf st"
proof -
  note f = union_fields [OF assms(1)]
  have "set (ps_operations st) \<subseteq> set (ps_operations here) \<union> set (ps_operations there)"
    using f survivors_set [of "ps_operations here @ ps_operations there" "ps_checkpoint st"] by auto
  then show ?thesis using assms(2,3) f by (auto simp: vectors_wf_def vv_merge_wf)
qed

lemma merge_states_count: "merge_states rules here there = Inr (m, s) \<Longrightarrow> union_state rules here there = Some st \<Longrightarrow>
    added_operations s = length (filter (\<lambda>e. operation_id e \<notin> operation_id ` set (ps_operations here)) (ps_operations st))"
proof -
  assume m: "merge_states rules here there = Inr (m, s)" and st: "union_state rules here there = Some st"
  note v = merge_states_Some(1,2,3) [OF m] and f = union_fields [OF st]
  have ia: "ids_apart (set (ps_operations here))" "ids_apart (set (ps_operations there))"
    using v by (simp_all add: validate_state_ok consistent_ids_apart)
  obtain n k where loop: "merge_loop (operation_id ` set (ps_operations here)) (ps_operations there)
      (by_id (ps_operations here), 0, 0) = Inr (by_id (ps_operations here @ ps_operations there), n, k)"
    using merge_loop_by_id [OF ia, of "operation_id ` set (ps_operations here)" 0 0] f by auto
  have "filter P (survivors cp ops) = map snd (filter (\<lambda>(_, e). P e) (filter (\<lambda>(_, e). operation_survives_checkpoint cp e) (by_id ops)))"
    for P cp and ops :: "('a, 'b) operation_envelope list"
    by (simp add: survivors_def filter_map o_def split_def)
  then show ?thesis using m v loop f
    by (auto simp: merge_states_def Let_def bind_ok_ok split_def)
qed

text \<open>C18. The merge is the union.  A merge that succeeds returns a valid state, in canonical order, whose
  operations are those of either replica that survive the selected checkpoint; its version vector
  covers exactly what one of the two covers, and the summary counts the operations that are new.\<close>

theorem merge_is_union:
  assumes "merge_states rules here there = Inr (m, s)" "vectors_wf here" "vectors_wf there"
  shows "validate_state rules m = Inr ()
    \<and> set (ps_operations m) = {e \<in> set (ps_operations here) \<union> set (ps_operations there).
         operation_survives_checkpoint (ps_checkpoint m) e}
    \<and> sorted_wrt (<) (map envelope_key (ps_operations m))
    \<and> (\<forall>d. vv_covers (ps_version_vector m) d \<longleftrightarrow>
         vv_covers (ps_version_vector here) d \<or> vv_covers (ps_version_vector there) d)
    \<and> added_operations s = card {e \<in> set (ps_operations m). operation_id e \<notin> operation_id ` set (ps_operations here)}"
proof -
  obtain st where st: "union_state rules here there = Some st" "normalize_state rules st = Inr m"
    using merge_states_Some [OF assms(1)] by blast
  note f = union_fields [OF st(1)]
  note n = normalize_ok [OF st(2) union_vectors_wf [OF st(1) assms(2,3)]]
  have cp: "ps_checkpoint m = ps_checkpoint st" and vv: "ps_version_vector m = ps_version_vector st" using n by simp_all
  have iau: "ids_apart (set (ps_operations here @ ps_operations there))" using f by simp
  have set: "set (ps_operations st) = {e \<in> set (ps_operations here) \<union> set (ps_operations there).
      operation_survives_checkpoint (ps_checkpoint st) e}"
    using survivors_set [OF iau, of "ps_checkpoint st"] f by simp
  have "ids_apart (set (ps_operations st))" using n by (simp add: validate_state_ok consistent_ids_apart)
  note norm = normal_order [OF this]
  have "distinct (ps_operations st)" using survivors_ids [OF iau, of "ps_checkpoint st"] f
    by (simp add: distinct_map)
  then have "added_operations s = card (set (filter (\<lambda>e. operation_id e \<notin> operation_id ` set (ps_operations here)) (ps_operations st)))"
    using merge_states_count [OF assms(1) st(1)] distinct_card [OF distinct_filter] by metis
  moreover have same: "set (ps_operations m) = set (ps_operations st)" using n norm by simp
  ultimately have added: "added_operations s
      = card {e \<in> set (ps_operations m). operation_id e \<notin> operation_id ` set (ps_operations here)}"
    by (simp only: set_filter)
  have cover: "vv_covers (ps_version_vector m) d \<longleftrightarrow>
         vv_covers (ps_version_vector here) d \<or> vv_covers (ps_version_vector there) d" for d
    using f vv assms(2,3) by (auto simp: vectors_wf_def vv_covers_def vv_observed_merge max_def)
  have ops: "set (ps_operations m) = {e \<in> set (ps_operations here) \<union> set (ps_operations there).
         operation_survives_checkpoint (ps_checkpoint m) e}" unfolding same set cp ..
  have "sorted_wrt (<) (map envelope_key (ps_operations m))" using n norm by simp
  then show ?thesis using n ops cover added by blast
qed

lemma valid_survivors:
  assumes "validate_state rules st = Inr ()" "e \<in> set (ps_operations st)"
  shows "operation_survives_checkpoint (map_option without_acknowledgements (ps_checkpoint st)) e"
proof (cases "ps_checkpoint st")
  case None
  then show ?thesis by (simp add: operation_survives_checkpoint_def)
next
  case (Some cp)
  then have "validate_checkpoint rules st cp = Inr ()" using assms(1) by (simp add: validate_state_ok)
  then have "\<not> resurrected is_engagement (retained_engagement_operations cp) (coverage cp) e"
    "\<not> resurrected is_listening (retained_listening_operations cp) (coverage cp) e"
    using assms(2) by (simp_all add: validate_checkpoint_def checks_ok list_ex_iff)
  then show ?thesis
    by (cases "operation e") (auto simp: Some operation_survives_checkpoint_def resurrected_def without_acknowledgements_def)
qed

lemma select_checkpoint_same: "select_checkpoint cp cp = Inr (map_option without_acknowledgements cp)"
  by (cases cp) (simp_all add: select_checkpoint_def checkpoint_content_eq_def)

text \<open>Merging a replica with itself adds nothing: the result is the normalised replica, without the
  acknowledgements and the fingerprint it does not carry over.\<close>

theorem merge_idempotent:
  assumes "validate_state rules st = Inr ()" "vectors_wf st"
  shows "\<exists>s. merge_states rules st st = Inr (st\<lparr>
      ps_operations := dedup_ids (sort_envelopes (ps_operations st)),
      ps_checkpoint := map_option without_acknowledgements (ps_checkpoint st),
      projection_fingerprint := None\<rparr>, s) \<and> added_operations s = 0"
proof -
  let ?cp = "map_option without_acknowledgements (ps_checkpoint st)"
  let ?ops = "survivors ?cp (ps_operations st @ ps_operations st)"
  let ?st = "st\<lparr>ps_operations := ?ops, ps_checkpoint := ?cp, projection_fingerprint := None\<rparr>"
  note v = assms(1) [unfolded validate_state_ok]
  have ia: "ids_apart (set (ps_operations st))" using v consistent_ids_apart by blast
  then have iau: "ids_apart (set (ps_operations st @ ps_operations st))" by simp
  have set: "set ?ops = set (ps_operations st)"
    using survivors_set [OF iau, of ?cp] valid_survivors [OF assms(1)] by auto
  have len: "length ?ops \<le> length (ps_operations st)"
  proof -
    have "distinct ?ops" using survivors_ids [OF iau] by (simp add: distinct_map)
    then have "length ?ops = card (set (ps_operations st))" using set by (metis distinct_card)
    then show ?thesis by (simp add: card_length)
  qed
  have reg: "derive_device_registry (check_identity rules) ?ops = Inr (ps_registry st)"
    using derive_set [OF set, of "check_identity rules"] v by (simp add: ok_part_Some [symmetric] del: ok_part_Some)
  have union: "union_state rules st st = Some ?st"
    using ia reg assms(2) by (simp add: union_state_def Let_def select_checkpoint_same joined_def vv_merge_idem vectors_wf_def)
  have "validate_checkpoint rules ?st (without_acknowledgements cp) = Inr () \<and> check_checkpoint_shape (without_acknowledgements cp) = Inr ()"
    if "ps_checkpoint st = Some cp" for cp
  proof -
    have "validate_checkpoint rules ?st (without_acknowledgements cp) = validate_checkpoint rules (st\<lparr>ps_operations := ?ops\<rparr>) cp"
      by (simp add: validate_checkpoint_def without_acknowledgements_def)
    also have "\<dots> = Inr ()" using validate_checkpoint_set [OF ia set] v that by simp
    finally show ?thesis using v that by (simp add: check_checkpoint_shape_def checks_ok without_acknowledgements_def)
  qed
  then have cps: "\<forall>cp. ps_checkpoint ?st = Some cp \<longrightarrow> check_checkpoint_shape cp = Inr () \<and> validate_checkpoint rules ?st cp = Inr ()"
    by (cases "ps_checkpoint st") auto
  have header: "check_header ?st = Inr ()" using v len by (auto simp: check_header_def checks_ok)
  have "validate_state rules ?st = Inr ()" unfolding validate_state_ok
  proof (intro conjI)
    show "derive_device_registry (check_identity rules) (ps_operations ?st) = Inr (ps_registry ?st)" using reg by simp
  qed (use header cps v set in simp_all)
  moreover have "vectors_wf ?st" using assms(2) set by (simp add: vectors_wf_def)
  moreover obtain st' where "normalize_state rules ?st = Inr st'"
    using calculation(1) by (simp add: normalize_state_def Let_def)
  ultimately have "normalize_state rules ?st = Inr (?st\<lparr>ps_operations := dedup_ids (sort_envelopes ?ops)\<rparr>)"
    using normalize_ok [of rules ?st st'] by simp
  moreover have "dedup_ids (sort_envelopes ?ops) = dedup_ids (sort_envelopes (ps_operations st))"
    using normal_order_filter [OF ia set, of "\<lambda>_. True"] by simp
  ultimately have "map_option fst (ok_part (merge_states rules st st)) = Some (st\<lparr>
      ps_operations := dedup_ids (sort_envelopes (ps_operations st)),
      ps_checkpoint := ?cp, projection_fingerprint := None\<rparr>)"
    unfolding merge_states_union [OF assms(1,1) refl] union by simp
  then obtain s where s: "merge_states rules st st = Inr (st\<lparr>
      ps_operations := dedup_ids (sort_envelopes (ps_operations st)),
      ps_checkpoint := ?cp, projection_fingerprint := None\<rparr>, s)" by auto
  have "added_operations s = 0"
    using merge_states_count [OF s union] set by simp
  then show ?thesis using s by blast
qed

section \<open>Two replicas\<close>

definition demo_rules :: "(unit, unit) rules" where
  "demo_rules = \<lparr>check_identity = \<lambda>_. Inr (), check_baseline = \<lambda>_. Inr (), check_listening = \<lambda>_. Inr (),
     resume_device = \<lambda>_. None, checkpoint_hash = \<lambda>_ _ _ _ _ _ _. Inr (utf ''0'')\<rparr>"

definition demo_op :: "string \<Rightarrow> (unit, unit) operation_envelope" where
  "demo_op device = \<lparr>operation_id = utf device,
     op_stamp = \<lparr>stamp_dot = \<lparr>dot_device = utf device, dot_sequence = 1\<rparr>, stamp_observed = [], recorded_at_unix = 0\<rparr>,
     op_origin = OriginLocal, operation = UpsertPlaylist (utf ''p'') (utf ''mix'')\<rparr>"

definition demo_state :: "string \<Rightarrow> (unit, unit) personal_state" where
  "demo_state device = \<lparr>ps_kind = PERSONAL_STATE_KIND, schema_version = 2, dataset_id = utf ''d'', ps_revision = 0,
     ps_registry = [], ps_version_vector = [(utf device, 1)], ps_operations = [demo_op device],
     ps_checkpoint = None,
     ps_metadata = \<lparr>source_app_version = utf ''1'', contains_listening_history = True, credentials_included = False,
       filesystem_paths_included = False, playable_urls_included = False\<rparr>,
     projection_fingerprint = None\<rparr>"

lemmas state_eval = demo_state_def demo_op_def demo_rules_def validate_state_ok check_header_def checks_ok
  PERSONAL_STATE_SCHEMA_VERSION_def PERSONAL_STATE_LISTENING_SCHEMA_VERSION_def registry_eval
  MAX_OPERATIONS_def operation_ok_def Let_def vector_dominates_def validate_listening_author_def
  vv_covers_def vv_observed_def consistent_def

lemma demo_valid: "validate_state demo_rules (demo_state ''a'') = Inr ()" "validate_state demo_rules (demo_state ''b'') = Inr ()"
  by (simp_all add: state_eval)

lemma demo_wf: "vectors_wf (demo_state d)"
  by (simp add: vectors_wf_def demo_state_def demo_op_def om_wf_def)

lemma demo_merge: "\<exists>m s. merge_states demo_rules (demo_state ''a'') (demo_state ''b'') = Inr (m, s)"
proof -
  have ids: "ids_apart (set [demo_op ''a'', demo_op ''b''])" by (simp add: ids_apart_def demo_op_def utf_def)
  have by_id: "survivors None [demo_op ''a'', demo_op ''b''] = [demo_op ''a'', demo_op ''b'']"
    by (simp add: survivors_def by_id_def demo_op_def operation_survives_checkpoint_def utf_def)
  have "union_state demo_rules (demo_state ''a'') (demo_state ''b'')
      = Some (joined (demo_state ''a'') (demo_state ''b'') [demo_op ''a'', demo_op ''b''] [] None)"
    using ids by_id by (simp add: union_state_def Let_def demo_state_def select_checkpoint_def)
       (simp add: demo_op_def registry_eval)
  moreover have "validate_state demo_rules (joined (demo_state ''a'') (demo_state ''b'') [demo_op ''a'', demo_op ''b''] [] None) = Inr ()"
    by (simp add: state_eval joined_def vv_merge_def)
  ultimately have "map_option fst (ok_part (merge_states demo_rules (demo_state ''a'') (demo_state ''b''))) \<noteq> None"
    using demo_valid by (subst merge_states_union) (simp_all add: demo_state_def normalize_state_def Let_def)
  then show ?thesis by auto
qed

theorem merge_commutes_witness:
  "map_option (\<lambda>(st, _). st\<lparr>ps_metadata := ps_metadata (demo_state ''a'')\<rparr>)
     (ok_part (merge_states demo_rules (demo_state ''a'') (demo_state ''b'')))
   = map_option (\<lambda>(st, _). st\<lparr>ps_metadata := ps_metadata (demo_state ''a'')\<rparr>)
     (ok_part (merge_states demo_rules (demo_state ''b'') (demo_state ''a'')))"
proof -
  have "om_wf (ps_version_vector (demo_state d))" for d using demo_wf by (simp add: vectors_wf_def)
  then show ?thesis by (intro merge_commutes)
qed

theorem merge_is_union_witness:
  "\<exists>m s. merge_states demo_rules (demo_state ''a'') (demo_state ''b'') = Inr (m, s)
     \<and> set (ps_operations m) \<subseteq> {demo_op ''a'', demo_op ''b''} \<and> validate_state demo_rules m = Inr ()"
proof -
  obtain m s where m: "merge_states demo_rules (demo_state ''a'') (demo_state ''b'') = Inr (m, s)"
    using demo_merge by blast
  then show ?thesis using merge_is_union [OF m demo_wf demo_wf] by (auto simp: demo_state_def)
qed

theorem merge_idempotent_witness:
  "\<exists>m s. merge_states demo_rules (demo_state ''a'') (demo_state ''a'') = Inr (m, s) \<and> added_operations s = 0"
  using merge_idempotent [OF demo_valid(1) demo_wf] by blast

end
