(* ===== verification/Reducer.thy ===== *)
theory Reducer
  imports PersonalModel
begin

text \<open>
  The registers of \<open>src/personal_state/reducer.rs\<close>.  The reducer folds the ledger into last-writer
  registers; \<open>stamp_order\<close> decides between two writes: the one that has observed the other wins, and
  of two concurrent ones the one with the larger dot.  A register written by the imported baseline
  gives way to every operation.
\<close>

datatype ordering = Less | Equal | Greater

definition cmp :: "'a :: linorder \<Rightarrow> 'a \<Rightarrow> ordering" where
  "cmp a b = (if a < b then Less else if a = b then Equal else Greater)"

fun or_then :: "ordering \<Rightarrow> ordering \<Rightarrow> ordering" where
  "or_then Equal o2 = o2"
| "or_then o1 _ = o1"

fun reverse_ordering :: "ordering \<Rightarrow> ordering" where
  "reverse_ordering Less = Greater"
| "reverse_ordering Equal = Equal"
| "reverse_ordering Greater = Less"

text \<open>The derived \<open>Ord\<close> of \<open>Dot\<close>: the device, then the sequence.\<close>

definition dot_cmp :: "dot \<Rightarrow> dot \<Rightarrow> ordering" where
  "dot_cmp a b = or_then (cmp (dot_device a) (dot_device b)) (cmp (dot_sequence a) (dot_sequence b))"

definition stamp_order :: "causal_stamp \<Rightarrow> ustring \<Rightarrow> causal_stamp \<Rightarrow> ustring \<Rightarrow> ordering" where
  "stamp_order candidate candidate_id current current_id =
     (if happens_after candidate current then Greater
      else if happens_after current candidate then Less
      else or_then (dot_cmp (stamp_dot candidate) (stamp_dot current)) (cmp candidate_id current_id))"

record 'v register =
  reg_stamp :: causal_stamp
  reg_operation_id :: ustring
  from_baseline :: bool
  reg_value :: 'v

definition register_new :: "('b, 'l) operation_envelope \<Rightarrow> 'v \<Rightarrow> 'v register" where
  "register_new e v = \<lparr>reg_stamp = op_stamp e, reg_operation_id = operation_id e,
     from_baseline = False, reg_value = v\<rparr>"

definition register_baseline :: "('b, 'l) operation_envelope \<Rightarrow> 'v \<Rightarrow> 'v register" where
  "register_baseline e v = \<lparr>reg_stamp = op_stamp e, reg_operation_id = operation_id e,
     from_baseline = True, reg_value = v\<rparr>"

definition register_accepts :: "'v register \<Rightarrow> ('b, 'l) operation_envelope \<Rightarrow> bool" where
  "register_accepts r e \<longleftrightarrow> from_baseline r
     \<or> stamp_order (op_stamp e) (operation_id e) (reg_stamp r) (reg_operation_id r) = Greater"

definition register_update :: "'v register \<Rightarrow> ('b, 'l) operation_envelope \<Rightarrow> 'v \<Rightarrow> 'v register" where
  "register_update r e v = (if register_accepts r e then register_new e v else r)"

definition register_merge :: "'v register \<Rightarrow> 'v register \<Rightarrow> 'v register" where
  "register_merge r candidate =
     (if from_baseline r
         \<or> stamp_order (reg_stamp candidate) (reg_operation_id candidate) (reg_stamp r) (reg_operation_id r) = Greater
      then candidate else r)"

definition update_register ::
    "'k :: linorder \<Rightarrow> ('b, 'l) operation_envelope \<Rightarrow> 'v \<Rightarrow> ('k \<times> 'v register) list \<Rightarrow> ('k \<times> 'v register) list" where
  "update_register key e v registers = (case om_get registers key of
      Some r \<Rightarrow> om_insert key (register_update r e v) registers
    | None \<Rightarrow> om_insert key (register_new e v) registers)"

definition update_optional_register ::
    "'v register option \<Rightarrow> ('b, 'l) operation_envelope \<Rightarrow> 'v \<Rightarrow> 'v register option" where
  "update_optional_register register e v = (case register of
      Some r \<Rightarrow> Some (register_update r e v)
    | None \<Rightarrow> Some (register_new e v))"

section \<open>The order of stamps\<close>

lemma cmp_swap: "cmp a b = reverse_ordering (cmp b a)"
  by (auto simp: cmp_def)

lemma or_then_swap: "reverse_ordering (or_then a b) = or_then (reverse_ordering a) (reverse_ordering b)"
  by (cases a) simp_all

lemma or_then_Equal [simp]: "or_then a b = Equal \<longleftrightarrow> a = Equal \<and> b = Equal"
  by (cases a) simp_all

lemma cmp_Equal [simp]: "cmp a b = Equal \<longleftrightarrow> a = b"
  by (auto simp: cmp_def)

lemma dot_cmp_swap: "dot_cmp a b = reverse_ordering (dot_cmp b a)"
  unfolding dot_cmp_def or_then_swap by (metis cmp_swap)

lemma dot_cmp_Equal [simp]: "dot_cmp a b = Equal \<longleftrightarrow> a = b"
  by (auto simp: dot_cmp_def)

text \<open>Two stamps that have not observed each other.\<close>

definition concurrent :: "causal_stamp \<Rightarrow> causal_stamp \<Rightarrow> bool" where
  "concurrent s t \<longleftrightarrow> \<not> happens_after s t \<and> \<not> happens_after t s"

lemma stamp_order_swap:
  assumes "\<not> (happens_after s t \<and> happens_after t s)"
  shows "stamp_order s i t j = reverse_ordering (stamp_order t j s i)"
  using assms by (auto simp: stamp_order_def or_then_swap dot_cmp_swap [of "stamp_dot s"] cmp_swap [of i])

section \<open>Concurrent writes\<close>

text \<open>The key that decides between concurrent writes.\<close>

definition earlier :: "('b, 'l) operation_envelope \<Rightarrow> ('b, 'l) operation_envelope \<Rightarrow> bool" where
  "earlier a b \<longleftrightarrow> or_then (dot_cmp (stamp_dot (op_stamp a)) (stamp_dot (op_stamp b)))
     (cmp (operation_id a) (operation_id b)) = Less"

lemma or_then_Less: "or_then a b = Less \<longleftrightarrow> a = Less \<or> (a = Equal \<and> b = Less)"
  by (cases a) simp_all

lemma reverse_Greater: "reverse_ordering a = Greater \<longleftrightarrow> a = Less"
  by (cases a) simp_all

lemma cmp_Less [simp]: "cmp a b = Less \<longleftrightarrow> a < b"
  by (auto simp: cmp_def)

lemma dot_cmp_Less: "dot_cmp a b = Less \<longleftrightarrow>
    dot_device a < dot_device b \<or> (dot_device a = dot_device b \<and> dot_sequence a < dot_sequence b)"
  by (simp add: dot_cmp_def or_then_Less)

lemma earlier_iff: "earlier a b \<longleftrightarrow>
    (let s = stamp_dot (op_stamp a); t = stamp_dot (op_stamp b)
     in dot_device s < dot_device t \<or> (dot_device s = dot_device t \<and> (dot_sequence s < dot_sequence t
          \<or> (dot_sequence s = dot_sequence t \<and> operation_id a < operation_id b))))"
  by (auto simp: earlier_def or_then_Less dot_cmp_Less Let_def)

lemma earlier_trans: "earlier a b \<Longrightarrow> earlier b c \<Longrightarrow> earlier a c"
  by (auto simp: earlier_iff Let_def)

lemma earlier_irrefl: "\<not> earlier a a"
  by (simp add: earlier_iff Let_def)

definition same_key :: "('b, 'l) operation_envelope \<Rightarrow> ('b, 'l) operation_envelope \<Rightarrow> bool" where
  "same_key a b \<longleftrightarrow> stamp_dot (op_stamp a) = stamp_dot (op_stamp b) \<and> operation_id a = operation_id b"

lemma earlier_total: "earlier a b \<or> earlier b a \<or> same_key a b"
  by (auto simp: earlier_iff Let_def same_key_def)

text \<open>A set of writes that are pairwise concurrent and named apart by their dot and id.\<close>

definition independent :: "(('b, 'l) operation_envelope \<times> 'v) set \<Rightarrow> bool" where
  "independent W \<longleftrightarrow> (\<forall>x \<in> W. \<forall>y \<in> W. concurrent (op_stamp (fst x)) (op_stamp (fst y))
     \<and> (same_key (fst x) (fst y) \<longrightarrow> x = y))"

definition later_of :: "('b, 'l) operation_envelope \<times> 'v \<Rightarrow> ('b, 'l) operation_envelope \<times> 'v
    \<Rightarrow> ('b, 'l) operation_envelope \<times> 'v" where
  "later_of x y = (if earlier (fst x) (fst y) then y else x)"

lemma later_of_comm: "independent W \<Longrightarrow> x \<in> W \<Longrightarrow> y \<in> W \<Longrightarrow> later_of x y = later_of y x"
  using earlier_total [of "fst x" "fst y"] earlier_trans [of "fst x" "fst y" "fst x"] earlier_irrefl [of "fst x"]
  by (auto simp: later_of_def independent_def)

lemma later_of_assoc: "independent W \<Longrightarrow> x \<in> W \<Longrightarrow> y \<in> W \<Longrightarrow> z \<in> W \<Longrightarrow>
    later_of (later_of x y) z = later_of x (later_of y z)"
  using earlier_total [of "fst x" "fst y"] earlier_total [of "fst y" "fst z"] earlier_total [of "fst x" "fst z"]
    earlier_trans [of "fst x" "fst y" "fst z"] earlier_trans [of "fst x" "fst z" "fst y"]
  by (auto simp: later_of_def independent_def)

lemma later_of_in: "x \<in> W \<Longrightarrow> y \<in> W \<Longrightarrow> later_of x y \<in> W"
  by (simp add: later_of_def)

definition holding :: "('b, 'l) operation_envelope \<times> 'v \<Rightarrow> 'v register" where
  "holding x = register_new (fst x) (snd x)"

lemma update_independent:
  assumes "independent W" "x \<in> W" "y \<in> W"
  shows "register_update (holding x) (fst y) (snd y) = holding (later_of x y)"
proof -
  have "\<not> happens_after (op_stamp (fst y)) (op_stamp (fst x)) \<and> \<not> happens_after (op_stamp (fst x)) (op_stamp (fst y))"
    using assms by (auto simp: independent_def concurrent_def)
  then have "stamp_order (op_stamp (fst y)) (operation_id (fst y)) (op_stamp (fst x)) (operation_id (fst x))
      = reverse_ordering (or_then (dot_cmp (stamp_dot (op_stamp (fst x))) (stamp_dot (op_stamp (fst y))))
         (cmp (operation_id (fst x)) (operation_id (fst y))))"
    by (simp add: stamp_order_def or_then_swap) (metis cmp_swap dot_cmp_swap)
  then have "stamp_order (op_stamp (fst y)) (operation_id (fst y)) (op_stamp (fst x)) (operation_id (fst x)) = Greater
      \<longleftrightarrow> earlier (fst x) (fst y)"
    by (simp only: earlier_def reverse_Greater)
  then show ?thesis
    by (simp add: register_update_def register_accepts_def holding_def register_new_def later_of_def)
qed

lemma optional_None: "update_optional_register None (fst z) (snd z) = Some (holding z)"
  by (simp add: update_optional_register_def holding_def)

lemma optional_Some: "independent W \<Longrightarrow> z \<in> W \<Longrightarrow> w \<in> W \<Longrightarrow>
    update_optional_register (Some (holding z)) (fst w) (snd w) = Some (holding (later_of z w))"
  by (simp add: update_independent update_optional_register_def)

definition write_step :: "('b, 'l) operation_envelope \<times> 'v \<Rightarrow> 'v register option \<Rightarrow> 'v register option option" where
  "write_step x r = Some (update_optional_register r (fst x) (snd x))"

lemma independent_commuting:
  assumes W: "independent W"
  shows "commuting_steps (\<lambda>r. r = None \<or> (\<exists>x \<in> W. r = Some (holding x))) (\<lambda>x. x \<in> W) write_step"
proof unfold_locales
  fix r t :: "'c register option" and x
  assume r: "r = None \<or> (\<exists>x \<in> W. r = Some (holding x))" and x: "x \<in> W" and t: "write_step x r = Some t"
  show "t = None \<or> (\<exists>x \<in> W. t = Some (holding x))"
  proof (cases r)
    case None
    then show ?thesis using t x by (auto simp: write_step_def optional_None)
  next
    case (Some q)
    then obtain z where "z \<in> W" "r = Some (holding z)" using r by auto
    then have "t = Some (holding (later_of z x))" "later_of z x \<in> W"
      using t optional_Some [OF W _ x] later_of_in [OF _ x] by (simp_all add: write_step_def)
    then show ?thesis by blast
  qed
next
  fix r :: "'c register option" and x y
  assume r: "r = None \<or> (\<exists>x \<in> W. r = Some (holding x))" and xy: "x \<in> W" "y \<in> W"
  show "Option.bind (write_step x r) (write_step y) = Option.bind (write_step y r) (write_step x)"
  proof (cases r)
    case None
    then show ?thesis using later_of_comm [OF W xy] optional_Some [OF W] xy
      by (simp add: write_step_def optional_None)
  next
    case (Some q)
    then obtain z where z: "z \<in> W" "r = Some (holding z)" using r by auto
    have "later_of (later_of z x) y = later_of (later_of z y) x"
      using later_of_assoc [OF W z(1) xy] later_of_assoc [OF W z(1) xy(2,1)] later_of_comm [OF W xy] by simp
    then show ?thesis using xy z optional_Some [OF W] by (simp add: write_step_def later_of_in)
  qed
qed

text \<open>All the writes to one register, in ledger order.\<close>

definition write_all :: "(('b, 'l) operation_envelope \<times> 'v) list \<Rightarrow> 'v register option" where
  "write_all ws = foldl (\<lambda>r (e, v). update_optional_register r e v) None ws"

lemma foldl_write_run: "run_steps write_step ws r = Some (foldl (\<lambda>r (e, v). update_optional_register r e v) r ws)"
  by (induction ws arbitrary: r) (auto simp: write_step_def)

lemma later_of_bound:
  assumes "independent W" "w \<in> W" "a \<in> W" "\<not> earlier y (fst (later_of w a))"
  shows "\<not> earlier y (fst w) \<and> \<not> earlier y (fst a)"
proof (cases "earlier (fst w) (fst a)")
  case True
  then show ?thesis using assms(4) earlier_trans [of y "fst w" "fst a"] by (auto simp: later_of_def)
next
  case False
  then have "\<not> earlier y (fst w)" using assms(4) by (simp add: later_of_def)
  moreover have "earlier (fst a) (fst w) \<or> a = w"
    using earlier_total [of "fst a" "fst w"] False assms(1-3) by (auto simp: independent_def)
  ultimately show ?thesis using earlier_trans [of y "fst a" "fst w"] by auto
qed

lemma foldl_latest:
  assumes "independent W" "w \<in> W" "set ws \<subseteq> W"
  shows "\<exists>y \<in> W. foldl (\<lambda>r (e, v). update_optional_register r e v) (Some (holding w)) ws = Some (holding y)
    \<and> (y = w \<or> y \<in> set ws) \<and> (\<forall>x \<in> insert w (set ws). \<not> earlier (fst y) (fst x))"
  using assms(2,3)
proof (induction ws arbitrary: w)
  case Nil
  then show ?case using earlier_irrefl by auto
next
  case (Cons a ws)
  have a: "a \<in> W" "later_of w a \<in> W" using Cons.prems by (auto simp: later_of_def)
  obtain y where y: "y \<in> W" "y = later_of w a \<or> y \<in> set ws"
    "foldl (\<lambda>r (e, v). update_optional_register r e v) (Some (holding (later_of w a))) ws = Some (holding y)"
    and max: "\<forall>x \<in> insert (later_of w a) (set ws). \<not> earlier (fst y) (fst x)"
    using Cons.IH [OF a(2)] Cons.prems(2) by auto
  have "\<not> earlier (fst y) (fst w) \<and> \<not> earlier (fst y) (fst a)"
    using later_of_bound [OF assms(1) Cons.prems(1) a(1)] max by simp
  moreover have "foldl (\<lambda>r (e, v). update_optional_register r e v) (Some (holding w)) (a # ws) = Some (holding y)"
    using y(3) optional_Some [OF assms(1) Cons.prems(1) a(1)] by (simp add: split_def)
  moreover have "y = w \<or> y \<in> set (a # ws)" using y(2) by (auto simp: later_of_def split: if_splits)
  ultimately show ?case using y(1) max by auto
qed

text \<open>C34. Concurrent writes converge.  When the writes to a register are pairwise concurrent and differ
  in dot or operation id, the register ends with the same write whatever the order in which the
  reducer meets them: the one with the greatest dot (ties broken by the id).\<close>

theorem concurrent_writes_converge:
  assumes "independent (set (w # ws))" "mset ws' = mset (w # ws)"
  shows "\<exists>y \<in> set (w # ws). write_all (w # ws) = Some (holding y) \<and> write_all ws' = Some (holding y)
    \<and> (\<forall>x \<in> set (w # ws). \<not> earlier (fst y) (fst x))"
proof -
  have "set ws' = set (w # ws)" using assms(2) by (rule mset_eq_setD)
  then have "run_steps write_step ws' None = run_steps write_step (w # ws) None"
    by (intro commuting_steps.steps_mset [OF independent_commuting [OF assms(1)]]) (simp_all add: assms(2))
  then have "write_all ws' = write_all (w # ws)"
    by (simp only: foldl_write_run write_all_def option.inject)
  moreover have "write_all (w # ws) = foldl (\<lambda>r (e, v). update_optional_register r e v) (Some (holding w)) ws"
    by (simp add: write_all_def optional_None split_def)
  ultimately show ?thesis using foldl_latest [OF assms(1), of w ws] by auto
qed

definition rated :: "string \<Rightarrow> u64 \<Rightarrow> version_vector \<Rightarrow> rating \<Rightarrow> (unit, unit) operation_envelope \<times> rating" where
  "rated device n seen r = (\<lparr>operation_id = utf device,
     op_stamp = \<lparr>stamp_dot = \<lparr>dot_device = utf device, dot_sequence = n\<rparr>, stamp_observed = seen, recorded_at_unix = 0\<rparr>,
     op_origin = OriginLocal,
     operation = SetRating \<lparr>pt_key = LocalPlaceholder (utf ''t''), pt_title = [], pt_artist = [], pt_album = None,
       pt_duration_secs = None, pt_isrc = None\<rparr> r\<rparr>, r)"

lemmas stamp_eval = rated_def concurrent_def happens_after_def vv_covers_def vv_observed_def om_get_def
  stamp_order_def dot_cmp_def cmp_def utf_def same_key_def

theorem concurrent_writes_converge_witness:
  "write_all [rated ''b'' 1 [] Liked, rated ''a'' 1 [] Disliked] = write_all [rated ''a'' 1 [] Disliked, rated ''b'' 1 [] Liked]"
proof -
  have "independent (set [rated ''a'' 1 [] Disliked, rated ''b'' 1 [] Liked])"
    by (simp add: independent_def stamp_eval)
  then show ?thesis
    using concurrent_writes_converge [of "rated ''a'' 1 [] Disliked" "[rated ''b'' 1 [] Liked]"
        "[rated ''b'' 1 [] Liked, rated ''a'' 1 [] Disliked]"] by (auto simp: add_mset_commute)
qed


end
