(* ===== verification/PlaylistCycles.thy ===== *)
theory PlaylistCycles
  imports Reducer
begin

text \<open>
  The cycles among the entries of a playlist (\<open>src/personal_state/reducer.rs\<close>).  Every entry carries a
  register naming the entry it follows; concurrent moves can close a cycle of such references.
  \<open>repair_cycles\<close> cuts every cycle at its oldest move.
\<close>

record entry_registers =
  er_track :: "portable_track register"
  er_removed :: "bool register"
  er_position :: "playlist_entry_id option register"

type_synonym entry_map = "(playlist_entry_id \<times> entry_registers) list"

definition follows :: "entry_map \<Rightarrow> playlist_entry_id \<Rightarrow> playlist_entry_id option" where
  "follows entries k = (case om_get entries k of None \<Rightarrow> None | Some e \<Rightarrow> reg_value (er_position e))"

section \<open>Finding a cycle\<close>

text \<open>The inner loop: \<open>path\<close> are the entries visited from the start, \<open>positions\<close> their places in it.\<close>

lemma om_get_finite: "finite {k. om_get m k \<noteq> None}"
proof -
  have "{k. om_get m k \<noteq> None} = set (om_keys m)" using om_keys_iff by fastforce
  then show ?thesis by simp
qed

function walk :: "entry_map \<Rightarrow> playlist_entry_id list \<Rightarrow> playlist_entry_id option \<Rightarrow> playlist_entry_id list option" where
  "walk entries path cursor = (case cursor of
      None \<Rightarrow> None
    | Some entry_id \<Rightarrow> (case om_get entries entry_id of
          None \<Rightarrow> None
        | Some e \<Rightarrow> (case position (\<lambda>p. p = entry_id) path of
              Some index \<Rightarrow> Some (drop index path)
            | None \<Rightarrow> walk entries (path @ [entry_id]) (reg_value (er_position e)))))"
  by pat_completeness auto

termination
proof (relation "measure (\<lambda>(entries, path, _). card ({k. om_get entries k \<noteq> None} - set path))", goal_cases)
  case 1
  then show ?case by simp
next
  case (2 entries path cursor entry_id e)
  have "entry_id \<notin> set path" using position_NoneD [OF 2(3)] by blast
  then have "{k. om_get entries k \<noteq> None} - set (path @ [entry_id]) \<subset> {k. om_get entries k \<noteq> None} - set path"
    using 2(2) by auto
  then show ?case using om_get_finite [of entries] by (auto intro!: psubset_card_mono)
qed

declare walk.simps [simp del]

fun find_cycle_from :: "entry_map \<Rightarrow> playlist_entry_id list \<Rightarrow> playlist_entry_id list option" where
  "find_cycle_from entries [] = None"
| "find_cycle_from entries (start # rest) = (case walk entries [] (Some start) of
      Some cycle \<Rightarrow> Some cycle
    | None \<Rightarrow> find_cycle_from entries rest)"

definition find_cycle :: "entry_map \<Rightarrow> playlist_entry_id list option" where
  "find_cycle entries = find_cycle_from entries (om_keys entries)"

section \<open>Cutting cycles\<close>

text \<open>\<open>Iterator::min_by\<close> keeps the earlier of two elements unless it compares greater.\<close>

definition min_by :: "('a \<Rightarrow> 'a \<Rightarrow> ordering) \<Rightarrow> 'a list \<Rightarrow> 'a option" where
  "min_by f xs = (case xs of [] \<Rightarrow> None
     | x # rest \<Rightarrow> Some (foldl (\<lambda>m y. if f m y = Greater then y else m) x rest))"

text \<open>The comparison of two entries by the stamps of their moves.\<close>

definition position_order :: "entry_map \<Rightarrow> playlist_entry_id \<Rightarrow> playlist_entry_id \<Rightarrow> ordering" where
  "position_order entries left right = (case (om_get entries left, om_get entries right) of
      (Some l, Some r) \<Rightarrow> stamp_order (reg_stamp (er_position l)) (reg_operation_id (er_position l))
          (reg_stamp (er_position r)) (reg_operation_id (er_position r))
    | _ \<Rightarrow> Equal)"

text \<open>The choice of the entry to detach.  The map is indexed with the entries of the cycle, which panics
  when one is missing.\<close>

definition oldest_move :: "entry_map \<Rightarrow> playlist_entry_id list \<Rightarrow> playlist_entry_id run" where
  "oldest_move entries cycle = (if list_ex (\<lambda>k. om_get entries k = None) cycle then None
     else min_by (position_order entries) cycle)"

definition detach_entry :: "playlist_entry_id \<Rightarrow> entry_registers \<Rightarrow> entry_map \<Rightarrow> entry_map" where
  "detach_entry root e entries = om_insert root (e\<lparr>er_position := (er_position e)\<lparr>reg_value := None\<rparr>\<rparr>) entries"

lemma follows_cut: "follows (detach_entry root e entries) k = (if k = root then None else follows entries k)"
  by (simp add: follows_def detach_entry_def om_get_insert)

lemma min_by_in: "min_by f xs = Some x \<Longrightarrow> x \<in> set xs"
proof -
  have "foldl (\<lambda>m y. if f m y = Greater then y else m) y ys \<in> set (y # ys)" for y ys
  proof (induction ys arbitrary: y)
    case (Cons a ys)
    then show ?case using Cons.IH [of a] Cons.IH [of y] by auto
  qed simp
  then show "min_by f xs = Some x \<Longrightarrow> x \<in> set xs"
    unfolding min_by_def by (auto split: list.splits)
qed

lemma oldest_in: "oldest_move entries cycle = Some root \<Longrightarrow> root \<in> set cycle"
  by (auto simp: oldest_move_def dest: min_by_in split: if_splits)

text \<open>Every step of a walk follows a reference, so a cycle it reports is one.\<close>

definition chained :: "entry_map \<Rightarrow> playlist_entry_id list \<Rightarrow> playlist_entry_id option \<Rightarrow> bool" where
  "chained entries path cursor \<longleftrightarrow> (\<forall>i < length path.
     follows entries (path ! i) = (if Suc i < length path then Some (path ! Suc i) else cursor))"

lemma chained_snoc: "chained entries path (Some k) \<Longrightarrow> chained entries (path @ [k]) (follows entries k)"
  by (auto simp: chained_def nth_append less_Suc_eq)

lemma walk_chained:
  assumes "walk entries path cursor = Some cycle" "chained entries path cursor"
  shows "cycle \<noteq> [] \<and> chained entries cycle (Some (hd cycle))"
  using assms
proof (induction entries path cursor rule: walk.induct)
  case (1 entries path cursor)
  obtain k e where k: "cursor = Some k" "om_get entries k = Some e"
    using 1(2) by (subst (asm) walk.simps) (auto split: option.splits)
  show ?case
  proof (cases "position (\<lambda>p. p = k) path")
    case (Some i)
    then have i: "i < length path" "path ! i = k" using position_SomeD by force+
    have "cycle = drop i path" using 1(2) k Some by (simp add: walk.simps)
    then show ?thesis using 1(3) i k by (auto simp: chained_def hd_drop_conv_nth)
  next
    case None
    have nxt: "follows entries k = reg_value (er_position e)" by (simp add: follows_def k)
    have "walk entries (path @ [k]) (reg_value (er_position e)) = Some cycle"
      using 1(2) unfolding k(1) walk.simps [of entries path "Some k"] by (simp add: k None)
    moreover have "chained entries (path @ [k]) (reg_value (er_position e))"
      using chained_snoc 1(3) by (simp add: k nxt [symmetric])
    ultimately show ?thesis using 1(1) [OF k None] by blast
  qed
qed

lemma find_cycle_chained: "find_cycle entries = Some cycle \<Longrightarrow> cycle \<noteq> [] \<and> chained entries cycle (Some (hd cycle))"
proof -
  have "find_cycle_from entries starts = Some cycle \<Longrightarrow> ?thesis" for starts
  proof (induction starts)
    case (Cons s starts)
    have "chained entries [] (Some s)" by (simp add: chained_def)
    then show ?case using Cons walk_chained by (auto split: option.splits)
  qed simp
  then show "find_cycle entries = Some cycle \<Longrightarrow> ?thesis" by (simp add: find_cycle_def)
qed

lemma cycle_follows: "find_cycle entries = Some cycle \<Longrightarrow> k \<in> set cycle \<Longrightarrow> follows entries k \<noteq> None"
  using find_cycle_chained [of entries cycle] by (auto simp: chained_def in_set_conv_nth)

definition linked :: "entry_map \<Rightarrow> playlist_entry_id set" where
  "linked entries = {k. follows entries k \<noteq> None}"

lemma finite_linked: "finite (linked entries)"
  by (rule finite_subset [OF _ om_get_finite [of entries]]) (auto simp: linked_def follows_def split: option.splits)

lemma linked_cut: "linked (detach_entry root e entries) = linked entries - {root}"
  by (auto simp: linked_def follows_cut)

function repair_cycles :: "entry_map \<Rightarrow> nat \<Rightarrow> (entry_map \<times> nat) run" where
  "repair_cycles entries repaired = (case find_cycle entries of
      None \<Rightarrow> Some (entries, repaired)
    | Some cycle \<Rightarrow> (case oldest_move entries cycle of
          None \<Rightarrow> None
        | Some root \<Rightarrow> (case om_get entries root of
              None \<Rightarrow> None
            | Some e \<Rightarrow> repair_cycles (detach_entry root e entries) (repaired + 1))))"
  by pat_completeness auto

termination
proof (relation "measure (\<lambda>(entries, _). card (linked entries))", goal_cases)
  case 1
  then show ?case by simp
next
  case (2 entries repaired cycle root e)
  have "root \<in> linked entries" using cycle_follows [OF 2(1)] oldest_in [OF 2(2)] by (simp add: linked_def)
  then show ?case using finite_linked [of entries] by (simp add: linked_cut card_Diff1_less del: card_Diff_insert)
qed

declare repair_cycles.simps [simp del]

section \<open>What repairing does\<close>

definition references :: "entry_map \<Rightarrow> (playlist_entry_id \<times> playlist_entry_id) set" where
  "references entries = {(k, p). follows entries k = Some p}"

lemma references_single: "single_valued (references entries)"
  by (auto simp: references_def single_valued_def)

text \<open>In a functional graph everything reachable from an element of a cycle is on that cycle.\<close>

lemma cycle_returns:
  assumes "single_valued R" "(k, k) \<in> R\<^sup>+" "(k, x) \<in> R\<^sup>*"
  shows "(x, k) \<in> R\<^sup>+"
  using assms(3)
proof (induction rule: rtrancl_induct)
  case base
  then show ?case by (rule assms(2))
next
  case (step x y)
  obtain z where z: "(x, z) \<in> R" "(z, k) \<in> R\<^sup>*" using step(3) by (metis tranclD)
  then have "z = y" using step(2) assms(1) by (auto simp: single_valued_def)
  then have "(y, k) \<in> R\<^sup>*" using z(2) by simp
  then show ?case using assms(2) by (rule rtrancl_trancl_trancl)
qed

text \<open>A cycle of a subrelation is closed under the whole functional relation.\<close>

lemma cycle_sub:
  assumes "single_valued R" "S \<subseteq> R" "(k, k) \<in> S\<^sup>+" "(k, x) \<in> R\<^sup>*"
  shows "(k, x) \<in> S\<^sup>*"
  using assms(4)
proof (induction rule: rtrancl_induct)
  case base
  then show ?case by simp
next
  case (step x y)
  have "(x, k) \<in> S\<^sup>+" using cycle_returns [OF _ assms(3) step(3)] assms(1,2) single_valued_subset by metis
  then obtain z where z: "(x, z) \<in> S" by (metis tranclD)
  then have "z = y" using step(2) assms(1,2) by (auto simp: single_valued_def)
  then show ?case using step(3) z by (metis rtrancl.rtrancl_into_rtrancl)
qed

definition advance_cursor :: "entry_map \<Rightarrow> playlist_entry_id option \<Rightarrow> playlist_entry_id option" where
  "advance_cursor entries c = Option.bind c (follows entries)"

lemma walk_ends: "walk entries path cursor = None \<Longrightarrow> \<exists>n. (advance_cursor entries ^^ n) cursor = None"
proof (induction entries path cursor rule: walk.induct)
  case (1 entries path cursor)
  show ?case
  proof (cases cursor)
    case None
    then have "(advance_cursor entries ^^ 0) cursor = None" by simp
    then show ?thesis by blast
  next
    case (Some k)
    show ?thesis
    proof (cases "om_get entries k")
      case None
      then have "(advance_cursor entries ^^ 1) cursor = None" by (simp add: Some advance_cursor_def follows_def)
      then show ?thesis by blast
    next
      case e: (Some e)
      have "position (\<lambda>p. p = k) path = None" and "walk entries (path @ [k]) (reg_value (er_position e)) = None"
        using 1(2) unfolding Some walk.simps [of entries path "Some k"] by (auto simp: e split: option.splits)
      then obtain n where "(advance_cursor entries ^^ n) (reg_value (er_position e)) = None"
        using 1(1) [OF Some e] by blast
      then have "(advance_cursor entries ^^ Suc n) cursor = None"
        by (simp add: Some advance_cursor_def follows_def e funpow_swap1)
      then show ?thesis by blast
    qed
  qed
qed

lemma advance_relpow: "(advance_cursor entries ^^ n) (Some k) = Some x \<longleftrightarrow> (k, x) \<in> references entries ^^ n"
proof (induction n arbitrary: x)
  case 0
  then show ?case by simp
next
  case (Suc n)
  show ?case
    using Suc by (auto simp: advance_cursor_def [of entries "(advance_cursor entries ^^ n) (Some k)"] bind_eq_Some_conv
        references_def intro: relpow_Suc_I elim!: relpow_Suc_E)
qed

lemma advance_None: "(advance_cursor entries ^^ n) c = None \<Longrightarrow> (advance_cursor entries ^^ (n + m)) c = None"
  by (induction m) (simp_all add: advance_cursor_def)

lemma find_cycle_None_acyclic:
  assumes "find_cycle entries = None"
  shows "acyclic (references entries)"
proof (rule acyclicI, rule allI, rule notI)
  fix k assume "(k, k) \<in> (references entries)\<^sup>+"
  then obtain m where m: "0 < m" "(k, k) \<in> references entries ^^ m" by (metis trancl_power)
  have again: "(advance_cursor entries ^^ (j * m)) (Some k) = Some k" for j
  proof (induction j)
    case (Suc j)
    have "(advance_cursor entries ^^ (m + j * m)) (Some k) = (advance_cursor entries ^^ m) (Some k)"
      using Suc by (simp add: funpow_add)
    then show ?case using m(2) by (simp add: advance_relpow add.commute)
  qed simp
  have "om_get entries k \<noteq> None"
    using again [of 1] m(1) funpow_swap1 [of "advance_cursor entries" "m - 1" "Some k"] advance_None [of 1 entries "Some k" "m - 1"]
    by (cases "om_get entries k") (auto simp: advance_cursor_def follows_def)
  then have "k \<in> set (om_keys entries)" by (simp add: om_keys_iff)
  moreover have "\<forall>s \<in> set starts. walk entries [] (Some s) = None" if "find_cycle_from entries starts = None" for starts
    using that by (induction starts) (auto split: option.splits)
  ultimately have "walk entries [] (Some k) = None" using assms by (simp add: find_cycle_def)
  then obtain n where "(advance_cursor entries ^^ n) (Some k) = None" using walk_ends by blast
  then have "(advance_cursor entries ^^ (n + (n * m - n))) (Some k) = None" by (rule advance_None)
  moreover have "n + (n * m - n) = n * m" using m(1) by (cases m) auto
  ultimately show False using again [of n] by simp
qed

lemma chained_star:
  assumes "chained entries c (Some (hd c))" "i \<le> j" "j < length c"
  shows "(c ! i, c ! j) \<in> (references entries)\<^sup>*"
  using assms(2,3)
proof (induction j rule: dec_induct)
  case base
  then show ?case by simp
next
  case (step j)
  then have "(c ! j, c ! Suc j) \<in> references entries" using assms(1) by (simp add: chained_def references_def)
  then show ?case using step by (meson Suc_lessD rtrancl.rtrancl_into_rtrancl)
qed

lemma chained_cycle:
  assumes "chained entries c (Some (hd c))" "k \<in> set c"
  shows "(k, k) \<in> (references entries)\<^sup>+"
proof -
  obtain i where i: "i < length c" "c ! i = k" using assms(2) by (auto simp: in_set_conv_nth)
  then have hd: "hd c = c ! 0" by (cases c) auto
  let ?l = "length c - 1"
  have "(c ! i, c ! ?l) \<in> (references entries)\<^sup>*" using chained_star [OF assms(1), of i ?l] i by simp
  moreover have "(c ! ?l, c ! 0) \<in> references entries"
    using assms(1) i hd by (auto simp: chained_def references_def split: if_splits)
  moreover have "(c ! 0, c ! i) \<in> (references entries)\<^sup>*" using chained_star [OF assms(1), of 0 i] i by simp
  ultimately show ?thesis using i(2) by (metis rtrancl_into_trancl1 trancl_rtrancl_trancl)
qed


definition detached :: "entry_map \<Rightarrow> entry_map \<Rightarrow> playlist_entry_id set" where
  "detached entries entries' = {k. follows entries' k \<noteq> follows entries k}"

text \<open>What one cut does to the references, and what the later cuts do on top.\<close>

lemma references_cut: "references (detach_entry root e entries) = references entries - {root} \<times> UNIV"
  by (auto simp: references_def follows_cut split: if_splits)

definition frame :: "entry_registers \<Rightarrow> portable_track register \<times> bool register \<times> causal_stamp \<times> ustring" where
  "frame e = (er_track e, er_removed e, reg_stamp (er_position e), reg_operation_id (er_position e))"

lemma frame_cut: "om_get entries root = Some e \<Longrightarrow>
    map_option frame (om_get (detach_entry root e entries) k) = map_option frame (om_get entries k)"
  by (simp add: detach_entry_def om_get_insert frame_def)

lemma repair_cycles_spec:
  "\<exists>entries' n'. repair_cycles entries n = Some (entries', n') \<and> find_cycle entries' = None
    \<and> (om_wf entries \<longrightarrow> om_wf entries')
    \<and> n' = n + card (detached entries entries')
    \<and> (\<forall>k \<in> detached entries entries'. follows entries' k = None \<and> (k, k) \<in> (references entries)\<^sup>+
         \<and> (\<forall>k' \<in> detached entries entries'. (k, k') \<in> (references entries)\<^sup>* \<longrightarrow> k' = k))
    \<and> (\<forall>k. map_option frame (om_get entries' k) = map_option frame (om_get entries k))"
proof (induction entries n rule: repair_cycles.induct)
  case (1 entries n)
  show ?case
  proof (cases "find_cycle entries")
    case None
    then show ?thesis by (simp add: repair_cycles.simps [of entries] detached_def)
  next
    case (Some cycle)
    note cyc = find_cycle_chained [OF Some]
    have "om_get entries k \<noteq> None" if "k \<in> set cycle" for k
      using cycle_follows [OF Some that] by (auto simp: follows_def split: option.splits)
    then have "\<not> list_ex (\<lambda>k. om_get entries k = None) cycle" by (auto simp: list_ex_iff)
    then have "oldest_move entries cycle = min_by (position_order entries) cycle" by (simp add: oldest_move_def)
    then obtain root where root: "oldest_move entries cycle = Some root"
      using cyc by (cases cycle) (auto simp: min_by_def)
    have mem: "root \<in> set cycle" using root by (rule oldest_in)
    then obtain e where e: "om_get entries root = Some e"
      using cycle_follows [OF Some] by (fastforce simp: follows_def split: option.splits)
    let ?cut = "detach_entry root e entries"
    obtain entries' n' where IH: "repair_cycles ?cut (n + 1) = Some (entries', n')" "find_cycle entries' = None"
        "om_wf ?cut \<longrightarrow> om_wf entries'" "n' = n + 1 + card (detached ?cut entries')"
        "\<forall>k \<in> detached ?cut entries'. follows entries' k = None \<and> (k, k) \<in> (references ?cut)\<^sup>+
         \<and> (\<forall>k' \<in> detached ?cut entries'. (k, k') \<in> (references ?cut)\<^sup>* \<longrightarrow> k' = k)"
        "\<forall>k. map_option frame (om_get entries' k) = map_option frame (om_get ?cut k)"
      using 1 [OF Some root e] by blast
    have sub: "references ?cut \<subseteq> references entries" by (auto simp: references_cut)
    have rc: "(root, root) \<in> (references entries)\<^sup>+" using chained_cycle cyc mem by blast
    have dead: "(root, x) \<notin> references ?cut" for x by (auto simp: references_cut)
    have apart: "k \<noteq> root \<and> (k, root) \<notin> (references entries)\<^sup>* \<and> (root, k) \<notin> (references entries)\<^sup>*"
      if "k \<in> detached ?cut entries'" for k
    proof -
      have kk: "(k, k) \<in> (references ?cut)\<^sup>+" using IH(5) that by blast
      have no: "(k, root) \<notin> (references entries)\<^sup>*"
      proof
        assume "(k, root) \<in> (references entries)\<^sup>*"
        then have "(k, root) \<in> (references ?cut)\<^sup>*" using cycle_sub [OF references_single sub kk] by blast
        then have "(root, k) \<in> (references ?cut)\<^sup>+"
          using cycle_returns [OF references_single kk] by blast
        then show False using dead by (metis tranclD)
      qed
      moreover have "(root, k) \<notin> (references entries)\<^sup>*"
        using cycle_returns [OF references_single rc] no by (meson trancl_into_rtrancl)
      ultimately show ?thesis by auto
    qed
    have fr: "follows entries root \<noteq> None" using cycle_follows [OF Some mem] .
    have gone: "follows entries' root = None"
    proof -
      have "root \<notin> detached ?cut entries'" using apart by blast
      then show ?thesis by (simp add: detached_def follows_cut)
    qed
    have det: "detached entries entries' = insert root (detached ?cut entries')"
      using fr gone by (auto simp: detached_def follows_cut split: if_splits)
    have fin: "finite (detached ?cut entries')"
    proof (rule finite_subset [OF _ finite_linked])
      show "detached ?cut entries' \<subseteq> linked ?cut"
      proof
        fix k assume "k \<in> detached ?cut entries'"
        then have "(k, k) \<in> (references ?cut)\<^sup>+" using IH(5) by blast
        then obtain z where "(k, z) \<in> references ?cut" by (metis tranclD)
        then show "k \<in> linked ?cut" by (simp add: linked_def references_def)
      qed
    qed
    have "card (detached entries entries') = Suc (card (detached ?cut entries'))"
      unfolding det using fin apart by (intro card_insert_disjoint) auto
    moreover have "repair_cycles entries n = Some (entries', n')"
      using Some root e IH(1) by (simp add: repair_cycles.simps [of entries])
    moreover have "\<forall>k \<in> detached entries entries'. follows entries' k = None \<and> (k, k) \<in> (references entries)\<^sup>+
         \<and> (\<forall>k' \<in> detached entries entries'. (k, k') \<in> (references entries)\<^sup>* \<longrightarrow> k' = k)"
    proof
      fix k assume k: "k \<in> detached entries entries'"
      show "follows entries' k = None \<and> (k, k) \<in> (references entries)\<^sup>+
         \<and> (\<forall>k' \<in> detached entries entries'. (k, k') \<in> (references entries)\<^sup>* \<longrightarrow> k' = k)"
      proof (cases "k = root")
        case True
        then show ?thesis using gone rc apart det by auto
      next
        case False
        then have kd: "k \<in> detached ?cut entries'" using k det by simp
        have kk: "(k, k) \<in> (references ?cut)\<^sup>+" using IH(5) kd by blast
        then have "(k, k) \<in> (references entries)\<^sup>+" using trancl_mono sub by blast
        moreover have "k' = k" if "k' \<in> detached entries entries'" "(k, k') \<in> (references entries)\<^sup>*" for k'
        proof -
          have "(k, k') \<in> (references ?cut)\<^sup>*" using cycle_sub [OF references_single sub kk that(2)] .
          moreover have "k' \<in> detached ?cut entries'" using that apart [OF kd] det by auto
          ultimately show ?thesis using IH(5) kd by blast
        qed
        ultimately show ?thesis using IH(5) kd by blast
      qed
    qed
    moreover have "om_wf entries \<longrightarrow> om_wf entries'" using IH(3) by (simp add: detach_entry_def om_insert_wf)
    ultimately show ?thesis using IH(2,4,6) frame_cut [OF e] by (intro exI [of _ entries'] exI [of _ n']) simp
  qed
qed

end
