(* ===== verification/PlaylistOrder.thy ===== *)
theory PlaylistOrder
  imports PlaylistCycles
begin

text \<open>
  From the registers of the playlists to the projected lists (\<open>order_entries\<close>, \<open>append_children\<close> and
  \<open>project_playlists\<close> of \<open>src/personal_state/reducer.rs\<close>).  \<open>order_entries\<close> groups the entries by the
  entry they follow and walks the groups depth first; the theorems relate the walk with its visited
  set to the preorder of the forest of references.
\<close>

section \<open>The children of an entry\<close>

type_synonym children_map = "(playlist_entry_id option \<times> playlist_entry_id list) list"

definition parent_of :: "entry_map \<Rightarrow> entry_registers \<Rightarrow> playlist_entry_id option" where
  "parent_of entries e = (case reg_value (er_position e) of
      Some parent \<Rightarrow> if om_get entries parent \<noteq> None then Some parent else None
    | None \<Rightarrow> None)"

definition children_map_of :: "entry_map \<Rightarrow> children_map" where
  "children_map_of entries =
     map (\<lambda>(parent, siblings). (parent, sort siblings))
       (foldl (\<lambda>children (k, e). om_upsert (parent_of entries e) (\<lambda>v. v @ [k]) [k] children) [] entries)"

definition children_of :: "children_map \<Rightarrow> playlist_entry_id option \<Rightarrow> playlist_entry_id list" where
  "children_of children parent = (case om_get children parent of None \<Rightarrow> [] | Some siblings \<Rightarrow> siblings)"

section \<open>The depth-first walk\<close>

type_synonym walk_state = "playlist_entry_id set \<times> playlist_entry_id list"

text \<open>The loop over the siblings; the recursive call of \<open>append_children\<close> is the inner call on the
  children of \<open>k\<close>.\<close>

function append_loop :: "children_map \<Rightarrow> playlist_entry_id list \<Rightarrow> walk_state \<Rightarrow> walk_state" where
  "append_loop children [] st = st"
| "append_loop children (k # ks) (visited, ordered) =
     append_loop children ks
       (if k \<in> visited then (visited, ordered)
        else append_loop children (children_of children (Some k)) (insert k visited, ordered @ [k]))"
  by pat_completeness auto

definition all_children :: "children_map \<Rightarrow> playlist_entry_id set" where
  "all_children children = \<Union> (set ` snd ` set children)"

lemma children_of_all: "set (children_of children p) \<subseteq> all_children children"
proof (cases "om_get children p")
  case (Some v)
  then have "(p, v) \<in> set children" by (simp add: om_get_def map_of_SomeD)
  then show ?thesis by (force simp: children_of_def all_children_def Some)
qed (simp add: children_of_def)

lemma append_loop_grows:
  "append_loop_dom (children, ks, st) \<Longrightarrow> fst st \<subseteq> fst (append_loop children ks st)"
proof (induction rule: append_loop.pinduct)
  case (1 children st)
  then show ?case by (simp add: append_loop.psimps)
next
  case (2 children k ks visited ordered)
  then show ?case by (auto simp: append_loop.psimps split: if_splits)
qed

termination append_loop
proof (relation "inv_image (less_than <*lex*> less_than)
    (\<lambda>(children, ks, (visited, _)). (card ((all_children children \<union> set ks) - visited), length ks))", goal_cases)
  case 1
  then show ?case by auto
next
  case (2 children k ks visited ordered)
  have fin: "finite (all_children children \<union> set (k # ks))" by (auto simp: all_children_def)
  have "(all_children children \<union> set (children_of children (Some k))) - insert k visited
      \<subset> (all_children children \<union> set (k # ks)) - visited"
    using 2 children_of_all by auto
  then have "card ((all_children children \<union> set (children_of children (Some k))) - insert k visited)
      < card ((all_children children \<union> set (k # ks)) - visited)"
    using fin by (intro psubset_card_mono) auto
  then show ?case by simp
next
  case (3 children k ks visited ordered)
  let ?st = "if k \<in> visited then (visited, ordered)
     else append_loop children (children_of children (Some k)) (insert k visited, ordered @ [k])"
  have "visited \<subseteq> fst ?st" using append_loop_grows 3 by (fastforce split: if_splits)
  then have "(all_children children \<union> set ks) - fst ?st \<subseteq> (all_children children \<union> set (k # ks)) - visited" by auto
  then have "card ((all_children children \<union> set ks) - fst ?st) \<le> card ((all_children children \<union> set (k # ks)) - visited)"
    by (intro card_mono) (auto simp: all_children_def)
  then show ?case by (cases ?st) (auto simp: less_Suc_eq_le le_less)
qed


declare append_loop.simps(2) [simp del]

definition append_children ::
    "children_map \<Rightarrow> playlist_entry_id option \<Rightarrow> walk_state \<Rightarrow> walk_state" where
  "append_children children parent st = append_loop children (children_of children parent) st"

text \<open>The loop of \<open>order_entries\<close> over the keys does with each key what the loop over siblings does.\<close>

definition order_entries :: "entry_map \<Rightarrow> playlist_entry_id list" where
  "order_entries entries =
     (let children = children_map_of entries;
          st = append_children children None ({}, []);
          (visited, ordered) = append_loop children (om_keys entries) st
      in ordered)"

section \<open>The order is a permutation\<close>

definition tracked :: "walk_state \<Rightarrow> bool" where
  "tracked st \<longleftrightarrow> fst st = set (snd st) \<and> distinct (snd st)"

lemma append_loop_tracked: "tracked st \<Longrightarrow> tracked (append_loop children ks st)"
  by (induction children ks st rule: append_loop.induct) (auto simp: append_loop.simps(2) tracked_def)

lemma append_loop_covers: "fst st \<union> set ks \<subseteq> fst (append_loop children ks st)"
proof (induction children ks st rule: append_loop.induct)
  case (1 children st)
  then show ?case by simp
next
  case (2 children k ks visited ordered)
  then show ?case by (auto simp: append_loop.simps(2) split: if_splits)
qed

lemma append_loop_within:
  assumes "\<And>k. set (children_of children (Some k)) \<subseteq> U"
  shows "fst st \<subseteq> U \<Longrightarrow> set ks \<subseteq> U \<Longrightarrow> fst (append_loop children ks st) \<subseteq> U"
  using assms
proof (induction children ks st rule: append_loop.induct)
  case (1 children st)
  then show ?case by simp
next
  case (2 children k ks visited ordered)
  show ?case
  proof (cases "k \<in> visited")
    case True
    then show ?thesis using 2(2,3,4,5) by (simp add: append_loop.simps(2))
  next
    case False
    have "fst (append_loop children (children_of children (Some k)) (insert k visited, ordered @ [k])) \<subseteq> U"
      using 2(1) [OF False] 2(3,4,5) by simp
    then show ?thesis using 2(2,3,4,5) False by (simp add: append_loop.simps(2))
  qed
qed

lemma children_of_upsert: "children_of (om_upsert p (\<lambda>v. v @ [k]) [k] m) q
    = children_of m q @ (if q = p then [k] else [])"
  by (auto simp: children_of_def om_get_upsert split: option.split)

lemma children_of_foldl: "children_of (foldl (\<lambda>m (k, e). om_upsert (f e) (\<lambda>v. v @ [k]) [k] m) m es) p
    = children_of m p @ map fst (filter (\<lambda>(k, e). f e = p) es)"
  by (induction es arbitrary: m) (auto simp: children_of_upsert)

lemma children_of_map: "children_of (map (\<lambda>(q, v). (q, sort v)) m) p = sort (children_of m p)"
proof -
  have "om_get (map (\<lambda>(q, v). (q, sort v)) m) p = map_option sort (om_get m p)"
    by (induction m) (auto simp: om_get_Cons)
  then show ?thesis by (simp add: children_of_def split: option.split)
qed

lemma children_of_entries: "children_of (children_map_of entries) p
    = sort (map fst (filter (\<lambda>(k, e). parent_of entries e = p) entries))"
  by (simp add: children_map_of_def children_of_map children_of_foldl) (simp add: children_of_def)

lemma children_of_set: "om_wf entries \<Longrightarrow> c \<in> set (children_of (children_map_of entries) p) \<longleftrightarrow>
    (\<exists>e. om_get entries c = Some e \<and> parent_of entries e = p)"
  by (auto simp: children_of_entries om_get_iff image_iff)

lemma children_of_distinct: "om_wf entries \<Longrightarrow> distinct (children_of (children_map_of entries) p)"
  using om_wf_distinct [of entries] by (simp add: children_of_entries distinct_map_filter split_def)

lemma order_entries_loops: "order_entries entries = snd (append_loop (children_map_of entries) (om_keys entries)
    (append_loop (children_map_of entries) (children_of (children_map_of entries) None) ({}, [])))"
  by (simp add: order_entries_def append_children_def Let_def split_def)

lemma children_keys: "om_wf entries \<Longrightarrow> set (children_of (children_map_of entries) p) \<subseteq> set (om_keys entries)"
  by (auto simp: children_of_set om_keys_iff)

text \<open>The order is a permutation of the entries: every live entry is listed exactly once, even
  when the references form cycles or point outside the playlist.\<close>

theorem order_entries_permutation:
  assumes "om_wf entries"
  shows "mset (order_entries entries) = mset (om_keys entries)"
proof -
  let ?ch = "children_map_of entries" let ?keys = "om_keys entries"
  let ?st = "append_loop ?ch (children_of ?ch None) ({}, [])"
  let ?final = "append_loop ?ch ?keys ?st"
  have "tracked ?final" by (intro append_loop_tracked) (simp add: tracked_def)
  moreover have "set ?keys \<subseteq> fst ?final" using append_loop_covers [of ?st ?keys ?ch] by blast
  moreover have "fst ?final \<subseteq> set ?keys"
    using children_keys [OF assms] by (intro append_loop_within) auto
  ultimately have "set (order_entries entries) = set ?keys" "distinct (order_entries entries)"
    by (auto simp: order_entries_loops tracked_def)
  moreover have "distinct ?keys" using om_wf_distinct [OF assms] by (simp add: om_keys_def)
  ultimately show ?thesis using set_eq_iff_mset_eq_distinct by blast
qed

section \<open>The order is the preorder of the forest\<close>

text \<open>\<open>preorder children ks xs\<close>: \<open>xs\<close> lists the trees under \<open>ks\<close>, each entry right before the trees of
  its children.\<close>

inductive preorder :: "children_map \<Rightarrow> playlist_entry_id list \<Rightarrow> playlist_entry_id list \<Rightarrow> bool" for children where
  none: "preorder children [] []"
| tree: "preorder children (children_of children (Some k)) xs \<Longrightarrow> preorder children ks ys \<Longrightarrow>
    preorder children (k # ks) (k # xs @ ys)"

definition forest :: "children_map \<Rightarrow> (playlist_entry_id \<times> playlist_entry_id) set \<Rightarrow> bool" where
  "forest children R \<longleftrightarrow> single_valued R \<and> acyclic R
     \<and> (\<forall>k. set (children_of children (Some k)) = {c. (c, k) \<in> R} \<and> distinct (children_of children (Some k)))"

definition below :: "('a \<times> 'a) set \<Rightarrow> 'a list \<Rightarrow> 'a set" where
  "below R ks = {x. \<exists>k \<in> set ks. (x, k) \<in> R\<^sup>*}"

definition apart :: "('a \<times> 'a) set \<Rightarrow> 'a list \<Rightarrow> bool" where
  "apart R ks \<longleftrightarrow> distinct ks \<and> (\<forall>a \<in> set ks. \<forall>b \<in> set ks. (a, b) \<in> R\<^sup>* \<longrightarrow> a = b)"

text \<open>Two ancestors of one entry are comparable.\<close>

lemma ancestors_comparable:
  assumes "single_valued R" "(x, a) \<in> R\<^sup>*" "(x, b) \<in> R\<^sup>*"
  shows "(a, b) \<in> R\<^sup>* \<or> (b, a) \<in> R\<^sup>*"
  using assms(2,3)
proof (induction rule: rtrancl_induct)
  case base
  then show ?case by simp
next
  case (step y z)
  from step(3) [OF step(4)] show ?case
  proof
    assume yb: "(y, b) \<in> R\<^sup>*"
    then show ?thesis
    proof (cases rule: converse_rtranclE)
      case base
      then show ?thesis using step(2) by auto
    next
      case (step w)
      then have "w = z" using \<open>(y, z) \<in> R\<close> assms(1) by (auto simp: single_valued_def)
      then show ?thesis using step by simp
    qed
  next
    assume "(b, y) \<in> R\<^sup>*"
    then show ?thesis using step(2) by (meson rtrancl.rtrancl_into_rtrancl)
  qed
qed

lemma apart_children:
  assumes "forest children R"
  shows "apart R (children_of children (Some k))"
  unfolding apart_def
proof (intro conjI ballI impI)
  show "distinct (children_of children (Some k))" using assms by (simp add: forest_def)
next
  fix a b assume ab: "a \<in> set (children_of children (Some k))" "b \<in> set (children_of children (Some k))" "(a, b) \<in> R\<^sup>*"
  have R: "(a, k) \<in> R" "(b, k) \<in> R" using ab assms by (auto simp: forest_def)
  show "a = b"
  proof (rule ccontr)
    assume "a \<noteq> b"
    then obtain z where "(a, z) \<in> R" "(z, b) \<in> R\<^sup>*" using ab(3) by (metis converse_rtranclE)
    then have "(k, b) \<in> R\<^sup>*" using R(1) assms by (auto simp: forest_def single_valued_def)
    then have "(k, k) \<in> R\<^sup>+" using R(2) by (metis rtrancl_into_trancl1)
    then show False using assms by (auto simp: forest_def acyclic_def)
  qed
qed

lemma below_Cons:
  assumes "forest children R"
  shows "below R (k # ks) = insert k (below R (children_of children (Some k))) \<union> below R ks"
proof -
  have "(x, k) \<in> R\<^sup>* \<longleftrightarrow> x = k \<or> (\<exists>c. (c, k) \<in> R \<and> (x, c) \<in> R\<^sup>*)" for x
    by (metis rtrancl.simps)
  then show ?thesis using assms by (auto simp: below_def forest_def)
qed

lemma append_loop_preorder:
  assumes "forest children R" "apart R ks" "fst st \<inter> below R ks = {}"
  shows "\<exists>xs. preorder children ks xs \<and> snd (append_loop children ks st) = snd st @ xs
    \<and> fst (append_loop children ks st) = fst st \<union> below R ks"
  using assms
proof (induction children ks st rule: append_loop.induct)
  case (1 children st)
  have "preorder children [] []" by (rule preorder.none)
  then show ?case by (auto simp: below_def)
next
  case (2 children k ks visited ordered)
  let ?cs = "children_of children (Some k)"
  let ?st = "append_loop children ?cs (insert k visited, ordered @ [k])"
  note below = below_Cons [OF 2(3), of k ks]
  have k: "k \<notin> visited" using 2(5) below by auto
  have "k \<notin> below R ?cs"
  proof
    assume "k \<in> below R ?cs"
    then obtain c where "(k, c) \<in> R\<^sup>*" "(c, k) \<in> R" using 2(3) by (auto simp: below_def forest_def)
    then have "(k, k) \<in> R\<^sup>+" by (metis rtrancl_into_trancl1)
    then show False using 2(3) by (auto simp: forest_def acyclic_def)
  qed
  then have "fst (insert k visited, ordered @ [k]) \<inter> below R ?cs = {}" using 2(5) below by auto
  then obtain xs where xs: "preorder children ?cs xs" "snd ?st = (ordered @ [k]) @ xs"
      "fst ?st = insert k visited \<union> below R ?cs"
    using 2(1) [OF k 2(3) apart_children [OF 2(3)]] by auto
  have "below R (k # []) \<inter> below R ks = {}"
  proof -
    have False if "(x, k) \<in> R\<^sup>*" "(x, b) \<in> R\<^sup>*" "b \<in> set ks" for x b
    proof -
      have "(k, b) \<in> R\<^sup>* \<or> (b, k) \<in> R\<^sup>*" using ancestors_comparable that(1,2) 2(3) by (metis forest_def)
      then have "k = b" using 2(4) that(3) by (auto simp: apart_def)
      then show False using 2(4) that(3) by (simp add: apart_def)
    qed
    then show ?thesis by (auto simp: below_def)
  qed
  then have "fst ?st \<inter> below R ks = {}" using below_Cons [OF 2(3), of k "[]"] xs(3) 2(5) below by auto
  moreover have "apart R ks" using 2(4) by (auto simp: apart_def)
  ultimately obtain ys where ys: "preorder children ks ys" "snd (append_loop children ks ?st) = snd ?st @ ys"
      "fst (append_loop children ks ?st) = fst ?st \<union> below R ks"
    using 2(2) [OF 2(3)] k by auto
  have "preorder children (k # ks) (k # xs @ ys)" using xs(1) ys(1) by (rule preorder.tree)
  moreover have "append_loop children (k # ks) (visited, ordered) = append_loop children ks ?st"
    using k by (simp add: append_loop.simps(2))
  ultimately show ?case using xs ys below by (intro exI [of _ "k # xs @ ys"]) auto
qed


definition parent_links :: "entry_map \<Rightarrow> (playlist_entry_id \<times> playlist_entry_id) set" where
  "parent_links entries = {(c, k). c \<in> set (om_keys entries) \<and> k \<in> set (om_keys entries) \<and> follows entries c = Some k}"

lemma parent_of_Some: "parent_of entries e = Some k \<longleftrightarrow>
    reg_value (er_position e) = Some k \<and> k \<in> set (om_keys entries)"
  by (auto simp: parent_of_def om_keys_iff split: option.splits if_splits)

lemma forest_entries:
  assumes "om_wf entries" "acyclic (references entries)"
  shows "forest (children_map_of entries) (parent_links entries)"
proof -
  have sub: "parent_links entries \<subseteq> references entries" by (auto simp: parent_links_def references_def)
  have "acyclic (parent_links entries)" using acyclic_subset [OF assms(2) sub] .
  moreover have "single_valued (parent_links entries)"
    using single_valued_subset [OF sub] references_single by blast
  moreover have "set (children_of (children_map_of entries) (Some k)) = {c. (c, k) \<in> parent_links entries}" for k
    by (auto simp: children_of_set [OF assms(1)] parent_of_Some parent_links_def follows_def om_keys_iff
        split: option.splits)
  ultimately show ?thesis using children_of_distinct [OF assms(1)] by (simp add: forest_def)
qed

lemma append_loop_visited: "set ks \<subseteq> fst st \<Longrightarrow> append_loop children ks st = st"
  by (induction ks) (cases st; auto simp: append_loop.simps(2))+

lemma roots_apart:
  assumes "om_wf entries"
  shows "apart (parent_links entries) (children_of (children_map_of entries) None)"
  unfolding apart_def
proof (intro conjI ballI impI)
  show "distinct (children_of (children_map_of entries) None)" using assms by (rule children_of_distinct)
next
  fix a b
  assume a: "a \<in> set (children_of (children_map_of entries) None)" and ab: "(a, b) \<in> (parent_links entries)\<^sup>*"
  obtain e where e: "om_get entries a = Some e" "parent_of entries e = None"
    using a by (auto simp: children_of_set [OF assms])
  have "(a, z) \<notin> parent_links entries" for z
    using e parent_of_Some [of entries e z] by (auto simp: parent_links_def follows_def)
  then show "a = b" using ab by (metis converse_rtranclE)
qed

lemma roots_reach:
  assumes "om_wf entries" "acyclic (references entries)"
  shows "below (parent_links entries) (children_of (children_map_of entries) None) = set (om_keys entries)"
proof (intro equalityI subsetI)
  fix x assume "x \<in> below (parent_links entries) (children_of (children_map_of entries) None)"
  then obtain r where "r \<in> set (children_of (children_map_of entries) None)" "(x, r) \<in> (parent_links entries)\<^sup>*"
    by (auto simp: below_def)
  then show "x \<in> set (om_keys entries)" using children_keys [OF assms(1)]
    by (auto elim: converse_rtranclE simp: parent_links_def)
next
  let ?R = "parent_links entries"
  have "?R \<subseteq> set (om_keys entries) \<times> set (om_keys entries)" by (auto simp: parent_links_def)
  then have "finite ?R" by (rule finite_subset) simp
  moreover have "acyclic ?R" using forest_entries [OF assms] by (simp add: forest_def)
  ultimately have wf: "wf (?R\<inverse>)" by (rule finite_acyclic_wf_converse)
  fix x assume "x \<in> set (om_keys entries)"
  then show "x \<in> below ?R (children_of (children_map_of entries) None)"
    using wf
  proof (induction x rule: wf_induct_rule [OF wf])
    case (1 x)
    then obtain e where e: "om_get entries x = Some e" by (auto simp: om_keys_iff)
    show ?case
    proof (cases "parent_of entries e")
      case None
      then have "x \<in> set (children_of (children_map_of entries) None)" using e by (auto simp: children_of_set [OF assms(1)])
      then show ?thesis by (auto simp: below_def)
    next
      case (Some k)
      then have xk: "(x, k) \<in> ?R" "k \<in> set (om_keys entries)"
        using e 1(2) by (auto simp: parent_of_Some parent_links_def follows_def)
      then have "k \<in> below ?R (children_of (children_map_of entries) None)" using 1 by auto
      then show ?thesis using xk(1) by (auto simp: below_def intro: converse_rtrancl_into_rtrancl)
    qed
  qed
qed

lemma order_entries_preorder:
  assumes "om_wf entries" "acyclic (references entries)"
  shows "preorder (children_map_of entries) (children_of (children_map_of entries) None) (order_entries entries)"
proof -
  let ?ch = "children_map_of entries"
  let ?st = "append_loop ?ch (children_of ?ch None) ({}, [])"
  obtain xs where "preorder ?ch (children_of ?ch None) xs" "snd ?st = xs" "fst ?st = set (om_keys entries)"
    using append_loop_preorder [OF forest_entries [OF assms] roots_apart [OF assms(1)], of "({}, [])"]
    by (auto simp: roots_reach [OF assms])
  then show ?thesis using append_loop_visited [of "om_keys entries" ?st ?ch] by (simp add: order_entries_loops)
qed

section \<open>Projecting the playlists\<close>

definition PLAYLISTS_MAX :: nat where "PLAYLISTS_MAX = 999"
definition PLAYLIST_ENTRIES_MAX :: nat where "PLAYLIST_ENTRIES_MAX = 999"

record playlist_registers =
  pl_slug :: ustring
  pl_name :: "ustring register"
  pl_deleted :: "bool register"
  pl_entries :: entry_map

record legacy_playlist_entry =
  lpe_entry_id :: playlist_entry_id
  lpe_track :: portable_track

record legacy_playlist =
  lp_playlist_id :: playlist_id
  lp_slug :: ustring
  lp_name :: ustring
  lp_entries :: "legacy_playlist_entry list"

text \<open>\<open>filter_map\<close> over the ordered ids: every id takes its entry out of the map.\<close>

fun take_live :: "entry_map \<Rightarrow> playlist_entry_id list \<Rightarrow> legacy_playlist_entry list" where
  "take_live live [] = []"
| "take_live live (k # ks) = (case om_get live k of
      None \<Rightarrow> take_live live ks
    | Some e \<Rightarrow> \<lparr>lpe_entry_id = k, lpe_track = reg_value (er_track e)\<rparr> # take_live (om_remove k live) ks)"

definition live_entries :: "playlist_registers \<Rightarrow> entry_map" where
  "live_entries p = filter (\<lambda>(_, e). \<not> reg_value (er_removed e)) (pl_entries p)"

fun project_loop ::
    "(playlist_id \<times> playlist_registers) list \<Rightarrow> nat \<Rightarrow> legacy_playlist list \<Rightarrow> (legacy_playlist list \<times> nat) run" where
  "project_loop [] repaired result = Some (result, repaired)"
| "project_loop ((playlist_id, p) # rest) repaired result =
     (if reg_value (pl_deleted p) then project_loop rest repaired result
      else do {
        (live, n) \<leftarrow> repair_cycles (live_entries p) 0;
        let ordered = order_entries live;
        project_loop rest (repaired + n)
          (result @ [\<lparr>lp_playlist_id = playlist_id, lp_slug = pl_slug p, lp_name = reg_value (pl_name p),
             lp_entries = take_live live (take PLAYLIST_ENTRIES_MAX ordered)\<rparr>]) })"

definition project_playlists ::
    "(playlist_id \<times> playlist_registers) list \<Rightarrow> (legacy_playlist list \<times> nat) run" where
  "project_playlists playlists = map_option
     (\<lambda>(result, repaired). (take PLAYLISTS_MAX (sort_key lp_playlist_id result), repaired))
     (project_loop playlists 0 [])"


definition lists_entry :: "entry_map \<Rightarrow> playlist_entry_id \<Rightarrow> legacy_playlist_entry \<Rightarrow> bool" where
  "lists_entry live k l \<longleftrightarrow> lpe_entry_id l = k
     \<and> map_option (\<lambda>e. reg_value (er_track e)) (om_get live k) = Some (lpe_track l)"

lemma take_live_lists:
  assumes "distinct ks" "\<And>k. k \<in> set ks \<Longrightarrow> om_get live k \<noteq> None"
  shows "list_all2 (lists_entry live) ks (take_live live ks)"
  using assms
proof (induction ks arbitrary: live)
  case Nil
  then show ?case by simp
next
  case (Cons k ks)
  then obtain e where e: "om_get live k = Some e" by fastforce
  have "list_all2 (lists_entry (om_remove k live)) ks (take_live (om_remove k live) ks)"
    using Cons.prems by (intro Cons.IH) (auto simp: om_get_remove)
  then have "list_all2 (lists_entry live) ks (take_live (om_remove k live) ks)"
    by (rule list.rel_mono_strong) (use Cons.prems(1) in \<open>auto simp: lists_entry_def om_get_remove split: if_splits\<close>)
  moreover have "lists_entry live k \<lparr>lpe_entry_id = k, lpe_track = reg_value (er_track e)\<rparr>"
    by (simp add: lists_entry_def e)
  ultimately show ?case by (simp add: e)
qed

text \<open>What a projected playlist is: the live entries of the playlist, references repaired, in preorder,
  at most 999 of them.\<close>

definition projects :: "playlist_id \<times> playlist_registers \<Rightarrow> legacy_playlist \<Rightarrow> bool" where
  "projects = (\<lambda>(i, p) l. lp_playlist_id l = i \<and> lp_slug l = pl_slug p \<and> lp_name l = reg_value (pl_name p)
     \<and> (\<exists>live n order. repair_cycles (live_entries p) 0 = Some (live, n) \<and> acyclic (references live)
          \<and> preorder (children_map_of live) (children_of (children_map_of live) None) order
          \<and> mset order = mset (om_keys (live_entries p))
          \<and> list_all2 (lists_entry (live_entries p)) (take 999 order) (lp_entries l)))"

lemma repaired_keys:
  assumes "om_wf m" "om_wf m'" "\<And>k. map_option frame (om_get m' k) = map_option frame (om_get m k)"
  shows "mset (om_keys m') = mset (om_keys m)"
proof -
  have "om_get m' k = None \<longleftrightarrow> om_get m k = None" for k using assms(3) [of k] by (metis option.map_disc_iff)
  then have "set (om_keys m') = set (om_keys m)" using om_keys_iff [of _ m] om_keys_iff [of _ m'] by blast
  then show ?thesis using om_wf_distinct [OF assms(1)] om_wf_distinct [OF assms(2)]
    set_eq_iff_mset_eq_distinct by (metis om_keys_def)
qed

lemma projected_playlist:
  assumes "om_wf (pl_entries p)"
  shows "\<exists>live n. repair_cycles (live_entries p) 0 = Some (live, n) \<and>
    projects (i, p) \<lparr>lp_playlist_id = i, lp_slug = pl_slug p, lp_name = reg_value (pl_name p),
      lp_entries = take_live live (take PLAYLIST_ENTRIES_MAX (order_entries live))\<rparr>"
proof -
  have wf: "om_wf (live_entries p)" using assms by (simp add: live_entries_def om_wf_filter)
  obtain live n where rep: "repair_cycles (live_entries p) 0 = Some (live, n)" "find_cycle live = None"
    "om_wf live" "\<And>k. map_option frame (om_get live k) = map_option frame (om_get (live_entries p) k)"
    using repair_cycles_spec [of "live_entries p" 0] wf by blast
  note ac = find_cycle_None_acyclic [OF rep(2)]
  let ?ks = "take 999 (order_entries live)"
  have perm: "mset (order_entries live) = mset (om_keys live)" using order_entries_permutation [OF rep(3)] .
  then have set: "set (order_entries live) = set (om_keys live)" by (rule mset_eq_setD)
  have "distinct (order_entries live)"
    using perm om_wf_distinct [OF rep(3)] mset_eq_imp_distinct_iff by (metis om_keys_def)
  then have "list_all2 (lists_entry live) ?ks (take_live live ?ks)"
  proof (intro take_live_lists)
    show "om_get live k \<noteq> None" if "k \<in> set ?ks" for k
      using in_set_takeD [OF that] by (simp only: set om_keys_iff not_False_eq_True)
  qed simp
  then have "list_all2 (lists_entry (live_entries p)) ?ks (take_live live ?ks)"
  proof (rule list_all2_mono)
    fix k l assume "lists_entry live k l"
    then show "lists_entry (live_entries p) k l" using rep(4) [of k]
      by (cases "om_get live k"; cases "om_get (live_entries p) k") (auto simp: lists_entry_def frame_def)
  qed
  moreover have "mset (order_entries live) = mset (om_keys (live_entries p))"
    using perm repaired_keys [OF wf rep(3,4)] by simp
  ultimately show ?thesis
    using rep(1) ac order_entries_preorder [OF rep(3) ac] by (auto simp: projects_def PLAYLIST_ENTRIES_MAX_def)
qed

lemma project_loop_spec:
  assumes "\<forall>(i, p) \<in> set playlists. om_wf (pl_entries p)"
  shows "\<exists>result n. project_loop playlists repaired acc = Some (acc @ result, n)
    \<and> list_all2 projects (filter (\<lambda>(_, p). \<not> reg_value (pl_deleted p)) playlists) result"
  using assms
proof (induction playlists arbitrary: repaired acc)
  case Nil
  then show ?case by simp
next
  case (Cons x rest)
  obtain i p where x: "x = (i, p)" by (cases x)
  have IH: "\<exists>result n. project_loop rest r a = Some (a @ result, n)
    \<and> list_all2 projects (filter (\<lambda>(_, p). \<not> reg_value (pl_deleted p)) rest) result" for r a
    using Cons by simp
  show ?case
  proof (cases "reg_value (pl_deleted p)")
    case True
    then show ?thesis using IH [of repaired acc] by (simp add: x)
  next
    case False
    obtain live n where one: "repair_cycles (live_entries p) 0 = Some (live, n)"
      "projects (i, p) \<lparr>lp_playlist_id = i, lp_slug = pl_slug p, lp_name = reg_value (pl_name p),
        lp_entries = take_live live (take PLAYLIST_ENTRIES_MAX (order_entries live))\<rparr>" (is "projects _ ?l")
      using projected_playlist [of p i] Cons.prems by (auto simp: x)
    obtain result m where "project_loop rest (repaired + n) (acc @ [?l]) = Some ((acc @ [?l]) @ result, m)"
      "list_all2 projects (filter (\<lambda>(_, p). \<not> reg_value (pl_deleted p)) rest) result"
      using IH [of "repaired + n" "acc @ [?l]"] by blast
    then show ?thesis using False one by (intro exI [of _ "?l # result"] exI [of _ m]) (simp add: x)
  qed
qed

lemma sort_key_id: "sorted (map f xs) \<Longrightarrow> sort_key f xs = xs"
proof (induction xs)
  case (Cons x xs)
  then show ?case by (simp add: insort_is_Cons)
qed simp

text \<open>C27. Cycle repair.  \<open>repair_cycles\<close> always ends, never panics and leaves no cycle.  It detaches as
  many entries as it reports; every detached entry was on a cycle of the original references, no two
  of them on the same one, and nothing else of any entry changes: each cycle is cut exactly once.\<close>

theorem cycle_repair_minimal:
  "\<exists>entries' n'. repair_cycles entries n = Some (entries', n') \<and> acyclic (references entries')
    \<and> n' = n + card (detached entries entries')
    \<and> (\<forall>k \<in> detached entries entries'. follows entries' k = None \<and> (k, k) \<in> (references entries)\<^sup>+)
    \<and> (\<forall>k \<in> detached entries entries'. \<forall>k' \<in> detached entries entries'.
         (k, k') \<in> (references entries)\<^sup>* \<longrightarrow> k' = k)
    \<and> (\<forall>k. map_option frame (om_get entries' k) = map_option frame (om_get entries k))"
  using repair_cycles_spec [of entries n] find_cycle_None_acyclic by blast

text \<open>C28. Projecting playlists.  From well-formed registers the projection never panics and yields the
  first 999 playlists that are not deleted, in id order; each lists its live entries exactly once, its
  cycles repaired, as the preorder of the forest of references, cut to 999 entries.\<close>

theorem project_playlists_lists_live:
  assumes "om_wf playlists" "\<forall>(i, p) \<in> set playlists. om_wf (pl_entries p)"
  shows "\<exists>result n. project_playlists playlists = Some (result, n)
    \<and> list_all2 projects (take 999 (filter (\<lambda>(_, p). \<not> reg_value (pl_deleted p)) playlists)) result"
proof -
  let ?kept = "filter (\<lambda>(_, p). \<not> reg_value (pl_deleted p)) playlists"
  obtain result n where loop: "project_loop playlists 0 [] = Some (result, n)" "list_all2 projects ?kept result"
    using project_loop_spec [OF assms(2), of 0 "[]"] by auto
  have "map lp_playlist_id result = map fst ?kept"
    using loop(2) by (auto simp: list_all2_conv_all_nth projects_def split_def intro: nth_equalityI)
  moreover have "sorted (map fst ?kept)"
    using om_wf_filter [OF assms(1)] by (simp add: om_wf_def strict_sorted_iff)
  ultimately have "sort_key lp_playlist_id result = result" by (intro sort_key_id) simp
  then show ?thesis using loop by (simp add: project_playlists_def PLAYLISTS_MAX_def list_all2_takeI)
qed


definition demo_register :: "'v \<Rightarrow> 'v register" where
  "demo_register v = register_new (fst (rated ''a'' 1 [] Neutral)) v"

definition demo_track :: portable_track where
  "demo_track = \<lparr>pt_key = LocalPlaceholder (utf ''t''), pt_title = [], pt_artist = [], pt_album = None,
     pt_duration_secs = None, pt_isrc = None\<rparr>"

definition demo_entry :: "string \<Rightarrow> string \<Rightarrow> playlist_entry_id \<times> entry_registers" where
  "demo_entry k p = (utf k, \<lparr>er_track = demo_register demo_track, er_removed = demo_register False,
     er_position = demo_register (Some (utf p))\<rparr>)"

text \<open>Two entries that follow each other, and a playlist that was deleted.\<close>

definition demo_playlists :: "(playlist_id \<times> playlist_registers) list" where
  "demo_playlists = [
     (utf ''p'', \<lparr>pl_slug = [], pl_name = demo_register (utf ''mix''), pl_deleted = demo_register False,
        pl_entries = [demo_entry ''x'' ''y'', demo_entry ''y'' ''x'']\<rparr>),
     (utf ''q'', \<lparr>pl_slug = [], pl_name = demo_register [], pl_deleted = demo_register True, pl_entries = []\<rparr>)]"

theorem project_playlists_lists_live_witness:
  "\<exists>l n. project_playlists demo_playlists = Some ([l], n) \<and> length (lp_entries l) = 2"
proof -
  have wf: "om_wf demo_playlists" "\<forall>(i, p) \<in> set demo_playlists. om_wf (pl_entries p)"
    by (auto simp: demo_playlists_def om_wf_def demo_entry_def utf_def)
  obtain result n where r: "project_playlists demo_playlists = Some (result, n)"
    "list_all2 projects (take 999 (filter (\<lambda>(_, p). \<not> reg_value (pl_deleted p)) demo_playlists)) result"
    using project_playlists_lists_live [OF wf] by blast
  then obtain l where l: "result = [l]" "projects (hd demo_playlists) l"
    by (auto simp: demo_playlists_def demo_register_def register_new_def list_all2_Cons1)
  then obtain order where "mset order = mset (om_keys (live_entries (snd (hd demo_playlists))))"
    "list_all2 (lists_entry (live_entries (snd (hd demo_playlists)))) (take 999 order) (lp_entries l)"
    by (auto simp: projects_def split_def)
  moreover have two: "length (om_keys (live_entries (snd (hd demo_playlists)))) = 2"
    by (simp add: demo_playlists_def demo_entry_def live_entries_def demo_register_def register_new_def om_keys_def)
  ultimately have "length order = 2" and "length (take 999 order) = length (lp_entries l)"
    using mset_eq_length [of order] list_all2_lengthD by (simp only: two, blast)
  then have "length (lp_entries l) = 2" by simp
  then show ?thesis using r(1) l(1) by blast
qed

theorem order_entries_permutation_witness:
  "mset (order_entries [demo_entry ''x'' ''y'', demo_entry ''y'' ''x'']) = {# utf ''x'', utf ''y'' #}"
proof -
  have "om_wf [demo_entry ''x'' ''y'', demo_entry ''y'' ''x'']" by (simp add: om_wf_def demo_entry_def utf_def)
  from order_entries_permutation [OF this] show ?thesis by (simp add: om_keys_def demo_entry_def)
qed

text \<open>Two moves that cross: one cut.\<close>

definition crossed :: entry_map where
  "crossed = [demo_entry ''x'' ''y'', demo_entry ''y'' ''x'']"

theorem cycle_repair_minimal_witness:
  "\<exists>entries' n'. repair_cycles crossed 0 = Some (entries', n') \<and> acyclic (references entries')"
  using cycle_repair_minimal [where entries = crossed and n = 0] by blast

end
