(* ===== verification/Taste.thy ===== *)
theory Taste
  imports Song
begin

text \<open>
  \<open>src/streaming/taste.rs\<close>: what the listener has told the recommender during a session, banned tracks,
  banned artists and at most twelve seed terms, with the edits, the snapshot stored in a DJ preset and
  its validation.  \<open>signals.rs::normalize_artist\<close> is the key of an artist.

  \<open>str::to_lowercase\<close> follows the Unicode tables and is the parameter \<open>lower\<close>; the locale \<open>case_folding\<close>
  says what is used of it.  The size of a serialised snapshot (\<open>serde_json\<close>) is the parameter
  \<open>encoded_len\<close>, \<open>None\<close> when the serialisation fails.
\<close>

definition SEED_TERMS_MAX :: nat where "SEED_TERMS_MAX = 12"
definition SEED_TERM_CHARS_MAX :: nat where "SEED_TERM_CHARS_MAX = 48"
definition SNAPSHOT_BANS_MAX :: nat where "SNAPSHOT_BANS_MAX = 256"
definition SNAPSHOT_ID_CHARS_MAX :: nat where "SNAPSHOT_ID_CHARS_MAX = 512"
definition SNAPSHOT_LABEL_CHARS_MAX :: nat where "SNAPSHOT_LABEL_CHARS_MAX = 256"

datatype taste_error = MissingTrackId | MissingArtist | EmptyTerm | InvalidSnapshot string

datatype seed_polarity = MoreLike | Exclude

record banned_track =
  bt_id :: ustring
  bt_label :: ustring

record banned_artist =
  ba_key :: ustring
  ba_display :: ustring

record seed =
  seed_term :: ustring
  seed_polarity :: seed_polarity

record session_taste =
  st_tracks :: "banned_track list"
  st_artists :: "banned_artist list"
  st_seeds :: "seed list"
  st_epoch :: u64

definition session_default :: session_taste where
  "session_default = \<lparr>st_tracks = [], st_artists = [], st_seeds = [], st_epoch = 0\<rparr>"

record taste_snapshot =
  sn_tracks :: "banned_track list"
  sn_artists :: "banned_artist list"
  sn_seeds :: "seed list"

datatype taste_edit = BanTrack banned_track | BanArtist banned_artist | SetSeed seed

datatype taste_outcome = Applied | AlreadyApplied | SeedLimitReached

datatype taste_entry = EntryTrack banned_track | EntryArtist banned_artist | EntrySeed seed

section \<open>Keys\<close>

definition track_id_new :: "ustring \<Rightarrow> ustring option" where
  "track_id_new raw = (let i = trim raw in if i = [] then None else Some i)"

definition normalize_artist :: "(ustring \<Rightarrow> ustring) \<Rightarrow> ustring \<Rightarrow> ustring" where
  "normalize_artist lower raw = lower (join_with [32] (split_whitespace raw))"

definition artist_key_from_raw :: "(ustring \<Rightarrow> ustring) \<Rightarrow> ustring \<Rightarrow> ustring option" where
  "artist_key_from_raw lower raw = (let key = normalize_artist lower raw in if key = [] then None else Some key)"

definition artist_key_from_song :: "(ustring \<Rightarrow> ustring) \<Rightarrow> song \<Rightarrow> ustring option" where
  "artist_key_from_song lower s = artist_key_from_raw lower (artist s)"

definition seed_term_new :: "(ustring \<Rightarrow> ustring) \<Rightarrow> ustring \<Rightarrow> ustring option" where
  "seed_term_new lower raw = (let collapsed = lower (join_with [32] (split_whitespace raw)) in
     if collapsed = [] \<or> length collapsed > SEED_TERM_CHARS_MAX then None else Some collapsed)"

section \<open>Edits\<close>

definition track_label :: "song \<Rightarrow> ustring" where
  "track_label s = title s @ [32, 0x2014, 32] @ artist s"

definition ban_track :: "song \<Rightarrow> taste_error + taste_edit" where
  "ban_track s = (case track_id_new (video_id s) of None \<Rightarrow> Inl MissingTrackId
     | Some i \<Rightarrow> Inr (BanTrack \<lparr>bt_id = i, bt_label = track_label s\<rparr>))"

definition ban_artist :: "(ustring \<Rightarrow> ustring) \<Rightarrow> song \<Rightarrow> taste_error + taste_edit" where
  "ban_artist lower s = (case artist_key_from_song lower s of None \<Rightarrow> Inl MissingArtist
     | Some key \<Rightarrow> Inr (BanArtist \<lparr>ba_key = key, ba_display = artist s\<rparr>))"

definition seed_current_artist :: "(ustring \<Rightarrow> ustring) \<Rightarrow> song \<Rightarrow> taste_error + taste_edit" where
  "seed_current_artist lower s = (case seed_term_new lower (artist s) of None \<Rightarrow> Inl MissingArtist
     | Some t \<Rightarrow> Inr (SetSeed \<lparr>seed_term = t, seed_polarity = MoreLike\<rparr>))"

definition parse_seed :: "(ustring \<Rightarrow> ustring) \<Rightarrow> ustring \<Rightarrow> taste_error + taste_edit" where
  "parse_seed lower raw = (let trimmed_raw = trim raw;
       (polarity, rest) = (case strip_prefix (utf ''-'') trimmed_raw of
          Some rest \<Rightarrow> (Exclude, rest) | None \<Rightarrow> (MoreLike, trimmed_raw))
     in case seed_term_new lower rest of None \<Rightarrow> Inl EmptyTerm
        | Some t \<Rightarrow> Inr (SetSeed \<lparr>seed_term = t, seed_polarity = polarity\<rparr>))"

fun edit_rejects :: "(ustring \<Rightarrow> ustring) \<Rightarrow> taste_edit \<Rightarrow> song \<Rightarrow> bool" where
  "edit_rejects lower (BanTrack b) s \<longleftrightarrow> track_id_new (video_id s) = Some (bt_id b)"
| "edit_rejects lower (BanArtist b) s \<longleftrightarrow> artist_key_from_song lower s = Some (ba_key b)"
| "edit_rejects lower (SetSeed _) s \<longleftrightarrow> False"

section \<open>The session\<close>

definition bump_epoch :: "session_taste \<Rightarrow> session_taste" where
  "bump_epoch t = t\<lparr>st_epoch := st_epoch t + 1\<rparr>"

text \<open>\<open>iter_mut().find\<close> reaches the first row of the term.\<close>

fun set_polarity :: "ustring \<Rightarrow> seed_polarity \<Rightarrow> seed list \<Rightarrow> seed list" where
  "set_polarity term p [] = []"
| "set_polarity term p (row # rows) =
     (if seed_term row = term then row\<lparr>seed_polarity := p\<rparr> # rows else row # set_polarity term p rows)"

fun apply_edit :: "taste_edit \<Rightarrow> session_taste \<Rightarrow> taste_outcome \<times> session_taste" where
  "apply_edit (BanTrack b) t =
     (if list_ex (\<lambda>row. bt_id row = bt_id b) (st_tracks t) then (AlreadyApplied, t)
      else (Applied, bump_epoch (t\<lparr>st_tracks := st_tracks t @ [b]\<rparr>)))"
| "apply_edit (BanArtist b) t =
     (if list_ex (\<lambda>row. ba_key row = ba_key b) (st_artists t) then (AlreadyApplied, t)
      else (Applied, bump_epoch (t\<lparr>st_artists := st_artists t @ [b]\<rparr>)))"
| "apply_edit (SetSeed s) t =
     (case find (\<lambda>row. seed_term row = seed_term s) (st_seeds t) of
        Some existing \<Rightarrow>
          if seed_polarity existing = seed_polarity s then (AlreadyApplied, t)
          else (Applied, bump_epoch (t\<lparr>st_seeds := set_polarity (seed_term s) (seed_polarity s) (st_seeds t)\<rparr>))
      | None \<Rightarrow>
          if length (st_seeds t) \<ge> SEED_TERMS_MAX then (SeedLimitReached, t)
          else (Applied, bump_epoch (t\<lparr>st_seeds := st_seeds t @ [s]\<rparr>)))"

definition rejects_song :: "(ustring \<Rightarrow> ustring) \<Rightarrow> session_taste \<Rightarrow> song \<Rightarrow> bool" where
  "rejects_song lower t s \<longleftrightarrow>
     (case track_id_new (video_id s) of Some i \<Rightarrow> list_ex (\<lambda>row. bt_id row = i) (st_tracks t) | None \<Rightarrow> False)
   \<or> (case artist_key_from_song lower s of Some k \<Rightarrow> list_ex (\<lambda>row. ba_key row = k) (st_artists t) | None \<Rightarrow> False)"

definition taste_entries :: "session_taste \<Rightarrow> taste_entry list" where
  "taste_entries t = map EntryTrack (st_tracks t) @ map EntryArtist (st_artists t) @ map EntrySeed (st_seeds t)"

definition forget_at :: "nat \<Rightarrow> session_taste \<Rightarrow> bool \<times> session_taste" where
  "forget_at i t =
     (if i < length (st_tracks t) then (True, bump_epoch (t\<lparr>st_tracks := drop_at i (st_tracks t)\<rparr>))
      else let artist_index = i - length (st_tracks t) in
        if artist_index < length (st_artists t)
        then (True, bump_epoch (t\<lparr>st_artists := drop_at artist_index (st_artists t)\<rparr>))
      else let seed_index = artist_index - length (st_artists t) in
        if seed_index < length (st_seeds t)
        then (True, bump_epoch (t\<lparr>st_seeds := drop_at seed_index (st_seeds t)\<rparr>))
      else (False, t))"

definition session_snapshot :: "session_taste \<Rightarrow> taste_snapshot" where
  "session_snapshot t = \<lparr>sn_tracks = st_tracks t, sn_artists = st_artists t, sn_seeds = st_seeds t\<rparr>"

section \<open>Validation of a snapshot\<close>

text \<open>A word that starts like a drive path: two one-byte characters and a separator.\<close>

fun drive_path :: "ustring \<Rightarrow> bool" where
  "drive_path (a # b # c # _) \<longleftrightarrow> a < 128 \<and> b = 58 \<and> (c = 47 \<or> c = 92)"
| "drive_path _ \<longleftrightarrow> False"

definition path_word :: "ustring \<Rightarrow> bool" where
  "path_word w \<longleftrightarrow> starts_with (utf ''/'') w \<or> starts_with (utf ''~/'') w \<or> starts_with [92, 92] w \<or> drive_path w"

definition has_url :: "ustring \<Rightarrow> bool" where
  "has_url s \<longleftrightarrow> (let l = str_lower s in
     text_contains l (utf ''http://'') \<or> text_contains l (utf ''https://'') \<or> text_contains l (utf ''file://''))"

definition taste_looks_like_location :: "ustring \<Rightarrow> bool" where
  "taste_looks_like_location s \<longleftrightarrow> has_url s \<or> list_ex path_word (split_whitespace s)"

definition valid_snapshot_text :: "ustring \<Rightarrow> nat \<Rightarrow> bool" where
  "valid_snapshot_text s n \<longleftrightarrow> length s \<le> n \<and> \<not> list_ex is_control s \<and> \<not> taste_looks_like_location s"

text \<open>The loops over the rows, with the keys already seen.\<close>

fun all_new :: "('r \<Rightarrow> ustring) \<Rightarrow> ('r \<Rightarrow> bool) \<Rightarrow> ustring set \<Rightarrow> 'r list \<Rightarrow> bool" where
  "all_new key ok seen [] \<longleftrightarrow> True"
| "all_new key ok seen (row # rows) \<longleftrightarrow> ok row \<and> key row \<notin> seen \<and> all_new key ok (insert (key row) seen) rows"

definition valid_banned_track :: "banned_track \<Rightarrow> bool" where
  "valid_banned_track row \<longleftrightarrow> trim (bt_id row) = bt_id row \<and> bt_id row \<noteq> []
     \<and> \<not> starts_with (utf ''local:'') (str_lower (bt_id row))
     \<and> valid_snapshot_text (bt_id row) SNAPSHOT_ID_CHARS_MAX
     \<and> valid_snapshot_text (bt_label row) SNAPSHOT_LABEL_CHARS_MAX"

definition valid_banned_artist :: "(ustring \<Rightarrow> ustring) \<Rightarrow> banned_artist \<Rightarrow> bool" where
  "valid_banned_artist lower row \<longleftrightarrow> ba_key row \<noteq> [] \<and> normalize_artist lower (ba_key row) = ba_key row
     \<and> valid_snapshot_text (ba_key row) SNAPSHOT_LABEL_CHARS_MAX
     \<and> valid_snapshot_text (ba_display row) SNAPSHOT_LABEL_CHARS_MAX"

definition valid_seed :: "(ustring \<Rightarrow> ustring) \<Rightarrow> seed \<Rightarrow> bool" where
  "valid_seed lower row \<longleftrightarrow> seed_term_new lower (seed_term row) = Some (seed_term row)
     \<and> valid_snapshot_text (seed_term row) SEED_TERM_CHARS_MAX"

definition validate_snapshot ::
    "(ustring \<Rightarrow> ustring) \<Rightarrow> (taste_snapshot \<Rightarrow> nat option) \<Rightarrow> taste_snapshot \<Rightarrow> taste_error + unit" where
  "validate_snapshot lower encoded_len sn =
     (if length (sn_tracks sn) > SNAPSHOT_BANS_MAX \<or> length (sn_artists sn) > SNAPSHOT_BANS_MAX
         \<or> length (sn_seeds sn) > SEED_TERMS_MAX
      then Inl (InvalidSnapshot ''too many taste entries'')
      else if \<not> all_new bt_id valid_banned_track {} (sn_tracks sn)
      then Inl (InvalidSnapshot ''invalid banned track'')
      else if \<not> all_new ba_key (valid_banned_artist lower) {} (sn_artists sn)
      then Inl (InvalidSnapshot ''invalid banned artist'')
      else if \<not> all_new seed_term (valid_seed lower) {} (sn_seeds sn)
      then Inl (InvalidSnapshot ''invalid seed term'')
      else case encoded_len sn of
          None \<Rightarrow> Inl (InvalidSnapshot ''taste snapshot exceeds byte limit'')
        | Some n \<Rightarrow> if n > 256 * 1024 then Inl (InvalidSnapshot ''taste snapshot exceeds byte limit'') else Inr ())"

definition replace_snapshot ::
    "(ustring \<Rightarrow> ustring) \<Rightarrow> (taste_snapshot \<Rightarrow> nat option) \<Rightarrow> taste_snapshot \<Rightarrow> session_taste
      \<Rightarrow> (taste_error + unit) \<times> session_taste" where
  "replace_snapshot lower encoded_len sn t = (case validate_snapshot lower encoded_len sn of
      Inl e \<Rightarrow> (Inl e, t)
    | Inr _ \<Rightarrow> (Inr (), bump_epoch (t\<lparr>st_tracks := sn_tracks sn, st_artists := sn_artists sn, st_seeds := sn_seeds sn\<rparr>)))"

record taste_projection =
  banned_track_ids :: "ustring set"
  banned_artist_keys :: "ustring set"
  bias_terms :: "seed list"

definition project_taste :: "session_taste \<Rightarrow> ustring list \<Rightarrow> taste_projection" where
  "project_taste t avoid = \<lparr>banned_track_ids = bt_id ` set (st_tracks t),
     banned_artist_keys = ba_key ` set (st_artists t) \<union> set (filter (\<lambda>k. k \<noteq> []) avoid),
     bias_terms = st_seeds t\<rparr>"

section \<open>Case folding\<close>

locale case_folding =
  fixes lower :: "ustring \<Rightarrow> ustring"
  assumes lower_lower: "lower (lower s) = lower s"
    and lower_word: "is_word w \<Longrightarrow> is_word (lower w)"
    and lower_join: "(\<And>w. w \<in> set ws \<Longrightarrow> is_word w) \<Longrightarrow> lower (join_with [32] ws) = join_with [32] (map lower ws)"
begin

text \<open>A key is the key of itself, so keys made by different routes compare as intended.\<close>

lemma collapse_again: "lower (join_with [32] (split_whitespace (lower (join_with [32] (split_whitespace s)))))
    = lower (join_with [32] (split_whitespace s))"
proof -
  have w: "\<And>w. w \<in> set (split_whitespace s) \<Longrightarrow> is_word w" by (rule split_whitespace_words)
  then have "split_whitespace (lower (join_with [32] (split_whitespace s))) = map lower (split_whitespace s)"
    using lower_word by (subst lower_join) (auto intro!: split_join)
  then have "lower (join_with [32] (split_whitespace (lower (join_with [32] (split_whitespace s)))))
      = lower (join_with [32] (map lower (split_whitespace s)))" by simp
  also have "\<dots> = lower (lower (join_with [32] (split_whitespace s)))" using lower_join [OF w] by simp
  finally show ?thesis by (simp add: lower_lower)
qed

lemma artist_key_again: "artist_key_from_raw lower raw = Some key \<Longrightarrow> normalize_artist lower key = key \<and> key \<noteq> []"
  by (auto simp: artist_key_from_raw_def normalize_artist_def Let_def collapse_again split: if_splits)

lemma seed_term_again: "seed_term_new lower raw = Some term \<Longrightarrow> seed_term_new lower term = Some term"
  by (auto simp: seed_term_new_def Let_def collapse_again split: if_splits)

end

lemma str_lower_lower: "str_lower (str_lower s) = str_lower s"
  by (simp add: str_lower_def)

lemma white_lower: "is_whitespace (to_ascii_lower c) = is_whitespace c"
  by (auto simp: to_ascii_lower_def is_ascii_uppercase_def is_whitespace_def)

lemma str_lower_word: "is_word w \<Longrightarrow> is_word (str_lower w)"
  by (auto simp: is_word_def str_lower_def white_lower)

lemma str_lower_join: "str_lower (join_with [32] ws) = join_with [32] (map str_lower ws)"
  by (induction "[32] :: ustring" ws rule: join_with.induct)
    (simp_all add: str_lower_def to_ascii_lower_def is_ascii_uppercase_def)

interpretation ascii: case_folding str_lower
  by unfold_locales (simp_all add: str_lower_lower str_lower_word str_lower_join)

section \<open>The invariant of a session\<close>

definition session_wf :: "(ustring \<Rightarrow> ustring) \<Rightarrow> session_taste \<Rightarrow> bool" where
  "session_wf lower t \<longleftrightarrow>
     distinct (map bt_id (st_tracks t)) \<and> (\<forall>row \<in> set (st_tracks t). trim (bt_id row) = bt_id row \<and> bt_id row \<noteq> [])
   \<and> distinct (map ba_key (st_artists t))
   \<and> (\<forall>row \<in> set (st_artists t). normalize_artist lower (ba_key row) = ba_key row \<and> ba_key row \<noteq> [])
   \<and> distinct (map seed_term (st_seeds t))
   \<and> (\<forall>row \<in> set (st_seeds t). seed_term_new lower (seed_term row) = Some (seed_term row))
   \<and> length (st_seeds t) \<le> SEED_TERMS_MAX"

text \<open>An edit whose key is normal.\<close>

fun edit_wf :: "(ustring \<Rightarrow> ustring) \<Rightarrow> taste_edit \<Rightarrow> bool" where
  "edit_wf lower (BanTrack b) \<longleftrightarrow> trim (bt_id b) = bt_id b \<and> bt_id b \<noteq> []"
| "edit_wf lower (BanArtist b) \<longleftrightarrow> normalize_artist lower (ba_key b) = ba_key b \<and> ba_key b \<noteq> []"
| "edit_wf lower (SetSeed s) \<longleftrightarrow> seed_term_new lower (seed_term s) = Some (seed_term s)"

lemma bump_epoch_fields [simp]: "st_tracks (bump_epoch t) = st_tracks t" "st_artists (bump_epoch t) = st_artists t"
  "st_seeds (bump_epoch t) = st_seeds t"
  by (simp_all add: bump_epoch_def)

lemma set_polarity_terms [simp]: "map seed_term (set_polarity term p rows) = map seed_term rows"
  by (induction rows) auto

lemma set_polarity_length [simp]: "length (set_polarity term p rows) = length rows"
  by (induction rows) auto

lemma terms_ball: "(\<forall>row \<in> set rows. P (seed_term row)) \<longleftrightarrow> (\<forall>term \<in> set (map seed_term rows). P term)"
  by auto

lemma apply_edit_wf: "session_wf lower t \<Longrightarrow> edit_wf lower e \<Longrightarrow> session_wf lower (snd (apply_edit e t))"
proof (cases e)
  case (BanTrack b)
  assume "session_wf lower t" "edit_wf lower e"
  then show ?thesis by (auto simp: BanTrack session_wf_def list_ex_iff)
next
  case (BanArtist b)
  assume "session_wf lower t" "edit_wf lower e"
  then show ?thesis by (auto simp: BanArtist session_wf_def list_ex_iff)
next
  case (SetSeed s)
  assume wf: "session_wf lower t" "edit_wf lower e"
  have "(\<forall>row \<in> set (set_polarity u p rows). seed_term_new lower (seed_term row) = Some (seed_term row))
      \<longleftrightarrow> (\<forall>row \<in> set rows. seed_term_new lower (seed_term row) = Some (seed_term row))" for u p rows
    unfolding terms_ball [of _ "\<lambda>v. seed_term_new lower v = Some v"] set_polarity_terms ..
  then show ?thesis using wf
    by (auto simp: SetSeed session_wf_def find_None_iff split: option.split)
qed

lemma ban_track_wf: "ban_track s = Inr e \<Longrightarrow> edit_wf lower e"
  by (auto simp: ban_track_def track_id_new_def Let_def split: if_splits)

context case_folding
begin

lemma ban_artist_wf: "ban_artist lower s = Inr e \<Longrightarrow> edit_wf lower e"
  by (auto simp: ban_artist_def artist_key_from_song_def artist_key_again split: option.splits)

lemma seed_current_artist_wf: "seed_current_artist lower s = Inr e \<Longrightarrow> edit_wf lower e"
  by (auto simp: seed_current_artist_def seed_term_again split: option.splits)

lemma parse_seed_wf: "parse_seed lower raw = Inr e \<Longrightarrow> edit_wf lower e"
  by (auto simp: parse_seed_def Let_def seed_term_again split: option.splits prod.splits)

end

lemma all_new_iff: "all_new key ok seen rows \<longleftrightarrow>
    (\<forall>row \<in> set rows. ok row) \<and> distinct (map key rows) \<and> key ` set rows \<inter> seen = {}"
  by (induction key ok seen rows rule: all_new.induct) auto

lemma validate_snapshot_wf: "validate_snapshot lower encoded_len sn = Inr () \<Longrightarrow>
    session_wf lower (t\<lparr>st_tracks := sn_tracks sn, st_artists := sn_artists sn, st_seeds := sn_seeds sn\<rparr>)"
  by (auto simp: validate_snapshot_def session_wf_def all_new_iff valid_banned_track_def
      valid_banned_artist_def valid_seed_def split: if_splits)

lemma session_wf_bump [simp]: "session_wf lower (bump_epoch t) = session_wf lower t"
  by (simp add: session_wf_def)

lemma replace_snapshot_wf: "session_wf lower t \<Longrightarrow> session_wf lower (snd (replace_snapshot lower encoded_len sn t))"
  by (auto simp: replace_snapshot_def validate_snapshot_wf split: sum.split)

lemma forget_at_wf: "session_wf lower t \<Longrightarrow> session_wf lower (snd (forget_at i t))"
  using length_drop_at set_drop_at_subset distinct_drop_at map_drop_at
  by (auto simp: forget_at_def Let_def session_wf_def map_drop_at intro: distinct_drop_at
      dest!: subsetD [OF set_drop_at_subset])

section \<open>Properties\<close>

text \<open>What the user interface does with the session: edits built from a song or typed in, forgetting a
  listed entry, loading a preset.  An edit that cannot be built changes nothing.\<close>

datatype taste_action =
    ActBanTrack song | ActBanArtist song | ActSeedArtist song | ActParseSeed ustring
  | ActForget nat | ActReplace taste_snapshot

definition apply_built :: "taste_error + taste_edit \<Rightarrow> session_taste \<Rightarrow> session_taste" where
  "apply_built built t = (case built of Inl _ \<Rightarrow> t | Inr e \<Rightarrow> snd (apply_edit e t))"

fun taste_act ::
    "(ustring \<Rightarrow> ustring) \<Rightarrow> (taste_snapshot \<Rightarrow> nat option) \<Rightarrow> taste_action \<Rightarrow> session_taste \<Rightarrow> session_taste" where
  "taste_act lower encoded_len (ActBanTrack s) t = apply_built (ban_track s) t"
| "taste_act lower encoded_len (ActBanArtist s) t = apply_built (ban_artist lower s) t"
| "taste_act lower encoded_len (ActSeedArtist s) t = apply_built (seed_current_artist lower s) t"
| "taste_act lower encoded_len (ActParseSeed raw) t = apply_built (parse_seed lower raw) t"
| "taste_act lower encoded_len (ActForget i) t = snd (forget_at i t)"
| "taste_act lower encoded_len (ActReplace sn) t = snd (replace_snapshot lower encoded_len sn t)"

lemma apply_built_wf: "(\<And>e. built = Inr e \<Longrightarrow> edit_wf lower e) \<Longrightarrow> session_wf lower t \<Longrightarrow>
    session_wf lower (apply_built built t)"
  by (cases built) (simp_all add: apply_built_def apply_edit_wf)

text \<open>C39. A session of edits keeps its lists in order.  Whatever edits, deletions and loaded presets a
  session goes through, no track, artist or term is listed twice, every key is its own normal form (so a
  ban made from one spelling of an artist matches all of them), and there are at most twelve terms.\<close>

theorem taste_session_invariant:
  assumes "case_folding lower"
  shows "session_wf lower (fold (taste_act lower encoded_len) actions session_default)"
proof -
  have step: "session_wf lower (taste_act lower encoded_len a t)" if "session_wf lower t" for a t
  proof (cases a)
    case (ActBanTrack s)
    show ?thesis unfolding ActBanTrack taste_act.simps using ban_track_wf that by (rule apply_built_wf)
  next
    case (ActBanArtist s)
    show ?thesis unfolding ActBanArtist taste_act.simps using case_folding.ban_artist_wf [OF assms] that by (rule apply_built_wf)
  next
    case (ActSeedArtist s)
    show ?thesis unfolding ActSeedArtist taste_act.simps using case_folding.seed_current_artist_wf [OF assms] that by (rule apply_built_wf)
  next
    case (ActParseSeed raw)
    show ?thesis unfolding ActParseSeed taste_act.simps using case_folding.parse_seed_wf [OF assms] that by (rule apply_built_wf)
  qed (simp_all add: that forget_at_wf replace_snapshot_wf)
  have "session_wf lower (fold (taste_act lower encoded_len) actions t)" if "session_wf lower t" for t
    using that
  proof (induction actions arbitrary: t)
    case Nil
    then show ?case by simp
  next
    case (Cons a actions)
    show ?case unfolding fold_Cons o_apply by (rule Cons.IH) (rule step [OF Cons.prems])
  qed
  moreover have "session_wf lower session_default" by (simp add: session_default_def session_wf_def)
  ultimately show ?thesis .
qed

definition banned_song :: song where
  "banned_song = song_remote (utf ''dQw4'') (utf ''Night'') (utf ''Slow  Dive'') (utf ''3:00'')"

theorem taste_session_invariant_witness:
  "session_wf str_lower (fold (taste_act str_lower (\<lambda>_. Some 100))
     [ActBanTrack banned_song, ActBanArtist banned_song, ActParseSeed (utf ''- Dream  Pop ''), ActForget 0] session_default)"
  using taste_session_invariant [OF ascii.case_folding_axioms, of "\<lambda>_. Some 100"
      "[ActBanTrack banned_song, ActBanArtist banned_song, ActParseSeed (utf ''- Dream  Pop ''), ActForget 0]"]
  .

lemma rejects_song_iff: "rejects_song lower t s \<longleftrightarrow>
    (\<exists>row \<in> set (st_tracks t). track_id_new (video_id s) = Some (bt_id row))
  \<or> (\<exists>row \<in> set (st_artists t). artist_key_from_song lower s = Some (ba_key row))"
  by (auto simp: rejects_song_def list_ex_iff split: option.split)

lemma drop_at_append: "drop_at i (xs @ ys) = (if i < length xs then drop_at i xs @ ys else xs @ drop_at (i - length xs) ys)"
  by (auto simp: drop_at_def Suc_diff_le)

text \<open>Bans take effect and can be lifted.  After an edit the session refuses exactly the songs it
  refused before and those the edit itself refuses; seed terms refuse nothing.  Forgetting the \<open>i\<close>-th
  listed entry removes exactly that entry, and an index beyond the list changes nothing.\<close>

theorem bans_apply_and_lift:
  "(rejects_song lower (snd (apply_edit e t)) s \<longleftrightarrow> rejects_song lower t s \<or> edit_rejects lower e s)
   \<and> (fst (apply_edit e t) = Applied \<or> snd (apply_edit e t) = t)
   \<and> fst (forget_at i t) = (i < length (taste_entries t))
   \<and> taste_entries (snd (forget_at i t)) = (if i < length (taste_entries t) then drop_at i (taste_entries t) else taste_entries t)"
proof (intro conjI)
  show "rejects_song lower (snd (apply_edit e t)) s \<longleftrightarrow> rejects_song lower t s \<or> edit_rejects lower e s"
    by (cases e) (auto simp: rejects_song_iff list_ex_iff split: option.split, metis+)
  show "fst (apply_edit e t) = Applied \<or> snd (apply_edit e t) = t"
    by (cases e) (auto split: option.split)
  show "fst (forget_at i t) = (i < length (taste_entries t))" by (auto simp: forget_at_def Let_def taste_entries_def)
  show "taste_entries (snd (forget_at i t)) = (if i < length (taste_entries t) then drop_at i (taste_entries t) else taste_entries t)"
    by (auto simp: forget_at_def Let_def taste_entries_def drop_at_append map_drop_at)
qed

end
