(* ===== verification/LegacyProjection.thy ===== *)
theory LegacyProjection
  imports PlaylistOrder Taste Ledger
begin

text \<open>
  \<open>LegacyProjection\<close> of \<open>src/personal_state/legacy.rs\<close>: the contents of the four runtime stores (library,
  playlists, signals, station) in portable form.  It is the payload of an imported baseline, whose
  validation is here, and the result of projecting a ledger.

  The weights of artists are \<open>f32\<close>.  HOL has no such numbers, so they are a type parameter \<open>'w\<close> with the
  operations the code applies to them (\<open>float_ops\<close>); no theorem rests on a law about them.
\<close>

record 'w float_ops =
  f_add :: "'w \<Rightarrow> 'w \<Rightarrow> 'w"
  f_sub :: "'w \<Rightarrow> 'w \<Rightarrow> 'w"
  f_less :: "'w \<Rightarrow> 'w \<Rightarrow> bool"
  f_is_zero :: "'w \<Rightarrow> bool"
  f_clamp :: "'w \<Rightarrow> 'w \<Rightarrow> 'w \<Rightarrow> 'w"
  f_hundredths :: "int \<Rightarrow> 'w"
  f_ratio :: "u64 \<Rightarrow> u64 \<Rightarrow> 'w"
  f_unit :: "'w \<Rightarrow> bool"
  f_finite :: "'w \<Rightarrow> bool"

text \<open>\<open>f_hundredths n\<close> is the literal \<open>n / 100\<close>, \<open>f_ratio\<close> the clamped quotient of two \<open>u64\<close>, \<open>f_unit\<close> says
  that a number lies between 0 and 1.\<close>

definition FAVORITES_MAX :: nat where "FAVORITES_MAX = 999"
definition AVOID_ARTISTS_MAX :: nat where "AVOID_ARTISTS_MAX = 200"
definition HISTORY_MAX :: nat where "HISTORY_MAX = 999"
definition RADIO_MAX :: nat where "RADIO_MAX = 999"
definition SIGNAL_TRACKS_MAX :: nat where "SIGNAL_TRACKS_MAX = 5000"
definition RAW_EVENT_RETENTION_SECS :: int where "RAW_EVENT_RETENTION_SECS = 365 * 24 * 60 * 60"

section \<open>The projection\<close>

record 'w legacy_track_signal =
  ts_track :: portable_track
  ts_play_count :: u32
  ts_completed_count :: u32
  ts_skip_count :: u32
  ts_last_played_at :: int
  ts_last_completion :: 'w
  ts_disliked :: bool

record legacy_play_event =
  pe_event_id :: ustring
  pe_track :: portable_track
  pe_played_at :: int

record 'w legacy_signals =
  sg_tracks :: "(portable_track_key \<times> 'w legacy_track_signal) list"
  sg_affinity :: "(ustring \<times> 'w) list"
  sg_play_log :: "legacy_play_event list"

record legacy_station =
  ls_query :: "ustring option"
  ls_explore :: explore
  ls_avoid :: "ustring list"

record 'w legacy_projection =
  lg_favorites :: "portable_track list"
  lg_history :: "portable_track list"
  lg_radio_favorites :: "portable_track list"
  lg_radio_history :: "portable_track list"
  lg_playlists :: "legacy_playlist list"
  lg_signals :: "'w legacy_signals"
  lg_station :: legacy_station

definition empty_legacy :: "'w legacy_projection" where
  "empty_legacy = \<lparr>lg_favorites = [], lg_history = [], lg_radio_favorites = [], lg_radio_history = [],
     lg_playlists = [], lg_signals = \<lparr>sg_tracks = [], sg_affinity = [], sg_play_log = []\<rparr>,
     lg_station = \<lparr>ls_query = None, ls_explore = Balanced, ls_avoid = []\<rparr>\<rparr>"

definition validate_legacy_playlist :: "legacy_playlist \<Rightarrow> unit outcome" where
  "validate_legacy_playlist p = checks ([
     validate_id ''playlist id'' (lp_playlist_id p) 512,
     validate_id ''playlist slug'' (lp_slug p) 512,
     validate_text ''playlist name'' (lp_name p),
     ensure (length (lp_entries p) \<le> PLAYLIST_ENTRIES_MAX * 4) (InvalidOperation ''legacy playlist exceeds entry limit'')]
   @ concat (map (\<lambda>e. [validate_id ''playlist entry id'' (lpe_entry_id e) 512, validate_track (lpe_track e)]) (lp_entries p)))"

text \<open>The check of an imported baseline, \<open>check_baseline\<close> of the ledger's rules.\<close>

definition validate_legacy :: "'w float_ops \<Rightarrow> 'w legacy_projection \<Rightarrow> unit outcome" where
  "validate_legacy fo p = checks ([
     ensure (length (lg_favorites p) \<le> FAVORITES_MAX * 4 \<and> length (lg_history p) \<le> HISTORY_MAX * 4
         \<and> length (lg_radio_favorites p) \<le> RADIO_MAX * 4 \<and> length (lg_radio_history p) \<le> RADIO_MAX * 4
         \<and> length (lg_playlists p) \<le> PLAYLISTS_MAX * 4
         \<and> length (sg_tracks (lg_signals p)) \<le> SIGNAL_TRACKS_MAX * 4
         \<and> length (sg_play_log (lg_signals p)) \<le> ENGAGEMENT_EVENTS_MAX * 4)
       (InvalidOperation ''legacy baseline exceeds collection limits'')]
   @ map validate_track (lg_favorites p @ lg_history p @ lg_radio_favorites p @ lg_radio_history p)
   @ map validate_legacy_playlist (lg_playlists p)
   @ concat (map (\<lambda>(key, s). [validate_key key, validate_track (ts_track s),
        ensure (f_finite fo (ts_last_completion s) \<and> f_unit fo (ts_last_completion s))
          (InvalidOperation ''legacy completion is not finite'')]) (sg_tracks (lg_signals p)))
   @ [ensure (list_all (\<lambda>(_, w). f_finite fo w) (sg_affinity (lg_signals p)))
        (InvalidOperation ''legacy artist affinity is not finite'')])"

definition rating_from_legacy ::
    "portable_track list \<Rightarrow> 'w legacy_signals \<Rightarrow> (portable_track_key \<times> portable_track \<times> rating) list" where
  "rating_from_legacy favorites signals =
     (let liked = foldl (\<lambda>m t. om_insert (pt_key t) (t, Liked) m) [] favorites
      in foldl (\<lambda>m (_, s). om_insert (pt_key (ts_track s)) (ts_track s, Disliked) m) liked
           (filter (\<lambda>(_, s). ts_disliked s) (sg_tracks signals)))"

end
