(* ===== verification/RegisterFold.thy ===== *)
theory RegisterFold
  imports LegacyProjection
begin

text \<open>
  The fold at the heart of \<open>project_at\<close> (\<open>src/personal_state/reducer.rs\<close>): from the operations of a ledger,
  in their order, to the registers of ratings, radio stations, playlists with their entries, the station
  profile, avoided artists, engagement events and track bindings.  The truncated SHA-256 of \<open>stable_hash\<close>
  is a parameter.
\<close>

section \<open>The registers\<close>

record pending_entry =
  pend_removed :: "bool register option"
  pend_position :: "playlist_entry_id option register option"

definition pending_default :: pending_entry where
  "pending_default = \<lparr>pend_removed = None, pend_position = None\<rparr>"

record ('b, 'l) engagement_event =
  ev_envelope :: "('b, 'l) operation_envelope"
  ev_event_id :: ustring
  ev_track :: portable_track
  ev_kind :: engagement_kind
  ev_played_ms :: "u64 option"
  ev_total_ms :: "u64 option"
  ev_artist_key :: ustring

type_synonym rating_map = "(portable_track_key \<times> (portable_track \<times> rating) register) list"
type_synonym radio_map = "(portable_track_key \<times> (portable_track \<times> bool) register) list"

record ('b, 'l) registers =
  rg_ratings :: rating_map
  rg_radio :: radio_map
  rg_playlists :: "(playlist_id \<times> playlist_registers) list"
  rg_pending :: "((playlist_id \<times> playlist_entry_id) \<times> pending_entry) list"
  rg_station :: "(ustring option \<times> explore) register option"
  rg_avoided :: "(ustring \<times> bool register) list"
  rg_events :: "(ustring \<times> ('b, 'l) engagement_event) list"
  rg_bindings :: "(portable_track_key \<times> portable_track_key register) list"

definition registers_empty :: "('b, 'l) registers" where
  "registers_empty = \<lparr>rg_ratings = [], rg_radio = [], rg_playlists = [], rg_pending = [], rg_station = None,
     rg_avoided = [], rg_events = [], rg_bindings = []\<rparr>"

definition empty_playlist ::
    "(ustring \<Rightarrow> ustring) \<Rightarrow> ('b, 'l) operation_envelope \<Rightarrow> playlist_id \<Rightarrow> ustring \<Rightarrow> playlist_registers" where
  "empty_playlist stable_hash e playlist_id name = \<lparr>pl_slug = utf ''playlist-'' @ stable_hash playlist_id,
     pl_name = register_new e name, pl_deleted = register_new e False, pl_entries = []\<rparr>"

text \<open>\<open>playlists.entry(id).or_insert_with(..)\<close>, changed by \<open>f\<close>.\<close>

definition with_playlist ::
    "playlist_id \<Rightarrow> playlist_registers \<Rightarrow> (playlist_registers \<Rightarrow> playlist_registers)
      \<Rightarrow> (playlist_id \<times> playlist_registers) list \<Rightarrow> (playlist_id \<times> playlist_registers) list" where
  "with_playlist playlist_id fresh f playlists =
     om_insert playlist_id (f (case om_get playlists playlist_id of Some p \<Rightarrow> p | None \<Rightarrow> fresh)) playlists"

definition update_entry ::
    "('b, 'l) operation_envelope \<Rightarrow> portable_track \<Rightarrow> playlist_entry_id option \<Rightarrow> pending_entry option
      \<Rightarrow> entry_registers option \<Rightarrow> entry_registers" where
  "update_entry e t after_id pending existing =
     (let entry = (case existing of Some r \<Rightarrow> r
            | None \<Rightarrow> \<lparr>er_track = register_new e t, er_removed = register_new e False, er_position = register_new e after_id\<rparr>);
          entry = entry\<lparr>er_track := register_update (er_track entry) e t,
            er_removed := register_update (er_removed entry) e False,
            er_position := register_update (er_position entry) e after_id\<rparr>
      in case pending of None \<Rightarrow> entry
         | Some p \<Rightarrow> entry\<lparr>
             er_removed := (case pend_removed p of None \<Rightarrow> er_removed entry | Some r \<Rightarrow> register_merge (er_removed entry) r),
             er_position := (case pend_position p of None \<Rightarrow> er_position entry | Some r \<Rightarrow> register_merge (er_position entry) r)\<rparr>)"

definition existing_entry ::
    "(playlist_id \<times> playlist_registers) list \<Rightarrow> playlist_id \<Rightarrow> playlist_entry_id \<Rightarrow> entry_registers option" where
  "existing_entry playlists playlist_id entry_id = (case om_get playlists playlist_id of
      None \<Rightarrow> None | Some p \<Rightarrow> om_get (pl_entries p) entry_id)"

text \<open>\<open>get_mut\<close> on the playlist and its entry.\<close>

definition change_entry ::
    "playlist_id \<Rightarrow> playlist_entry_id \<Rightarrow> entry_registers \<Rightarrow> (playlist_id \<times> playlist_registers) list
      \<Rightarrow> (playlist_id \<times> playlist_registers) list" where
  "change_entry playlist_id entry_id entry playlists = (case om_get playlists playlist_id of
      None \<Rightarrow> playlists
    | Some p \<Rightarrow> om_insert playlist_id (p\<lparr>pl_entries := om_insert entry_id entry (pl_entries p)\<rparr>) playlists)"

definition pending_at ::
    "((playlist_id \<times> playlist_entry_id) \<times> pending_entry) list \<Rightarrow> playlist_id \<times> playlist_entry_id \<Rightarrow> pending_entry" where
  "pending_at pending key = (case om_get pending key of Some p \<Rightarrow> p | None \<Rightarrow> pending_default)"

definition replaces_event :: "('b, 'l) operation_envelope \<Rightarrow> ('b, 'l) operation_envelope option \<Rightarrow> bool" where
  "replaces_event e current = (case current of None \<Rightarrow> True
     | Some c \<Rightarrow> stamp_order (op_stamp e) (operation_id e) (op_stamp c) (operation_id c) = Greater)"

fun apply_operation ::
    "(ustring \<Rightarrow> ustring) \<Rightarrow> ('b, 'l) operation_envelope \<Rightarrow> ('b, 'l) operation \<Rightarrow> ('b, 'l) registers \<Rightarrow> ('b, 'l) registers" where
  "apply_operation hash e (SetRating t r) rg = rg\<lparr>rg_ratings := update_register (pt_key t) e (t, r) (rg_ratings rg)\<rparr>"
| "apply_operation hash e (RecordEngagement event_id t kind played_ms total_ms artist_key) rg =
     (if replaces_event e (map_option ev_envelope (om_get (rg_events rg) event_id))
      then rg\<lparr>rg_events := om_insert event_id \<lparr>ev_envelope = e, ev_event_id = event_id, ev_track = t, ev_kind = kind,
        ev_played_ms = played_ms, ev_total_ms = total_ms, ev_artist_key = artist_key\<rparr> (rg_events rg)\<rparr>
      else rg)"
| "apply_operation hash e (SetRadioFavorite s favorite) rg =
     rg\<lparr>rg_radio := update_register (pt_key s) e (s, favorite) (rg_radio rg)\<rparr>"
| "apply_operation hash e (UpsertPlaylist playlist_id name) rg =
     rg\<lparr>rg_playlists := with_playlist playlist_id (empty_playlist hash e playlist_id name)
       (\<lambda>p. p\<lparr>pl_name := register_update (pl_name p) e name, pl_deleted := register_update (pl_deleted p) e False\<rparr>)
       (rg_playlists rg)\<rparr>"
| "apply_operation hash e (DeletePlaylist playlist_id deleted) rg =
     rg\<lparr>rg_playlists := with_playlist playlist_id (empty_playlist hash e playlist_id (utf ''Playlist''))
       (\<lambda>p. p\<lparr>pl_deleted := register_update (pl_deleted p) e deleted\<rparr>) (rg_playlists rg)\<rparr>"
| "apply_operation hash e (UpsertPlaylistEntry playlist_id entry_id t after_id) rg =
     (let pending = om_get (rg_pending rg) (playlist_id, entry_id) in
      rg\<lparr>rg_pending := om_remove (playlist_id, entry_id) (rg_pending rg),
         rg_playlists := with_playlist playlist_id (empty_playlist hash e playlist_id (utf ''Playlist''))
           (\<lambda>p. p\<lparr>pl_deleted := register_update (pl_deleted p) e False,
             pl_entries := om_insert entry_id (update_entry e t after_id pending (om_get (pl_entries p) entry_id)) (pl_entries p)\<rparr>)
           (rg_playlists rg)\<rparr>)"
| "apply_operation hash e (MovePlaylistEntry playlist_id entry_id after_id) rg =
     (case existing_entry (rg_playlists rg) playlist_id entry_id of
        Some entry \<Rightarrow> rg\<lparr>rg_playlists := change_entry playlist_id entry_id
          (entry\<lparr>er_position := register_update (er_position entry) e after_id\<rparr>) (rg_playlists rg)\<rparr>
      | None \<Rightarrow> (let p = pending_at (rg_pending rg) (playlist_id, entry_id) in
          rg\<lparr>rg_pending := om_insert (playlist_id, entry_id)
            (p\<lparr>pend_position := update_optional_register (pend_position p) e after_id\<rparr>) (rg_pending rg)\<rparr>))"
| "apply_operation hash e (RemovePlaylistEntry playlist_id entry_id removed) rg =
     (case existing_entry (rg_playlists rg) playlist_id entry_id of
        Some entry \<Rightarrow> rg\<lparr>rg_playlists := change_entry playlist_id entry_id
          (entry\<lparr>er_removed := register_update (er_removed entry) e removed\<rparr>) (rg_playlists rg)\<rparr>
      | None \<Rightarrow> (let p = pending_at (rg_pending rg) (playlist_id, entry_id) in
          rg\<lparr>rg_pending := om_insert (playlist_id, entry_id)
            (p\<lparr>pend_removed := update_optional_register (pend_removed p) e removed\<rparr>) (rg_pending rg)\<rparr>))"
| "apply_operation hash e (SetStationProfile query explore) rg =
     rg\<lparr>rg_station := update_optional_register (rg_station rg) e (query, explore)\<rparr>"
| "apply_operation hash e (SetAvoidArtist artist_key avoid) rg =
     rg\<lparr>rg_avoided := update_register artist_key e avoid (rg_avoided rg)\<rparr>"
| "apply_operation hash e (BindTrack placeholder target) rg =
     rg\<lparr>rg_bindings := update_register placeholder e target (rg_bindings rg)\<rparr>"
| "apply_operation hash e _ rg = rg"

definition apply_envelope ::
    "(ustring \<Rightarrow> ustring) \<Rightarrow> ('b, 'l) registers \<Rightarrow> ('b, 'l) operation_envelope \<Rightarrow> ('b, 'l) registers" where
  "apply_envelope hash rg e = apply_operation hash e (operation e) rg"

section \<open>The imported baseline\<close>

definition winning_baseline :: "('b, 'l) operation_envelope list \<Rightarrow> (('b, 'l) operation_envelope \<times> 'b) option" where
  "winning_baseline ops = foldl (\<lambda>winner e. case operation e of
      LegacyBaseline b \<Rightarrow> if replaces_event e (map_option fst winner) then Some (e, b) else winner
    | _ \<Rightarrow> winner) None ops"

fun baseline_entries ::
    "('b, 'l) operation_envelope \<Rightarrow> playlist_entry_id option \<Rightarrow> legacy_playlist_entry list \<Rightarrow> entry_map \<Rightarrow> entry_map" where
  "baseline_entries e previous [] m = m"
| "baseline_entries e previous (x # xs) m = baseline_entries e (Some (lpe_entry_id x)) xs
     (om_insert (lpe_entry_id x) \<lparr>er_track = register_baseline e (lpe_track x), er_removed = register_baseline e False,
        er_position = register_baseline e previous\<rparr> m)"

definition baseline_playlist :: "('b, 'l) operation_envelope \<Rightarrow> legacy_playlist \<Rightarrow> playlist_registers" where
  "baseline_playlist e p = \<lparr>pl_slug = lp_slug p, pl_name = register_baseline e (lp_name p),
     pl_deleted = register_baseline e False, pl_entries = baseline_entries e None (lp_entries p) []\<rparr>"

definition baseline_registers ::
    "('w legacy_projection, 'l) operation_envelope \<Rightarrow> 'w legacy_projection \<Rightarrow> ('w legacy_projection, 'l) registers" where
  "baseline_registers e b = registers_empty\<lparr>
     rg_ratings := foldl (\<lambda>m (key, v). om_insert key (register_baseline e v) m) []
       (rating_from_legacy (lg_favorites b) (lg_signals b)),
     rg_radio := foldl (\<lambda>m s. om_insert (pt_key s) (register_baseline e (s, True)) m) [] (lg_radio_favorites b),
     rg_playlists := foldl (\<lambda>m p. om_insert (lp_playlist_id p) (baseline_playlist e p) m) [] (lg_playlists b),
     rg_station := Some (register_baseline e (ls_query (lg_station b), ls_explore (lg_station b))),
     rg_avoided := foldl (\<lambda>m a. om_insert a (register_baseline e True) m) [] (ls_avoid (lg_station b))\<rparr>"

definition fold_ledger :: "(ustring \<Rightarrow> ustring) \<Rightarrow> ('w legacy_projection, 'l) operation_envelope list
    \<Rightarrow> ('w legacy_projection, 'l) registers" where
  "fold_ledger hash ops = foldl (apply_envelope hash)
     (case winning_baseline ops of None \<Rightarrow> registers_empty | Some (e, b) \<Rightarrow> baseline_registers e b) ops"

section \<open>The invariant of the registers\<close>

text \<open>All maps are ordered, a register stands under the key of its track, an event under its id, and an edit
  waits only for an entry that is not there yet.\<close>

definition under_key :: "portable_track_key \<Rightarrow> (portable_track \<times> 'v) register \<Rightarrow> bool" where
  "under_key k r \<longleftrightarrow> pt_key (fst (reg_value r)) = k"

definition event_of :: "ustring \<Rightarrow> ('b, 'l) engagement_event \<Rightarrow> bool" where
  "event_of i ev \<longleftrightarrow> ev_event_id ev = i \<and> operation (ev_envelope ev) = RecordEngagement i (ev_track ev) (ev_kind ev)
     (ev_played_ms ev) (ev_total_ms ev) (ev_artist_key ev)"

definition waits ::
    "(playlist_id \<times> playlist_registers) list \<Rightarrow> ((playlist_id \<times> playlist_entry_id) \<times> pending_entry) list \<Rightarrow> bool" where
  "waits playlists pending \<longleftrightarrow> om_wf pending
     \<and> (\<forall>i k. om_get pending (i, k) \<noteq> None \<longrightarrow> existing_entry playlists i k = None)"

definition registers_ok :: "('b, 'l) registers \<Rightarrow> bool" where
  "registers_ok rg \<longleftrightarrow> om_all under_key (rg_ratings rg) \<and> om_all under_key (rg_radio rg)
     \<and> om_all (\<lambda>_ p. om_wf (pl_entries p)) (rg_playlists rg)
     \<and> waits (rg_playlists rg) (rg_pending rg)
     \<and> om_wf (rg_avoided rg) \<and> om_all event_of (rg_events rg) \<and> om_wf (rg_bindings rg)"

lemma update_register_wf: "om_wf m \<Longrightarrow> om_wf (update_register k e v m)"
  by (simp add: update_register_def om_insert_wf split: option.split)

lemma under_key_simps [simp]: "under_key k (register_new e v) \<longleftrightarrow> pt_key (fst v) = k" "under_key k (register_baseline e v) \<longleftrightarrow> pt_key (fst v) = k"
  by (simp_all add: under_key_def register_new_def register_baseline_def)

lemma update_register_keyed: "om_all under_key m \<Longrightarrow> pt_key (fst v) = k \<Longrightarrow> om_all under_key (update_register k e v m)"
  by (auto simp: update_register_def register_update_def intro: om_all_insert dest: om_all_get split: option.split)

lemma existing_entry_with:
  "existing_entry (with_playlist i fresh f ps) j k = (if j = i
     then om_get (pl_entries (f (case om_get ps i of Some p \<Rightarrow> p | None \<Rightarrow> fresh))) k else existing_entry ps j k)"
  by (simp add: existing_entry_def with_playlist_def om_get_insert)

lemma existing_entry_change:
  "existing_entry ps i k = Some x \<Longrightarrow> existing_entry (change_entry i k r ps) j l =
     (if j = i \<and> l = k then Some r else existing_entry ps j l)"
  by (auto simp: existing_entry_def change_entry_def om_get_insert split: option.split)

lemma with_playlist_ok:
  "om_all (\<lambda>_ p. om_wf (pl_entries p)) ps \<Longrightarrow> om_wf (pl_entries fresh)
    \<Longrightarrow> (\<And>p. om_wf (pl_entries p) \<Longrightarrow> om_wf (pl_entries (f p))) \<Longrightarrow> om_all (\<lambda>_ p. om_wf (pl_entries p)) (with_playlist i fresh f ps)"
  by (auto simp: with_playlist_def intro!: om_all_insert dest: om_all_get split: option.split)

lemma change_entry_ok:
  "om_all (\<lambda>_ p. om_wf (pl_entries p)) ps \<Longrightarrow> om_all (\<lambda>_ p. om_wf (pl_entries p)) (change_entry i k r ps)"
  by (auto simp: change_entry_def intro!: om_all_insert om_insert_wf dest: om_all_get split: option.split)

lemma empty_playlist_entries [simp]: "pl_entries (empty_playlist hash e i name) = []"
  by (simp add: empty_playlist_def)

lemma existing_entry_None: "om_get ps i = None \<Longrightarrow> existing_entry ps i k = None"
  by (simp add: existing_entry_def)

lemma waits_insert: "waits ps m \<Longrightarrow> existing_entry ps i k = None \<Longrightarrow> waits ps (om_insert (i, k) v m)"
  by (auto simp: waits_def om_insert_wf om_get_insert)

lemma waits_cong: "waits ps m \<Longrightarrow> (\<And>i k. existing_entry ps i k = None \<Longrightarrow> existing_entry ps' i k = None) \<Longrightarrow> waits ps' m"
  by (auto simp: waits_def)

lemma waits_change: "waits ps m \<Longrightarrow> existing_entry ps i k = Some x \<Longrightarrow> waits (change_entry i k r ps) m"
  by (erule waits_cong) (auto simp: existing_entry_change)

lemma same_entries:
  assumes "\<And>p. pl_entries (f p) = pl_entries p" "pl_entries fresh = []"
  shows "existing_entry (with_playlist i fresh f ps) j k = existing_entry ps j k"
  unfolding existing_entry_with by (cases "om_get ps i") (simp_all add: assms existing_entry_def)

lemma apply_operation_ok:
  assumes ok: "registers_ok rg" and op: "operation e = op"
  shows "registers_ok (apply_operation hash e op rg)"
proof (cases op)
  case (UpsertPlaylistEntry i k t after_id)
  define entry where "entry p = update_entry e t after_id (om_get (rg_pending rg) (i, k)) (om_get (pl_entries p) k)" for p :: playlist_registers
  define f where "f p = (p :: playlist_registers)\<lparr>pl_deleted := register_update (pl_deleted p) e False, pl_entries := om_insert k (entry p) (pl_entries p)\<rparr>" for p
  define ps where "ps = with_playlist i (empty_playlist hash e i (utf ''Playlist'')) f (rg_playlists rg)"
  have rg': "apply_operation hash e op rg = rg\<lparr>rg_pending := om_remove (i, k) (rg_pending rg), rg_playlists := ps\<rparr>"
    unfolding ps_def f_def [abs_def] entry_def UpsertPlaylistEntry by (simp add: Let_def)
  have "om_all (\<lambda>_ p. om_wf (pl_entries p)) ps"
    unfolding ps_def using ok by (intro with_playlist_ok) (simp_all add: registers_ok_def f_def om_insert_wf)
  moreover have "existing_entry ps j l = None" if "existing_entry (rg_playlists rg) j l = None" "(j, l) \<noteq> (i, k)" for j l
    using that unfolding ps_def existing_entry_with
    by (cases "om_get (rg_playlists rg) i") (auto simp: f_def om_get_insert existing_entry_def om_get_Cons)
  then have "waits ps (om_remove (i, k) (rg_pending rg))"
    using ok by (auto simp: waits_def registers_ok_def om_remove_wf om_get_remove split: if_splits)
  ultimately show ?thesis using ok by (simp add: rg' registers_ok_def)
next
  case (UpsertPlaylist i name)
  then show ?thesis using ok by (auto simp: registers_ok_def same_entries intro!: with_playlist_ok elim!: waits_cong)
next
  case (DeletePlaylist i b)
  then show ?thesis using ok by (auto simp: registers_ok_def same_entries intro!: with_playlist_ok elim!: waits_cong)
next
  case (MovePlaylistEntry i k after_id)
  then show ?thesis using ok
    by (auto simp: registers_ok_def Let_def intro!: change_entry_ok waits_insert intro: waits_change split: option.split)
next
  case (RemovePlaylistEntry i k b)
  then show ?thesis using ok
    by (auto simp: registers_ok_def Let_def intro!: change_entry_ok waits_insert intro: waits_change split: option.split)
next
  case (RecordEngagement i t kind p n a)
  then show ?thesis using ok op by (auto simp: registers_ok_def event_of_def intro!: om_all_insert)
qed (use ok in \<open>auto simp: registers_ok_def update_register_wf intro!: update_register_keyed\<close>)

lemma rating_from_legacy_keyed: "om_all (\<lambda>k v. pt_key (fst v) = k) (rating_from_legacy favorites signals)"
  unfolding rating_from_legacy_def Let_def by (intro om_all_foldl) (auto intro!: om_all_insert)

lemma baseline_entries_wf: "om_wf m \<Longrightarrow> om_wf (baseline_entries e previous xs m)"
  by (induction e previous xs m rule: baseline_entries.induct) (simp_all add: om_insert_wf)

lemma baseline_registers_ok: "registers_ok (baseline_registers e b)"
proof -
  have "om_all under_key (foldl (\<lambda>m (key, v). om_insert key (register_baseline e v) m) [] (rating_from_legacy favorites signals))"
    for favorites and signals :: "'a legacy_signals"
    by (rule om_all_foldl) (auto intro!: om_all_insert dest: om_all_set [OF rating_from_legacy_keyed])
  moreover have "om_all under_key (foldl (\<lambda>m s. om_insert (pt_key s) (register_baseline e (s, True)) m) [] ss)" for ss
    by (rule om_all_foldl) (auto intro!: om_all_insert)
  moreover have "om_all (\<lambda>_ p. om_wf (pl_entries p)) (foldl (\<lambda>m p. om_insert (lp_playlist_id p) (baseline_playlist e p) m) [] ps)" for ps
    by (rule om_all_foldl) (auto intro!: om_all_insert simp: baseline_playlist_def baseline_entries_wf)
  moreover have "om_wf (foldl (\<lambda>m a. om_insert a (register_baseline e True) m) [] avoid)" for avoid
    by (rule om_all_wf [of "\<lambda>_ _. True"], rule om_all_foldl) (auto intro!: om_all_insert)
  ultimately show ?thesis by (simp add: baseline_registers_def registers_ok_def waits_def registers_empty_def)
qed

lemma registers_empty_ok: "registers_ok registers_empty"
  by (simp add: registers_ok_def waits_def registers_empty_def)

lemma apply_envelopes_ok: "registers_ok rg \<Longrightarrow> registers_ok (foldl (apply_envelope hash) rg ops)"
  by (induction ops arbitrary: rg) (simp_all add: apply_envelope_def apply_operation_ok)

lemma registers_fold_ok: "registers_ok (fold_ledger hash ops)"
  by (simp add: fold_ledger_def apply_envelopes_ok registers_empty_ok baseline_registers_ok split: option.split)

text \<open>C30. The registers are always well-formed.  Whatever the operations of a ledger and the baseline it
  imports, the fold ends with ordered maps, every rating and station under the key of its own track, every
  engagement event under its own id, and no edit left waiting for a playlist entry that exists.\<close>

theorem fold_ledger_ok: "registers_ok (fold_ledger hash ops)"
  by (rule registers_fold_ok)

section \<open>What a register holds\<close>

text \<open>The writes an operation makes to the register of a key.\<close>

type_synonym ('b, 'l, 'v) writes = "(('b, 'l) operation_envelope \<times> 'v) list"

definition writes_of :: "(('b, 'l) operation \<Rightarrow> 'v list) \<Rightarrow> ('b, 'l) operation_envelope list \<Rightarrow> ('b, 'l, 'v) writes" where
  "writes_of values_of ops = concat (map (\<lambda>e. map (Pair e) (values_of (operation e))) ops)"






definition write_on :: "'v register option \<Rightarrow> ('b, 'l, 'v) writes \<Rightarrow> 'v register option" where
  "write_on r ws = foldl (\<lambda>r (e, v). update_optional_register r e v) r ws"

lemma write_on_None: "write_on None ws = write_all ws"
  by (simp add: write_on_def write_all_def)

lemma write_on_Nil [simp]: "write_on r [] = r"
  by (simp add: write_on_def)

lemma write_on_Cons [simp]: "write_on r ((e, v) # ws) = write_on (update_optional_register r e v) ws"
  by (simp add: write_on_def)


lemma writes_of_Cons [simp]: "writes_of f (e # ops) = map (Pair e) (f (operation e)) @ writes_of f ops"
  by (simp add: writes_of_def)

lemma writes_of_Nil [simp]: "writes_of f [] = []"
  by (simp add: writes_of_def)








section \<open>Edits that arrive early\<close>














end
