(* ===== verification/ProjectAt.thy ===== *)
theory ProjectAt
  imports RegisterFold
begin

text \<open>
  The second half of \<open>project_at\<close> (\<open>src/personal_state/reducer.rs\<close>): track bindings, the projections of
  the registers and of the retained engagement events onto the imported baseline, the artist weights and
  the caps.  The event ids that may still count come from \<open>retained_engagement_operation_ids\<close> of
  \<open>src/personal_state/compaction.rs\<close>.  The fingerprint (\<open>serde_json\<close>, \<open>sha2\<close> over the runtime stores) is a
  parameter, as is \<open>to_lowercase\<close>.
\<close>

section \<open>Track bindings\<close>

text \<open>\<open>remove(placeholder)\<close>, the new key in the track, and \<open>entry(target)\<close> with the later register winning.\<close>

definition rebind ::
    "portable_track_key \<Rightarrow> portable_track_key \<Rightarrow> (portable_track_key \<times> (portable_track \<times> 'v) register) list
      \<Rightarrow> (portable_track_key \<times> (portable_track \<times> 'v) register) list" where
  "rebind placeholder target registers = (case om_get registers placeholder of
      None \<Rightarrow> registers
    | Some r \<Rightarrow>
        let moved = r\<lparr>reg_value := ((fst (reg_value r))\<lparr>pt_key := target\<rparr>, snd (reg_value r))\<rparr>
        in om_upsert target
             (\<lambda>current. if stamp_order (reg_stamp moved) (reg_operation_id moved) (reg_stamp current) (reg_operation_id current)
                  = Greater then moved else current)
             moved (om_remove placeholder registers))"

definition apply_track_bindings ::
    "(portable_track_key \<times> portable_track_key register) list \<Rightarrow> rating_map \<times> radio_map \<Rightarrow> rating_map \<times> radio_map" where
  "apply_track_bindings bindings maps = foldl (\<lambda>(ratings, radio) (placeholder, b).
     (rebind placeholder (reg_value b) ratings, rebind placeholder (reg_value b) radio)) maps bindings"

section \<open>Ratings and radio stations\<close>

definition dot_pair :: "causal_stamp \<Rightarrow> device_id \<times> u64" where
  "dot_pair s = (dot_device (stamp_dot s), dot_sequence (stamp_dot s))"

text \<open>Newest dot first, then the key of the track.\<close>

definition newest_first :: "(portable_track \<times> 'v) register \<Rightarrow> (device_id \<times> u64) reversed \<times> portable_track_key" where
  "newest_first r = (Reversed (dot_pair (reg_stamp r)), pt_key (fst (reg_value r)))"

definition projected_favorites :: "rating_map \<Rightarrow> rating \<Rightarrow> portable_track list" where
  "projected_favorites ratings expected = map (\<lambda>r. fst (reg_value r))
     (take FAVORITES_MAX (sort_key newest_first (filter (\<lambda>r. snd (reg_value r) = expected) (map snd ratings))))"

definition projected_radio :: "radio_map \<Rightarrow> portable_track list" where
  "projected_radio radio = map (\<lambda>r. fst (reg_value r))
     (take RADIO_MAX (sort_key newest_first (filter (\<lambda>r. snd (reg_value r)) (map snd radio))))"

definition fresh_signal :: "'w float_ops \<Rightarrow> portable_track \<Rightarrow> int \<Rightarrow> 'w legacy_track_signal" where
  "fresh_signal fo t last_played = \<lparr>ts_track = t, ts_play_count = 0, ts_completed_count = 0, ts_skip_count = 0,
     ts_last_played_at = last_played, ts_last_completion = f_hundredths fo 0, ts_disliked = False\<rparr>"

definition apply_disliked_projection ::
    "'w float_ops \<Rightarrow> rating_map \<Rightarrow> 'w legacy_signals \<Rightarrow> 'w legacy_signals" where
  "apply_disliked_projection fo ratings signals =
     (let cleared = map (\<lambda>(k, s). (k, s\<lparr>ts_disliked := False\<rparr>)) (sg_tracks signals)
      in signals\<lparr>sg_tracks := foldl (\<lambda>tracks (k, r).
           om_upsert k (\<lambda>s. s\<lparr>ts_track := fst (reg_value r), ts_disliked := snd (reg_value r) = Disliked\<rparr>)
             ((fresh_signal fo (fst (reg_value r)) (recorded_at_unix (reg_stamp r)))
               \<lparr>ts_disliked := snd (reg_value r) = Disliked\<rparr>) tracks) cleared ratings\<rparr>)"

section \<open>Artist weights\<close>

definition bump_artist :: "'w float_ops \<Rightarrow> ustring \<Rightarrow> 'w \<Rightarrow> (ustring \<times> 'w) list \<Rightarrow> (ustring \<times> 'w) list" where
  "bump_artist fo artist_key delta weights =
     (if artist_key = [] \<or> f_is_zero fo delta then weights
      else let current = (case om_get weights artist_key of None \<Rightarrow> f_hundredths fo 0 | Some w \<Rightarrow> w);
               next_weight = f_clamp fo (f_add fo current delta) (f_hundredths fo (- 200)) (f_hundredths fo 200)
           in if f_is_zero fo next_weight then om_remove artist_key weights else om_insert artist_key next_weight weights)"

definition completion_fraction :: "'w float_ops \<Rightarrow> u64 option \<Rightarrow> u64 option \<Rightarrow> 'w" where
  "completion_fraction fo played whole = (case (played, whole) of
      (Some p, Some n) \<Rightarrow> if n > 0 then f_ratio fo p n else f_hundredths fo 0
    | _ \<Rightarrow> f_hundredths fo 0)"

definition skip_delta :: "'w float_ops \<Rightarrow> 'w \<Rightarrow> 'w" where
  "skip_delta fo completion =
     (if f_less fo completion (f_hundredths fo 10) then f_hundredths fo (- 30)
      else if f_less fo completion (f_hundredths fo 40) then f_hundredths fo (- 15)
      else if f_less fo completion (f_hundredths fo 75) then f_hundredths fo (- 5)
      else f_hundredths fo 0)"

fun rating_affinity :: "'w float_ops \<Rightarrow> rating \<Rightarrow> 'w" where
  "rating_affinity fo Neutral = f_hundredths fo 0"
| "rating_affinity fo Liked = f_hundredths fo 30"
| "rating_affinity fo Disliked = f_hundredths fo (- 60)"

definition nameless_track :: "portable_track_key \<Rightarrow> portable_track" where
  "nameless_track key = \<lparr>pt_key = key, pt_title = [], pt_artist = [], pt_album = None, pt_duration_secs = None, pt_isrc = None\<rparr>"

definition apply_rating_affinity_delta ::
    "'w float_ops \<Rightarrow> (ustring \<Rightarrow> ustring) \<Rightarrow> (portable_track_key \<times> portable_track \<times> rating) list \<Rightarrow> rating_map
      \<Rightarrow> 'w legacy_signals \<Rightarrow> 'w legacy_signals" where
  "apply_rating_affinity_delta fo lower baseline final_ratings signals = foldl (\<lambda>signals key.
       let before = (case om_get baseline key of None \<Rightarrow> Neutral | Some (_, r) \<Rightarrow> r);
           (t, after) = (case om_get final_ratings key of
               Some r \<Rightarrow> reg_value r
             | None \<Rightarrow> (case om_get baseline key of Some (t, _) \<Rightarrow> (t, Neutral) | None \<Rightarrow> (nameless_track key, Neutral)));
           delta = f_sub fo (rating_affinity fo after) (rating_affinity fo before)
       in signals\<lparr>sg_affinity := bump_artist fo (normalize_artist lower (pt_artist t)) delta (sg_affinity signals)\<rparr>)
     signals (sorted_list_of_set (set (om_keys baseline @ om_keys final_ratings)))"

section \<open>Engagement\<close>

text \<open>\<open>i64::saturating_sub\<close> of a positive amount.\<close>

definition saturating_i64_sub :: "int \<Rightarrow> int \<Rightarrow> int" where
  "saturating_i64_sub a b = max (a - b) (- (2 ^ 63))"

text \<open>The operation that speaks for each event id, in the order of the ids.\<close>

definition note_winner :: "(ustring \<times> ('b, 'l) operation_envelope) list \<Rightarrow> ('b, 'l) operation_envelope
    \<Rightarrow> (ustring \<times> ('b, 'l) operation_envelope) list" where
  "note_winner winners e = (case operation e of
      RecordEngagement event_id _ _ _ _ _ \<Rightarrow>
        if replaces_event e (om_get winners event_id) then om_insert event_id e winners else winners
    | _ \<Rightarrow> winners)"

definition engagement_winners :: "('b, 'l) operation_envelope list \<Rightarrow> (ustring \<times> ('b, 'l) operation_envelope) list" where
  "engagement_winners ops = foldl note_winner [] ops"

text \<open>Newest recording first, then the newest dot, then the event id.\<close>

definition latest_first ::
    "ustring \<times> ('b, 'l) operation_envelope \<Rightarrow> int reversed \<times> (device_id \<times> u64) reversed \<times> ustring" where
  "latest_first x = (Reversed (recorded_at_unix (op_stamp (snd x))), Reversed (dot_pair (op_stamp (snd x))), fst x)"

definition retained_engagement_operation_ids :: "('b, 'l) operation_envelope list \<Rightarrow> int \<Rightarrow> ustring list" where
  "retained_engagement_operation_ids ops now_unix =
     (let cutoff = saturating_i64_sub now_unix RAW_EVENT_RETENTION_SECS;
          retained = filter (\<lambda>(_, e). recorded_at_unix (op_stamp e) = 0 \<or> recorded_at_unix (op_stamp e) \<ge> cutoff)
            (engagement_winners ops)
      in map (\<lambda>(_, e). operation_id e) (rev (take ENGAGEMENT_EVENTS_MAX (sort_key latest_first retained))))"

text \<open>The \<open>HashMap\<close> of events by operation id, and \<open>filter_map\<close> with \<open>remove\<close>.\<close>

fun take_events ::
    "(ustring \<rightharpoonup> ('b, 'l) engagement_event) \<Rightarrow> ustring list \<Rightarrow> ('b, 'l) engagement_event list" where
  "take_events events [] = []"
| "take_events events (i # ids) = (case events i of
      None \<Rightarrow> take_events events ids
    | Some ev \<Rightarrow> ev # take_events (events(i := None)) ids)"

definition retained_events ::
    "('b, 'l) engagement_event list \<Rightarrow> ustring list \<Rightarrow> ('b, 'l) engagement_event list" where
  "retained_events events ids =
     take_events (foldl (\<lambda>m ev. m(operation_id (ev_envelope ev) \<mapsto> ev)) Map.empty events) ids"

definition saturating_inc :: "u32 \<Rightarrow> u32" where
  "saturating_inc n = (if n = - 1 then n else n + 1)"

record 'w engagement_state =
  es_signals :: "'w legacy_signals"
  es_history :: "portable_track list"
  es_known :: "ustring set"

definition engagement_step ::
    "'w float_ops \<Rightarrow> 'w engagement_state \<Rightarrow> ('b, 'l) engagement_event \<Rightarrow> 'w engagement_state" where
  "engagement_step fo st ev =
     (let t = ev_track ev; at = recorded_at_unix (op_stamp (ev_envelope ev)); signals = es_signals st;
          completion = completion_fraction fo (ev_played_ms ev) (ev_total_ms ev);
          signal = (case om_get (sg_tracks signals) (pt_key t) of Some s \<Rightarrow> s | None \<Rightarrow> fresh_signal fo t 0);
          signal = signal\<lparr>ts_track := t, ts_last_played_at := max (ts_last_played_at signal) at,
            ts_last_completion := completion\<rparr>
      in case ev_kind ev of
           QuickSkip \<Rightarrow> st\<lparr>es_signals := signals\<lparr>
             sg_tracks := om_insert (pt_key t) (signal\<lparr>ts_skip_count := saturating_inc (ts_skip_count signal)\<rparr>) (sg_tracks signals),
             sg_affinity := bump_artist fo (ev_artist_key ev) (skip_delta fo completion) (sg_affinity signals)\<rparr>\<rparr>
         | Completion \<Rightarrow> st\<lparr>es_signals := signals\<lparr>
             sg_tracks := om_insert (pt_key t)
               (signal\<lparr>ts_completed_count := saturating_inc (ts_completed_count signal)\<rparr>) (sg_tracks signals),
             sg_affinity := bump_artist fo (ev_artist_key ev) (f_hundredths fo 5) (sg_affinity signals)\<rparr>\<rparr>
         | Play \<Rightarrow> st\<lparr>es_signals := signals\<lparr>
             sg_tracks := om_insert (pt_key t) (signal\<lparr>ts_play_count := saturating_inc (ts_play_count signal)\<rparr>) (sg_tracks signals),
             sg_play_log := (if ev_event_id ev \<in> es_known st then sg_play_log signals
               else sg_play_log signals @ [\<lparr>pe_event_id = ev_event_id ev, pe_track = t, pe_played_at = at\<rparr>])\<rparr>,
             es_history := t # filter (\<lambda>u. pt_key u \<noteq> pt_key t) (es_history st),
             es_known := insert (ev_event_id ev) (es_known st)\<rparr>)"

definition apply_engagement_projection ::
    "'w float_ops \<Rightarrow> ('b, 'l) engagement_event list \<Rightarrow> 'w legacy_projection \<Rightarrow> 'w legacy_projection" where
  "apply_engagement_projection fo events p =
     (let st = foldl (engagement_step fo) \<lparr>es_signals = lg_signals p, es_history = lg_history p,
          es_known = pe_event_id ` set (sg_play_log (lg_signals p))\<rparr> events
      in p\<lparr>lg_signals := es_signals st, lg_history := take HISTORY_MAX (es_history st)\<rparr>)"

section \<open>Caps\<close>

definition play_log_key :: "legacy_play_event \<Rightarrow> int \<times> ustring" where
  "play_log_key ev = (pe_played_at ev, pe_event_id ev)"

definition eviction_order :: "(portable_track_key \<times> 'w legacy_track_signal) list \<Rightarrow> (bool \<times> int \<times> portable_track_key) list" where
  "eviction_order tracks = sort (map (\<lambda>(k, s). (ts_disliked s, ts_last_played_at s, k)) tracks)"

definition cap_tracks ::
    "(portable_track_key \<times> 'w legacy_track_signal) list \<Rightarrow> (portable_track_key \<times> 'w legacy_track_signal) list" where
  "cap_tracks tracks =
     (if length tracks > SIGNAL_TRACKS_MAX
      then foldl (\<lambda>m (_, _, k). om_remove k m) tracks (take (length tracks - SIGNAL_TRACKS_MAX) (eviction_order tracks))
      else tracks)"

definition cap_play_log :: "legacy_play_event list \<Rightarrow> legacy_play_event list" where
  "cap_play_log events = (let sorted_log = sort_key play_log_key events
     in drop (length sorted_log - ENGAGEMENT_EVENTS_MAX) sorted_log)"

definition enforce_projection_caps :: "'w float_ops \<Rightarrow> 'w legacy_projection \<Rightarrow> 'w legacy_projection" where
  "enforce_projection_caps fo p = p\<lparr>
     lg_favorites := take FAVORITES_MAX (lg_favorites p),
     lg_history := take HISTORY_MAX (lg_history p),
     lg_radio_favorites := take RADIO_MAX (lg_radio_favorites p),
     lg_radio_history := take RADIO_MAX (lg_radio_history p),
     lg_playlists := map (\<lambda>l. l\<lparr>lp_entries := take PLAYLIST_ENTRIES_MAX (lp_entries l)\<rparr>) (take PLAYLISTS_MAX (lg_playlists p)),
     lg_signals := (lg_signals p)\<lparr>
       sg_affinity := filter (\<lambda>(_, w). \<not> f_is_zero fo w) (sg_affinity (lg_signals p)),
       sg_play_log := cap_play_log (sg_play_log (lg_signals p)),
       sg_tracks := cap_tracks (sg_tracks (lg_signals p))\<rparr>\<rparr>"

section \<open>The projection\<close>

record 'w projection_params =
  pp_floats :: "'w float_ops"
  pp_lower :: "ustring \<Rightarrow> ustring"
  pp_hash :: "ustring \<Rightarrow> ustring"
  pp_fingerprint :: "'w legacy_projection \<Rightarrow> ustring outcome"

record 'w personal_projection =
  proj_legacy :: "'w legacy_projection"
  proj_registry :: device_registry
  proj_vector :: version_vector
  proj_revision :: u64
  proj_fingerprint :: ustring
  repaired_playlist_cycles :: nat

type_synonym ('w, 'l) p_envelope = "('w legacy_projection, 'l) operation_envelope"

definition projected_station :: "('b, 'l) registers \<Rightarrow> legacy_station" where
  "projected_station rg = \<lparr>
     ls_query = (case rg_station rg of None \<Rightarrow> None | Some r \<Rightarrow> fst (reg_value r)),
     ls_explore = (case rg_station rg of None \<Rightarrow> Balanced | Some r \<Rightarrow> snd (reg_value r)),
     ls_avoid = take AVOID_ARTISTS_MAX (map fst (filter (\<lambda>(_, r). reg_value r) (rg_avoided rg)))\<rparr>"

definition projected_legacy ::
    "'w projection_params \<Rightarrow> 'w legacy_projection \<Rightarrow> ('w legacy_projection, 'l) registers \<Rightarrow> ustring list
      \<Rightarrow> ('w legacy_projection \<times> nat) run" where
  "projected_legacy pp base rg retained_ids =
     (let fo = pp_floats pp;
          baseline_ratings = rating_from_legacy (lg_favorites base) (lg_signals base);
          (ratings, radio) = apply_track_bindings (rg_bindings rg) (rg_ratings rg, rg_radio rg);
          p = base\<lparr>lg_favorites := projected_favorites ratings Liked,
            lg_signals := apply_disliked_projection fo ratings (lg_signals base),
            lg_radio_favorites := projected_radio radio\<rparr>;
          p = apply_engagement_projection fo (retained_events (map snd (rg_events rg)) retained_ids) p;
          p = p\<lparr>lg_signals := apply_rating_affinity_delta fo (pp_lower pp) baseline_ratings ratings (lg_signals p)\<rparr>
      in map_option (\<lambda>(playlists, repaired).
           (enforce_projection_caps fo (p\<lparr>lg_playlists := playlists, lg_station := projected_station rg\<rparr>), repaired))
         (project_playlists (rg_playlists rg)))"

definition project_at ::
    "'w projection_params \<Rightarrow> ('w legacy_projection, 'l) rules \<Rightarrow> ('w legacy_projection, 'l) personal_state \<Rightarrow> int
      \<Rightarrow> 'w personal_projection outcome run" where
  "project_at pp rules st now_unix = (case validate_state rules st of
      Inl err \<Rightarrow> Some (Inl err)
    | Inr _ \<Rightarrow> (case derive_device_registry (check_identity rules) (ps_operations st) of
        Inl err \<Rightarrow> Some (Inl err)
      | Inr devices \<Rightarrow>
          let ops = ps_operations st;
              base = (case winning_baseline ops of None \<Rightarrow> empty_legacy | Some (_, b) \<Rightarrow> b)
          in map_option (\<lambda>(legacy, repaired). bind_ok (pp_fingerprint pp legacy) (\<lambda>fingerprint.
               Inr \<lparr>proj_legacy = legacy, proj_registry = devices, proj_vector = ps_version_vector st,
                 proj_revision = ps_revision st, proj_fingerprint = fingerprint, repaired_playlist_cycles = repaired\<rparr>))
             (projected_legacy pp base (fold_ledger (pp_hash pp) ops) (retained_engagement_operation_ids ops now_unix))))"

end
