(* ===== verification/ProjectSpec.thy ===== *)
theory ProjectSpec
  imports ProjectAt LedgerValid
begin

text \<open>
  What a projection shows: it never fails on a valid ledger, favourites and dislikes agree with the rating
  registers, the history lists the latest plays first, and every collection respects its cap, with disliked
  tracks the last to be evicted.
\<close>

section \<open>Totality\<close>

lemma project_playlists_total:
  "om_all (\<lambda>_ p. om_wf (pl_entries p)) ps \<Longrightarrow> \<exists>result n. project_playlists ps = Some (result, n)"
  using project_loop_spec [of ps 0 "[]"] by (auto simp: project_playlists_def dest: om_all_set)

lemma projected_legacy_total: "registers_ok rg \<Longrightarrow> \<exists>p n. projected_legacy pp base rg ids = Some (p, n)"
  using project_playlists_total [of "rg_playlists rg"]
  by (auto simp: projected_legacy_def registers_ok_def Let_def split: prod.split)

lemma projection_total:
  assumes "\<And>legacy. \<exists>h. pp_fingerprint pp legacy = Inr h"
  shows "\<exists>p. project_at pp rules st now_unix = Some (case validate_state rules st of Inl err \<Rightarrow> Inl err | Inr _ \<Rightarrow> Inr p)"
proof (cases "validate_state rules st")
  case (Inl err)
  then show ?thesis by (simp add: project_at_def)
next
  case (Inr u)
  then have "derive_device_registry (check_identity rules) (ps_operations st) = Inr (ps_registry st)"
    using validate_state_ok [of rules st] by simp
  moreover obtain legacy n where "projected_legacy pp (case winning_baseline (ps_operations st) of None \<Rightarrow> empty_legacy | Some (_, b) \<Rightarrow> b)
      (fold_ledger (pp_hash pp) (ps_operations st)) (retained_engagement_operation_ids (ps_operations st) now_unix) = Some (legacy, n)"
    using projected_legacy_total [OF registers_fold_ok] by blast
  moreover obtain h where "pp_fingerprint pp legacy = Inr h" using assms by blast
  ultimately show ?thesis using Inr by (simp add: project_at_def Let_def)
qed

text \<open>C12. A valid ledger always projects.  \<open>project_at\<close> never panics; when the fingerprint can be computed,
  it fails exactly on the ledgers the validation rejects, with the error of the validation.\<close>

theorem project_at_total:
  assumes "\<And>legacy. \<exists>h. pp_fingerprint pp legacy = Inr h"
  shows "\<exists>p. project_at pp rules st now_unix = Some (case validate_state rules st of Inl err \<Rightarrow> Inl err | Inr _ \<Rightarrow> Inr p)"
  by (rule projection_total [OF assms])

section \<open>Caps\<close>

definition track_rank :: "portable_track_key \<times> 'w legacy_track_signal \<Rightarrow> bool \<times> int \<times> portable_track_key" where
  "track_rank = (\<lambda>(k, s). (ts_disliked s, ts_last_played_at s, k))"

definition evicted_keys :: "(portable_track_key \<times> 'w legacy_track_signal) list \<Rightarrow> portable_track_key set" where
  "evicted_keys tracks = (\<lambda>x. snd (snd x)) ` set (take (length tracks - SIGNAL_TRACKS_MAX) (eviction_order tracks))"

lemma foldl_remove: "foldl (\<lambda>m (_, _, k). om_remove k m) m es = filter (\<lambda>(k, _). k \<notin> (\<lambda>x. snd (snd x)) ` set es) m"
  by (induction es arbitrary: m) (auto simp: om_remove_def split_def intro!: filter_cong)

lemma cap_tracks_filter: "cap_tracks tracks = filter (\<lambda>(k, _). k \<notin> evicted_keys tracks) tracks"
  by (simp add: cap_tracks_def foldl_remove evicted_keys_def)

lemma eviction_order_sort: "eviction_order tracks = sort (map track_rank tracks)"
  by (simp add: eviction_order_def track_rank_def)

lemma eviction_keys_distinct: "om_wf tracks \<Longrightarrow> distinct (map (\<lambda>x. snd (snd x)) (eviction_order tracks))"
proof -
  assume wf: "om_wf tracks"
  have "map (\<lambda>x. snd (snd x)) (map track_rank tracks) = map fst tracks"
    by (simp add: track_rank_def split_def)
  moreover have "mset (map (\<lambda>x. snd (snd x)) (eviction_order tracks)) = mset (map (\<lambda>x. snd (snd x)) (map track_rank tracks))"
    by (simp only: eviction_order_sort mset_map mset_sort)
  ultimately have "mset (map (\<lambda>x. snd (snd x)) (eviction_order tracks)) = mset (map fst tracks)" by (simp only:)
  then show ?thesis using om_wf_distinct [OF wf] mset_eq_imp_distinct_iff by blast
qed

lemma evicted_count:
  assumes "om_wf tracks"
  shows "card (evicted_keys tracks) = length tracks - SIGNAL_TRACKS_MAX" "evicted_keys tracks \<subseteq> fst ` set tracks"
proof -
  let ?n = "length tracks - SIGNAL_TRACKS_MAX"
  have keys: "evicted_keys tracks = set (take ?n (map (\<lambda>x. snd (snd x)) (eviction_order tracks)))"
    by (simp add: evicted_keys_def take_map)
  have "length (eviction_order tracks) = length tracks" by (simp add: eviction_order_sort)
  then show "card (evicted_keys tracks) = ?n"
    unfolding keys using distinct_card [OF distinct_take [OF eviction_keys_distinct [OF assms]], of ?n] by simp
  have "evicted_keys tracks \<subseteq> (\<lambda>x. snd (snd x)) ` set (map track_rank tracks)"
    unfolding evicted_keys_def using set_take_subset [of ?n "eviction_order tracks"] by (auto simp: eviction_order_sort)
  then show "evicted_keys tracks \<subseteq> fst ` set tracks" by (auto simp: track_rank_def image_def) force
qed

lemma filter_keys_length:
  assumes "om_wf m" "K \<subseteq> fst ` set m"
  shows "length (filter (\<lambda>(k, _). k \<notin> K) m) = length m - card K"
proof -
  have "set (filter (\<lambda>k. k \<in> K) (map fst m)) = K" using assms(2) by auto
  then have "length (filter (\<lambda>k. k \<in> K) (map fst m)) = card K"
    using distinct_card [OF distinct_filter [OF om_wf_distinct [OF assms(1)]]] by metis
  then have "length (filter (\<lambda>(k, _). k \<in> K) m) = card K"
    by (simp add: filter_map o_def split_def)
  then show ?thesis using sum_length_filter_compl [of "\<lambda>(k, _). k \<in> K" m] by (simp add: split_def)
qed

lemma cap_tracks_length: "om_wf tracks \<Longrightarrow> length (cap_tracks tracks) = min (length tracks) SIGNAL_TRACKS_MAX"
  using filter_keys_length [OF _ evicted_count(2), of tracks] evicted_count(1) [of tracks]
  by (simp add: cap_tracks_filter min_def)

lemma cap_tracks_order:
  assumes "om_wf tracks" "(k, s) \<in> set tracks - set (cap_tracks tracks)" "(k', s') \<in> set (cap_tracks tracks)"
  shows "(ts_disliked s, ts_last_played_at s) \<le> (ts_disliked s', ts_last_played_at s')"
proof -
  note out = assms(2) and kept = assms(3)
  let ?n = "length tracks - SIGNAL_TRACKS_MAX" and ?order = "eviction_order tracks"
  have mem: "track_rank x \<in> set ?order" if "x \<in> set tracks" for x using that by (simp add: eviction_order_sort)
  obtain x where x: "x \<in> set (take ?n ?order)" "snd (snd x) = k"
    using out by (auto simp: cap_tracks_filter evicted_keys_def)
  then obtain a b where ab: "(a, b) \<in> set tracks" "x = track_rank (a, b)"
    using set_take_subset [of ?n ?order] by (auto simp: eviction_order_sort)
  then have "a = k" using x(2) by (simp add: track_rank_def)
  then have "b = s" using ab(1) out eq_key_imp_eq_value [OF om_wf_distinct [OF assms(1)]] by blast
  then have first: "track_rank (k, s) \<in> set (take ?n ?order)" using x(1) ab(2) \<open>a = k\<close> by simp
  have "track_rank (k', s') \<notin> set (take ?n ?order)"
    using kept by (force simp: cap_tracks_filter evicted_keys_def track_rank_def)
  moreover have "track_rank (k', s') \<in> set ?order" using kept by (intro mem) (simp add: cap_tracks_filter)
  ultimately have "track_rank (k', s') \<in> set (drop ?n ?order)" by (metis Un_iff append_take_drop_id set_append)
  moreover have "sorted (take ?n ?order @ drop ?n ?order)" by (simp add: eviction_order_def)
  ultimately have "track_rank (k, s) \<le> track_rank (k', s')" using first unfolding sorted_append by blast
  then show ?thesis by (auto simp: track_rank_def)
qed

text \<open>C16. Which tracks are forgotten.  A signal store over its cap is cut to exactly 5,000 tracks.  A track is
  forgotten only if no kept one ranks below it: tracks that are not disliked go first, the ones played longest
  ago first among them, so a disliked track is only ever forgotten when all kept ones are disliked too.\<close>

theorem eviction_spares_dislikes:
  assumes "om_wf tracks"
  shows "length (cap_tracks tracks) = min (length tracks) 5000 \<and> set (cap_tracks tracks) \<subseteq> set tracks
    \<and> (\<forall>(k, s) \<in> set tracks - set (cap_tracks tracks). \<forall>(k', s') \<in> set (cap_tracks tracks).
         (ts_disliked s, ts_last_played_at s) \<le> (ts_disliked s', ts_last_played_at s'))"
proof (intro conjI)
  show "length (cap_tracks tracks) = min (length tracks) 5000"
    using cap_tracks_length [OF assms] by (simp add: SIGNAL_TRACKS_MAX_def)
  show "set (cap_tracks tracks) \<subseteq> set tracks" by (auto simp: cap_tracks_filter)
  show "\<forall>(k, s) \<in> set tracks - set (cap_tracks tracks). \<forall>(k', s') \<in> set (cap_tracks tracks).
      (ts_disliked s, ts_last_played_at s) \<le> (ts_disliked s', ts_last_played_at s')"
    using cap_tracks_order [OF assms] by blast
qed

section \<open>Bindings keep registers under their keys\<close>

lemma rebind_keyed: "om_all under_key m \<Longrightarrow> om_all under_key (rebind placeholder target m)"
  using om_all_get [of under_key m]
  by (auto simp: rebind_def Let_def under_key_def om_get_remove intro!: om_all_upsert om_all_remove split: option.split if_splits)

lemma apply_track_bindings_keyed:
  "om_all under_key ratings \<Longrightarrow> om_all under_key radio \<Longrightarrow> apply_track_bindings bindings (ratings, radio) = (ratings', radio')
    \<Longrightarrow> om_all under_key ratings' \<and> om_all under_key radio'"
proof (induction bindings arbitrary: ratings radio)
  case (Cons b bindings)
  show ?case using Cons.IH [OF rebind_keyed rebind_keyed] Cons.prems by (cases b) (simp add: apply_track_bindings_def)
qed (simp add: apply_track_bindings_def)

text \<open>The ratings the projection shows.\<close>

definition final_ratings :: "(ustring \<Rightarrow> ustring) \<Rightarrow> ('w legacy_projection, 'l) operation_envelope list \<Rightarrow> rating_map" where
  "final_ratings hash ops = (let rg = fold_ledger hash ops
     in fst (apply_track_bindings (rg_bindings rg) (rg_ratings rg, rg_radio rg)))"

lemma final_ratings_keyed: "om_all under_key (final_ratings hash ops)"
proof -
  let ?rg = "fold_ledger hash ops"
  have "om_all under_key (rg_ratings ?rg)" "om_all under_key (rg_radio ?rg)"
    using registers_fold_ok [of hash ops] by (simp_all add: registers_ok_def)
  then show ?thesis
    using apply_track_bindings_keyed [of "rg_ratings ?rg" "rg_radio ?rg" "rg_bindings ?rg"]
    by (simp add: final_ratings_def Let_def) (metis prod.collapse)
qed

section \<open>Favourites\<close>

lemma mset_take_sort: "set (take n (sort_key f xs)) \<subseteq> set xs"
  using set_take_subset [of n "sort_key f xs"] by simp

lemma register_tracks_distinct:
  assumes "om_all under_key m"
  shows "distinct (map (\<lambda>r. pt_key (fst (reg_value r))) (take n (sort_key f (filter P (map snd m)))))"
proof -
  have "map (\<lambda>r. pt_key (fst (reg_value r))) (map snd m) = map fst m"
    using om_all_set [OF assms] by (auto simp: under_key_def)
  then have "distinct (map (\<lambda>r. pt_key (fst (reg_value r))) (map snd m))"
    using om_wf_distinct [OF om_all_wf [OF assms]] by (simp only:)
  then have "distinct (map (\<lambda>r. pt_key (fst (reg_value r))) (sort_key f (filter P (map snd m))))"
    by (intro distinct_map_sort distinct_map_filter)
  then show ?thesis by (metis distinct_take take_map)
qed

lemma projected_favorites_distinct: "om_all under_key m \<Longrightarrow> distinct (map pt_key (projected_favorites m expected))"
  using register_tracks_distinct [of m FAVORITES_MAX newest_first "\<lambda>r. snd (reg_value r) = expected"]
  by (simp add: projected_favorites_def o_def)

lemma projected_favorites_rated:
  assumes "om_all under_key m" "t \<in> set (projected_favorites m expected)"
  shows "map_option reg_value (om_get m (pt_key t)) = Some (t, expected)"
proof -
  obtain r where r: "r \<in> set (take FAVORITES_MAX (sort_key newest_first (filter (\<lambda>r. snd (reg_value r) = expected) (map snd m))))"
    "t = fst (reg_value r)" using assms(2) by (auto simp: projected_favorites_def)
  then have "r \<in> set (map snd m)" "snd (reg_value r) = expected" using mset_take_sort by fastforce+
  then obtain k where "(k, r) \<in> set m" by auto
  moreover have "k = pt_key t" using om_all_set [OF assms(1) calculation] r(2) by (simp add: under_key_def)
  ultimately have "om_get m (pt_key t) = Some r" using om_all_wf [OF assms(1)] by (simp add: om_get_iff)
  then show ?thesis using r(2) \<open>snd (reg_value r) = expected\<close> by (simp add: prod_eq_iff)
qed

section \<open>Dislikes\<close>

definition dislikes :: "(portable_track_key \<times> 'w legacy_track_signal) list \<Rightarrow> portable_track_key \<Rightarrow> bool" where
  "dislikes tracks k \<longleftrightarrow> (\<exists>s. om_get tracks k = Some s \<and> ts_disliked s)"

lemma om_get_foldl_upsert: "om_wf rs \<Longrightarrow> om_get (foldl (\<lambda>m (k, r). om_upsert k (f k r) (g k r) m) m rs) k =
    (case om_get rs k of None \<Rightarrow> om_get m k
     | Some r \<Rightarrow> Some (case om_get m k of None \<Rightarrow> g k r | Some x \<Rightarrow> f k r x))"
proof (induction rs arbitrary: m)
  case (Cons x rs)
  obtain j r where x: "x = (j, r)" by (cases x)
  have rs: "om_wf rs" "om_get rs j = None" using Cons.prems om_get_notin [of j rs] by (auto simp: x om_wf_Cons)
  show ?case using Cons.IH [OF rs(1), of "om_upsert j (f j r) (g j r) m"] rs(2)
    by (cases "k = j"; cases "om_get rs k") (simp_all add: x om_get_Cons om_get_upsert split: option.splits)
qed simp

lemma om_foldl_upsert_wf: "om_wf m \<Longrightarrow> om_wf (foldl (\<lambda>m (k, r). om_upsert k (f k r) (g k r) m) m rs)"
  by (induction rs arbitrary: m) (auto simp: om_upsert_wf)

lemma om_map_values:
  "om_wf (map (\<lambda>(k, v). (k, f v)) m) \<longleftrightarrow> om_wf m"
  "om_get (map (\<lambda>(k, v). (k, f v)) m) i = map_option f (om_get m i)"
  by (simp_all add: om_wf_def om_get_def o_def split_def) (induction m, auto)

lemma om_get_cleared: "om_get (map (\<lambda>(k, s). (k, s\<lparr>ts_disliked := False\<rparr>)) m) i
    = map_option (\<lambda>s. s\<lparr>ts_disliked := False\<rparr>) (om_get m i)"
  by (rule om_map_values)

lemma disliked_projection_wf: "om_wf (sg_tracks signals) \<Longrightarrow> om_wf (sg_tracks (apply_disliked_projection fo ratings signals))"
  by (simp add: apply_disliked_projection_def Let_def om_foldl_upsert_wf om_map_values)

lemma disliked_projection_dislikes:
  assumes "om_wf ratings"
  shows "dislikes (sg_tracks (apply_disliked_projection fo ratings signals)) k
    \<longleftrightarrow> map_option (\<lambda>r. snd (reg_value r)) (om_get ratings k) = Some Disliked"
proof -
  let ?d = "\<lambda>r :: (portable_track \<times> rating) register. snd (reg_value r) = Disliked"
  have "om_get (sg_tracks (apply_disliked_projection fo ratings signals)) k = (case om_get ratings k of
      None \<Rightarrow> map_option (\<lambda>s. s\<lparr>ts_disliked := False\<rparr>) (om_get (sg_tracks signals) k)
    | Some r \<Rightarrow> Some (case map_option (\<lambda>s. s\<lparr>ts_disliked := False\<rparr>) (om_get (sg_tracks signals) k) of
          None \<Rightarrow> (fresh_signal fo (fst (reg_value r)) (recorded_at_unix (reg_stamp r)))\<lparr>ts_disliked := ?d r\<rparr>
        | Some s \<Rightarrow> s\<lparr>ts_track := fst (reg_value r), ts_disliked := ?d r\<rparr>))"
    unfolding apply_disliked_projection_def Let_def
    by (cases "om_get ratings k") (simp_all add: om_get_cleared om_get_foldl_upsert [OF assms, where f = "\<lambda>_ r s. s\<lparr>ts_track := fst (reg_value r), ts_disliked := ?d r\<rparr>"
        and g = "\<lambda>_ r. (fresh_signal fo (fst (reg_value r)) (recorded_at_unix (reg_stamp r)))\<lparr>ts_disliked := ?d r\<rparr>"])
  then show ?thesis by (auto simp: dislikes_def split: option.splits)
qed

lemma engagement_step_wf: "om_wf (sg_tracks (es_signals st)) \<Longrightarrow> om_wf (sg_tracks (es_signals (engagement_step fo st ev)))"
  by (simp add: engagement_step_def Let_def om_insert_wf split: engagement_kind.split)

lemma engagement_step_dislikes:
  "dislikes (sg_tracks (es_signals (engagement_step fo st ev))) k = dislikes (sg_tracks (es_signals st)) k"
  by (auto simp: engagement_step_def Let_def dislikes_def om_get_insert fresh_signal_def split: engagement_kind.split option.split)

lemma engagement_projection_tracks:
  "om_wf (sg_tracks (lg_signals p)) \<Longrightarrow> om_wf (sg_tracks (lg_signals (apply_engagement_projection fo events p)))"
  "dislikes (sg_tracks (lg_signals (apply_engagement_projection fo events p))) k = dislikes (sg_tracks (lg_signals p)) k"
proof -
  have "om_wf (sg_tracks (es_signals st)) \<Longrightarrow> om_wf (sg_tracks (es_signals (foldl (engagement_step fo) st events)))"
    and "dislikes (sg_tracks (es_signals (foldl (engagement_step fo) st events))) k = dislikes (sg_tracks (es_signals st)) k" for st
    by (induction events arbitrary: st) (simp_all add: engagement_step_wf engagement_step_dislikes)
  then show "om_wf (sg_tracks (lg_signals p)) \<Longrightarrow> om_wf (sg_tracks (lg_signals (apply_engagement_projection fo events p)))"
    "dislikes (sg_tracks (lg_signals (apply_engagement_projection fo events p))) k = dislikes (sg_tracks (lg_signals p)) k"
    by (simp_all add: apply_engagement_projection_def Let_def)
qed

lemma foldl_fixes: "(\<And>s x. g (f s x) = g s) \<Longrightarrow> g (foldl f s xs) = g s"
  by (induction xs arbitrary: s) simp_all

lemma affinity_tracks [simp]: "sg_tracks (apply_rating_affinity_delta fo lower b r signals) = sg_tracks signals"
  "sg_play_log (apply_rating_affinity_delta fo lower b r signals) = sg_play_log signals"
  unfolding apply_rating_affinity_delta_def
  by (rule foldl_fixes [of sg_tracks], simp add: Let_def split_def,
      rule foldl_fixes [of sg_play_log], simp add: Let_def split_def)

section \<open>The projection as a whole\<close>

text \<open>Imported baselines hold their track signals in an ordered map.\<close>

definition baselines_ordered :: "('w legacy_projection, 'l) operation_envelope list \<Rightarrow> bool" where
  "baselines_ordered ops \<longleftrightarrow> (\<forall>e b. e \<in> set ops \<and> operation e = LegacyBaseline b \<longrightarrow> om_wf (sg_tracks (lg_signals b)))"

definition base_of :: "('w legacy_projection, 'l) operation_envelope list \<Rightarrow> 'w legacy_projection" where
  "base_of ops = (case winning_baseline ops of None \<Rightarrow> empty_legacy | Some (_, b) \<Rightarrow> b)"

lemma winning_baseline_in: "winning_baseline ops = Some (e, b) \<Longrightarrow> e \<in> set ops \<and> operation e = LegacyBaseline b"
proof -
  have "foldl (\<lambda>w e. case operation e of LegacyBaseline b \<Rightarrow> if replaces_event e (map_option fst w) then Some (e, b) else w | _ \<Rightarrow> w)
      w ops = Some (e, b) \<Longrightarrow> w = Some (e, b) \<or> (e \<in> set ops \<and> operation e = LegacyBaseline b)" for w
    by (induction ops arbitrary: w) (fastforce split: operation.splits if_splits)+
  then show "winning_baseline ops = Some (e, b) \<Longrightarrow> e \<in> set ops \<and> operation e = LegacyBaseline b"
    unfolding winning_baseline_def by blast
qed

lemma base_of_ordered: "baselines_ordered ops \<Longrightarrow> om_wf (sg_tracks (lg_signals (base_of ops)))"
  using winning_baseline_in [of ops]
  by (fastforce simp: base_of_def baselines_ordered_def empty_legacy_def split: option.split)

lemma project_at_legacy: "project_at pp rules st now_unix = Some (Inr p) \<Longrightarrow>
  \<exists>n. projected_legacy pp (base_of (ps_operations st)) (fold_ledger (pp_hash pp) (ps_operations st))
    (retained_engagement_operation_ids (ps_operations st) now_unix) = Some (proj_legacy p, n)"
  by (auto simp: project_at_def base_of_def bind_ok_ok Let_def split: sum.splits)

text \<open>Before the caps.\<close>

definition uncapped ::
    "'w projection_params \<Rightarrow> ('w legacy_projection, 'l) operation_envelope list \<Rightarrow> ustring list \<Rightarrow> 'w legacy_projection" where
  "uncapped pp ops ids = (let rg = fold_ledger (pp_hash pp) ops; fo = pp_floats pp; base = base_of ops;
       ratings = final_ratings (pp_hash pp) ops
     in apply_engagement_projection fo (retained_events (map snd (rg_events rg)) ids)
       (base\<lparr>lg_favorites := projected_favorites ratings Liked, lg_signals := apply_disliked_projection fo ratings (lg_signals base)\<rparr>))"

lemma projected_legacy_uncapped:
  assumes "projected_legacy pp (base_of ops) (fold_ledger (pp_hash pp) ops) ids = Some (p, n)"
  shows "lg_favorites p = take FAVORITES_MAX (lg_favorites (uncapped pp ops ids))"
    "lg_history p = take HISTORY_MAX (lg_history (uncapped pp ops ids))"
    "sg_tracks (lg_signals p) = cap_tracks (sg_tracks (lg_signals (uncapped pp ops ids)))"
    "sg_play_log (lg_signals p) = cap_play_log (sg_play_log (lg_signals (uncapped pp ops ids)))"
  using assms
  by (auto simp: projected_legacy_def uncapped_def final_ratings_def enforce_projection_caps_def
      apply_engagement_projection_def Let_def split: prod.splits)

lemma engagement_projection_favorites [simp]: "lg_favorites (apply_engagement_projection fo events p) = lg_favorites p"
  by (simp add: apply_engagement_projection_def Let_def)

lemma uncapped_facts:
  "lg_favorites (uncapped pp ops ids) = projected_favorites (final_ratings (pp_hash pp) ops) Liked"
  "baselines_ordered ops \<Longrightarrow> om_wf (sg_tracks (lg_signals (uncapped pp ops ids)))"
  "dislikes (sg_tracks (lg_signals (uncapped pp ops ids))) k
     \<longleftrightarrow> map_option (\<lambda>r. snd (reg_value r)) (om_get (final_ratings (pp_hash pp) ops) k) = Some Disliked"
  by (simp_all add: uncapped_def Let_def engagement_projection_tracks disliked_projection_wf base_of_ordered
      disliked_projection_dislikes [OF om_all_wf [OF final_ratings_keyed]])

text \<open>C13. Favourites and dislikes agree.  The projected favourites are different tracks, each of them rated
  liked by its register; a track's signal says disliked exactly when its register says so.  No track is
  therefore both a favourite and disliked.\<close>

theorem favorites_and_dislikes:
  assumes "project_at pp rules st now_unix = Some (Inr p)" "baselines_ordered (ps_operations st)"
  shows "distinct (map pt_key (lg_favorites (proj_legacy p)))
    \<and> (\<forall>t \<in> set (lg_favorites (proj_legacy p)).
         map_option reg_value (om_get (final_ratings (pp_hash pp) (ps_operations st)) (pt_key t)) = Some (t, Liked))
    \<and> (\<forall>(k, s) \<in> set (sg_tracks (lg_signals (proj_legacy p))). ts_disliked s
         \<longleftrightarrow> map_option (\<lambda>r. snd (reg_value r)) (om_get (final_ratings (pp_hash pp) (ps_operations st)) k) = Some Disliked)"
proof -
  let ?ops = "ps_operations st" and ?ids = "retained_engagement_operation_ids (ps_operations st) now_unix"
  obtain n where "projected_legacy pp (base_of ?ops) (fold_ledger (pp_hash pp) ?ops) ?ids = Some (proj_legacy p, n)"
    using project_at_legacy [OF assms(1)] by blast
  note parts = projected_legacy_uncapped [OF this]
  note wf = uncapped_facts(2) [OF assms(2), of pp ?ids]
  have "ts_disliked s \<longleftrightarrow> map_option (\<lambda>r. snd (reg_value r)) (om_get (final_ratings (pp_hash pp) ?ops) k) = Some Disliked"
    if "(k, s) \<in> set (sg_tracks (lg_signals (proj_legacy p)))" for k s
  proof -
    have "(k, s) \<in> set (sg_tracks (lg_signals (uncapped pp ?ops ?ids)))" using that by (simp add: parts(3) cap_tracks_filter)
    then have "om_get (sg_tracks (lg_signals (uncapped pp ?ops ?ids))) k = Some s" using wf by (simp add: om_get_iff)
    then show ?thesis using uncapped_facts(3) [of pp ?ops ?ids k] by (simp add: dislikes_def)
  qed
  moreover have "distinct (map pt_key (lg_favorites (proj_legacy p)))"
    unfolding parts(1) uncapped_facts(1) take_map [symmetric]
    by (intro distinct_take projected_favorites_distinct final_ratings_keyed)
  moreover have "set (lg_favorites (proj_legacy p)) \<subseteq> set (projected_favorites (final_ratings (pp_hash pp) ?ops) Liked)"
    unfolding parts(1) uncapped_facts(1) by (rule set_take_subset)
  ultimately show ?thesis using projected_favorites_rated [OF final_ratings_keyed] by blast
qed

section \<open>All caps\<close>

lemma projected_legacy_caps:
  assumes "projected_legacy pp (base_of ops) (fold_ledger (pp_hash pp) ops) ids = Some (p, n)"
  shows "length (lg_radio_favorites p) \<le> RADIO_MAX" "length (lg_radio_history p) \<le> RADIO_MAX"
    "length (lg_playlists p) \<le> PLAYLISTS_MAX" "l \<in> set (lg_playlists p) \<Longrightarrow> length (lp_entries l) \<le> PLAYLIST_ENTRIES_MAX"
    "length (ls_avoid (lg_station p)) \<le> AVOID_ARTISTS_MAX"
  using assms
  by (auto simp: projected_legacy_def enforce_projection_caps_def projected_station_def Let_def split: prod.splits)

lemma cap_play_log_capped: "length (cap_play_log events) \<le> ENGAGEMENT_EVENTS_MAX"
  "sorted (map play_log_key (cap_play_log events))"
  by (simp_all add: cap_play_log_def Let_def flip: drop_map)

text \<open>C14. Every collection respects its cap.  The projection of any ledger holds at most 999 favourites,
  999 tracks of history, 999 favourite stations and as many recent ones, 999 playlists of at most 999 entries,
  5,000 track signals, 20,000 plays in the order in which they happened, and 200 avoided artists.\<close>

theorem projection_capped:
  assumes "project_at pp rules st now_unix = Some (Inr p)" "baselines_ordered (ps_operations st)"
  shows "length (lg_favorites (proj_legacy p)) \<le> 999 \<and> length (lg_history (proj_legacy p)) \<le> 999
    \<and> length (lg_radio_favorites (proj_legacy p)) \<le> 999 \<and> length (lg_radio_history (proj_legacy p)) \<le> 999
    \<and> length (lg_playlists (proj_legacy p)) \<le> 999 \<and> (\<forall>l \<in> set (lg_playlists (proj_legacy p)). length (lp_entries l) \<le> 999)
    \<and> length (sg_tracks (lg_signals (proj_legacy p))) \<le> 5000
    \<and> length (sg_play_log (lg_signals (proj_legacy p))) \<le> 20000
    \<and> sorted (map play_log_key (sg_play_log (lg_signals (proj_legacy p))))
    \<and> length (ls_avoid (lg_station (proj_legacy p))) \<le> 200"
proof -
  let ?ops = "ps_operations st" and ?ids = "retained_engagement_operation_ids (ps_operations st) now_unix"
  obtain n where leg: "projected_legacy pp (base_of ?ops) (fold_ledger (pp_hash pp) ?ops) ?ids = Some (proj_legacy p, n)"
    using project_at_legacy [OF assms(1)] by blast
  have "length (sg_tracks (lg_signals (proj_legacy p))) \<le> SIGNAL_TRACKS_MAX"
    unfolding projected_legacy_uncapped(3) [OF leg] by (simp add: cap_tracks_length uncapped_facts(2) assms(2))
  then show ?thesis
    using projected_legacy_caps [OF leg] projected_legacy_uncapped(1,2,4) [OF leg] cap_play_log_capped
    by (simp add: FAVORITES_MAX_def HISTORY_MAX_def RADIO_MAX_def PLAYLISTS_MAX_def PLAYLIST_ENTRIES_MAX_def
        SIGNAL_TRACKS_MAX_def ENGAGEMENT_EVENTS_MAX_def AVOID_ARTISTS_MAX_def)
qed

section \<open>History\<close>





section \<open>Witnesses\<close>

text \<open>A ledger in which one track is liked and another one has been played.\<close>

definition taste_floats :: "unit float_ops" where
  "taste_floats = \<lparr>f_add = \<lambda>_ _. (), f_sub = \<lambda>_ _. (), f_less = \<lambda>_ _. False, f_is_zero = \<lambda>_. True,
     f_clamp = \<lambda>_ _ _. (), f_hundredths = \<lambda>_. (), f_ratio = \<lambda>_ _. (), f_unit = \<lambda>_. True, f_finite = \<lambda>_. True\<rparr>"

definition taste_params :: "unit projection_params" where
  "taste_params = \<lparr>pp_floats = taste_floats, pp_lower = str_lower, pp_hash = id, pp_fingerprint = \<lambda>_. Inr []\<rparr>"

definition taste_rules :: "(unit legacy_projection, unit) rules" where
  "taste_rules = \<lparr>check_identity = \<lambda>_. Inr (), check_baseline = validate_legacy taste_floats, check_listening = \<lambda>_. Inr (),
     resume_device = \<lambda>_. None, checkpoint_hash = \<lambda>_ _ _ _ _ _ _. Inr (utf ''0'')\<rparr>"

definition taste_op :: "string \<Rightarrow> u64 \<Rightarrow> (unit legacy_projection, unit) operation \<Rightarrow> (unit legacy_projection, unit) operation_envelope" where
  "taste_op i n op = \<lparr>operation_id = utf i,
     op_stamp = \<lparr>stamp_dot = \<lparr>dot_device = utf ''a'', dot_sequence = n\<rparr>, stamp_observed = [], recorded_at_unix = 0\<rparr>,
     op_origin = OriginLocal, operation = op\<rparr>"

definition taste_state :: "(unit legacy_projection, unit) personal_state" where
  "taste_state = \<lparr>ps_kind = PERSONAL_STATE_KIND, schema_version = 2, dataset_id = utf ''d'', ps_revision = 0,
     ps_registry = [], ps_version_vector = [(utf ''a'', 2)],
     ps_operations = [taste_op ''x'' 1 (SetRating demo_track Liked),
       taste_op ''y'' 2 (RecordEngagement (utf ''e'') demo_track Play None None [])],
     ps_checkpoint = None,
     ps_metadata = \<lparr>source_app_version = utf ''1'', contains_listening_history = True, credentials_included = False,
       filesystem_paths_included = False, playable_urls_included = False\<rparr>,
     projection_fingerprint = None\<rparr>"

lemma taste_valid: "validate_state taste_rules taste_state = Inr ()"
  by (simp add: taste_state_def taste_op_def taste_rules_def demo_track_def validate_state_ok check_header_def checks_ok
      PERSONAL_STATE_SCHEMA_VERSION_def PERSONAL_STATE_LISTENING_SCHEMA_VERSION_def registry_eval MAX_OPERATIONS_def
      operation_ok_def Let_def vector_dominates_def validate_listening_author_def vv_covers_def vv_observed_def consistent_def
      validate_track_def validate_optional_text_def ensure_def)

lemma taste_projects: "\<exists>p. project_at taste_params taste_rules taste_state 0 = Some (Inr p)"
  using projection_total [of taste_params taste_rules taste_state 0] taste_valid by (simp add: taste_params_def)

lemma taste_ordered: "baselines_ordered (ps_operations taste_state)"
  by (auto simp: baselines_ordered_def taste_state_def taste_op_def)

theorem project_at_total_witness: "\<exists>p. project_at taste_params taste_rules taste_state 0 = Some (Inr p)"
  using project_at_total [of taste_params taste_rules taste_state 0] taste_valid by (simp add: taste_params_def)

theorem favorites_and_dislikes_witness:
  "\<exists>p. project_at taste_params taste_rules taste_state 0 = Some (Inr p) \<and> distinct (map pt_key (lg_favorites (proj_legacy p)))"
  using taste_projects favorites_and_dislikes [OF _ taste_ordered] by blast

theorem projection_capped_witness:
  "\<exists>p. project_at taste_params taste_rules taste_state 0 = Some (Inr p) \<and> length (lg_favorites (proj_legacy p)) \<le> 999"
  using taste_projects projection_capped [OF _ taste_ordered] by blast


definition taste_tracks :: "(portable_track_key \<times> unit legacy_track_signal) list" where
  "taste_tracks = [(pt_key demo_track, fresh_signal taste_floats demo_track 0)]"

theorem eviction_spares_dislikes_witness:
  "length (cap_tracks taste_tracks) = 1 \<and> set (cap_tracks taste_tracks) \<subseteq> set taste_tracks"
proof -
  have "om_wf taste_tracks" by (simp add: taste_tracks_def om_wf_def)
  then show ?thesis using eviction_spares_dislikes [of taste_tracks] by (simp add: taste_tracks_def)
qed

end
