(* ===== verification/Listening.thy ===== *)
theory Listening
  imports LedgerValid Taste
begin

text \<open>
  \<open>src/listening/model.rs\<close> and \<open>src/listening/projection.rs\<close>: bookmarks, resume points, the radio passport
  and DJ presets.  They live in the personal-state ledger as \<open>Listening\<close> operations and are read back by
  \<open>ListeningProjection::from_ledger\<close>, which keeps for every key the revisions that no later revision
  replaces (several, when devices wrote concurrently).

  The times of a passport visit (\<open>i64\<close>) are only compared and are integers here.
\<close>

section \<open>Operations\<close>

definition ID_CHARS_MAX :: nat where "ID_CHARS_MAX = 256"
definition LABEL_CHARS_MAX :: nat where "LABEL_CHARS_MAX = 256"
definition NOTE_CHARS_MAX :: nat where "NOTE_CHARS_MAX = 1024"

record bookmark_record =
  bm_id :: ustring
  bm_track :: portable_track
  bm_position_ms :: u64
  bm_label :: ustring

record resume_provenance =
  rp_session :: ustring
  rp_device :: device_id

record resume_point =
  pnt_track :: portable_track
  pnt_position_ms :: u64
  pnt_provenance :: resume_provenance

record resume_clear =
  clr_track :: portable_track
  clr_provenance :: resume_provenance

datatype resume_candidate = Position resume_point | Clear resume_clear

record passport_visit =
  vis_station :: ustring
  vis_name :: ustring
  vis_country :: "ustring option"
  vis_first :: int
  vis_last :: int

record passport_note =
  note_station :: ustring
  note_text :: ustring

record dj_preset =
  preset_id :: ustring
  preset_name :: ustring
  preset_snapshot :: taste_snapshot

datatype listening_operation =
    UpsertBookmark bookmark_record
  | DeleteBookmark ustring
  | SetResume resume_point
  | ClearResume resume_clear
  | RecordPassportVisit passport_visit
  | DeletePassportVisit ustring
  | SetPassportNote passport_note
  | DeletePassportNote ustring
  | ClearPassport
  | UpsertDjPreset dj_preset
  | DeleteDjPreset ustring

section \<open>Validation\<close>

fun strip_local :: "ustring \<Rightarrow> ustring" where
  "strip_local w = (case strip_prefix (utf ''local:'') w of Some rest \<Rightarrow> rest | None \<Rightarrow> w)"

definition looks_like_location :: "ustring \<Rightarrow> bool" where
  "looks_like_location s \<longleftrightarrow> has_url s \<or> list_ex (\<lambda>w. path_word (strip_local (str_lower w))) (split_whitespace s)"

definition validate_listening_text :: "string \<Rightarrow> ustring \<Rightarrow> nat \<Rightarrow> bool \<Rightarrow> unit outcome" where
  "validate_listening_text field s max_chars allow_empty = checks [
     ensure (allow_empty \<or> trim s \<noteq> []) (EmptyIdentifier field),
     ensure (length s \<le> max_chars) (IdentifierTooLong field),
     ensure (trim s = s \<and> \<not> list_ex is_control s) (InvalidOperation ''listening text contains unsafe characters''),
     ensure (\<not> looks_like_location s) (InvalidOperation ''listening records must not contain paths or URLs'')]"

definition validate_listening_id :: "string \<Rightarrow> ustring \<Rightarrow> unit outcome" where
  "validate_listening_id field s = validate_listening_text field s ID_CHARS_MAX False"

definition listening_position_limit :: "u32 \<Rightarrow> u64" where
  "listening_position_limit secs = saturating_mul (ucast secs + 1) 1000"

definition validate_position :: "portable_track \<Rightarrow> u64 \<Rightarrow> unit outcome" where
  "validate_position t position_ms = (case pt_duration_secs t of
      Some secs \<Rightarrow> ensure (\<not> position_ms > listening_position_limit secs)
        (InvalidOperation ''listening position exceeds the known track duration'')
    | None \<Rightarrow> Inr ())"

fun key_texts :: "portable_track_key \<Rightarrow> ustring list" where
  "key_texts (Catalog provider exact_id) = [provider, exact_id]"
| "key_texts (OpenSubsonicKey backend account item) = [backend, account, item]"
| "key_texts (LocalPlaceholder placeholder) = [placeholder]"

definition some_list :: "'a option \<Rightarrow> 'a list" where
  "some_list x = (case x of None \<Rightarrow> [] | Some v \<Rightarrow> [v])"

definition validate_listening_track :: "portable_track \<Rightarrow> unit outcome" where
  "validate_listening_track t = checks [
     validate_track t,
     ensure (\<not> list_ex looks_like_location ([pt_title t, pt_artist t] @ some_list (pt_album t) @ some_list (pt_isrc t)))
       (InvalidOperation ''portable track metadata contains a path or URL''),
     ensure (\<not> list_ex looks_like_location (key_texts (pt_key t)))
       (InvalidOperation ''portable track identity contains a path or URL'')]"

definition validate_bookmark :: "bookmark_record \<Rightarrow> unit outcome" where
  "validate_bookmark b = checks [
     validate_listening_id ''bookmark id'' (bm_id b),
     validate_listening_track (bm_track b),
     validate_position (bm_track b) (bm_position_ms b),
     validate_listening_text ''bookmark label'' (bm_label b) LABEL_CHARS_MAX False]"

definition validate_provenance :: "resume_provenance \<Rightarrow> unit outcome" where
  "validate_provenance p = checks [
     validate_listening_id ''playback session id'' (rp_session p),
     validate_listening_id ''resume device id'' (rp_device p)]"

definition validate_point :: "resume_point \<Rightarrow> unit outcome" where
  "validate_point p = checks [
     validate_listening_track (pnt_track p),
     validate_position (pnt_track p) (pnt_position_ms p),
     validate_provenance (pnt_provenance p)]"

definition validate_clear :: "resume_clear \<Rightarrow> unit outcome" where
  "validate_clear c = checks [validate_listening_track (clr_track c), validate_provenance (clr_provenance c)]"

definition validate_visit :: "passport_visit \<Rightarrow> unit outcome" where
  "validate_visit v = checks [
     validate_listening_id ''station UUID'' (vis_station v),
     validate_listening_text ''station name'' (vis_name v) LABEL_CHARS_MAX False,
     when_some (\<lambda>c. ensure (byte_len c = 2 \<and> list_all is_ascii_uppercase c)
       (InvalidOperation ''country code must be two uppercase ASCII letters'')) (vis_country v),
     ensure (\<not> vis_first v > vis_last v) (InvalidOperation ''passport visit timestamps are reversed'')]"

definition validate_note :: "passport_note \<Rightarrow> unit outcome" where
  "validate_note n = checks [
     validate_listening_id ''station UUID'' (note_station n),
     validate_listening_text ''passport note'' (note_text n) NOTE_CHARS_MAX False]"

text \<open>What the presets' snapshots are checked with: \<open>to_lowercase\<close> and the size of a serialised snapshot.\<close>

record preset_rules =
  lowercase :: "ustring \<Rightarrow> ustring"
  encoded_size :: "taste_snapshot \<Rightarrow> nat option"

definition validate_preset :: "preset_rules \<Rightarrow> dj_preset \<Rightarrow> unit outcome" where
  "validate_preset pr p = checks [
     validate_listening_id ''DJ preset id'' (preset_id p),
     validate_listening_text ''DJ preset name'' (preset_name p) LABEL_CHARS_MAX False,
     (case validate_snapshot (lowercase pr) (encoded_size pr) (preset_snapshot p) of
        Inl _ \<Rightarrow> Inl (InvalidOperation ''DJ preset contains an invalid taste snapshot'') | Inr _ \<Rightarrow> Inr ())]"

fun validate_listening :: "preset_rules \<Rightarrow> listening_operation \<Rightarrow> unit outcome" where
  "validate_listening pr (UpsertBookmark b) = validate_bookmark b"
| "validate_listening pr (DeleteBookmark i) = validate_listening_id ''bookmark id'' i"
| "validate_listening pr (SetResume p) = validate_point p"
| "validate_listening pr (ClearResume c) = validate_clear c"
| "validate_listening pr (RecordPassportVisit v) = validate_visit v"
| "validate_listening pr (DeletePassportVisit u) = validate_listening_id ''station UUID'' u"
| "validate_listening pr (SetPassportNote n) = validate_note n"
| "validate_listening pr (DeletePassportNote u) = validate_listening_id ''station UUID'' u"
| "validate_listening pr ClearPassport = Inr ()"
| "validate_listening pr (UpsertDjPreset p) = validate_preset pr p"
| "validate_listening pr (DeleteDjPreset i) = validate_listening_id ''DJ preset id'' i"

text \<open>The device of the provenance \<open>validate_listening_author\<close> looks at.\<close>

fun provenance_device :: "listening_operation \<Rightarrow> device_id option" where
  "provenance_device (SetResume p) = Some (rp_device (pnt_provenance p))"
| "provenance_device (ClearResume c) = Some (rp_device (clr_provenance c))"
| "provenance_device _ = None"

type_synonym 'b l_envelope = "('b, listening_operation) operation_envelope"
type_synonym 'b l_state = "('b, listening_operation) personal_state"
type_synonym 'b l_rules = "('b, listening_operation) rules"

text \<open>The rules of the ledger with the listening checks above in place.\<close>

definition listening_rules :: "preset_rules \<Rightarrow> 'b l_rules \<Rightarrow> 'b l_rules" where
  "listening_rules pr rules = rules\<lparr>check_listening := validate_listening pr, resume_device := provenance_device\<rparr>"

section \<open>Revisions\<close>

record 'v revision =
  rv_stamp :: causal_stamp
  rv_operation_id :: ustring
  rv_value :: 'v

datatype 'v crud_value = Present 'v | Deleted

definition revision_from :: "'b l_envelope \<Rightarrow> 'v \<Rightarrow> 'v revision" where
  "revision_from e v = \<lparr>rv_stamp = op_stamp e, rv_operation_id = operation_id e, rv_value = v\<rparr>"

definition insert_revision :: "'v revision list \<Rightarrow> 'v revision \<Rightarrow> 'v revision list" where
  "insert_revision current candidate =
     (if list_ex (\<lambda>row. rv_operation_id row = rv_operation_id candidate) current
         \<or> list_ex (\<lambda>row. happens_after (rv_stamp row) (rv_stamp candidate)) current then current
      else filter (\<lambda>row. \<not> happens_after (rv_stamp candidate) (rv_stamp row)) current @ [candidate])"

definition push_revision :: "'v revision list \<Rightarrow> 'v revision \<Rightarrow> 'v revision list" where
  "push_revision current candidate =
     (if list_ex (\<lambda>row. rv_operation_id row = rv_operation_id candidate) current then current
      else current @ [candidate])"

definition insert_crud :: "'v crud_value revision list \<Rightarrow> 'v crud_value revision \<Rightarrow> 'v crud_value revision list" where
  "insert_crud current candidate = push_revision current candidate"

definition rv_key :: "'v revision \<Rightarrow> device_id \<times> u64 \<times> ustring" where
  "rv_key r = (dot_device (stamp_dot (rv_stamp r)), dot_sequence (stamp_dot (rv_stamp r)), rv_operation_id r)"

definition sort_revisions :: "'v revision list \<Rightarrow> 'v revision list" where
  "sort_revisions rows = sort_key rv_key rows"

fun is_deleted :: "'v crud_value \<Rightarrow> bool" where
  "is_deleted Deleted = True"
| "is_deleted (Present _) = False"

fun present_value :: "'v crud_value \<Rightarrow> 'v option" where
  "present_value (Present v) = Some v"
| "present_value Deleted = None"

definition delete_stamps :: "'v crud_value revision list \<Rightarrow> causal_stamp list" where
  "delete_stamps rows = map rv_stamp (filter (\<lambda>r. is_deleted (rv_value r)) rows)"

definition after_deletes :: "'v crud_value revision list \<Rightarrow> 'v crud_value revision \<Rightarrow> bool" where
  "after_deletes rows r \<longleftrightarrow> \<not> is_deleted (rv_value r) \<and> list_all (happens_after (rv_stamp r)) (delete_stamps rows)"

text \<open>The values of one key in \<open>visible_maps\<close>.\<close>

definition visible_values :: "'v crud_value revision list \<Rightarrow> 'v list" where
  "visible_values rows = List.map_filter (\<lambda>r. present_value (rv_value r))
     (sort_revisions (foldl insert_revision [] (filter (after_deletes rows) rows)))"

definition visible_maps :: "('k :: linorder \<times> 'v crud_value revision list) list \<Rightarrow> ('k \<times> 'v list) list" where
  "visible_maps maps = filter (\<lambda>(_, values). values \<noteq> []) (map (\<lambda>(k, rows). (k, visible_values rows)) maps)"

definition delete_revision :: "unit revision \<Rightarrow> 'v crud_value revision" where
  "delete_revision c = \<lparr>rv_stamp = rv_stamp c, rv_operation_id = rv_operation_id c, rv_value = Deleted\<rparr>"

definition apply_global_deletes ::
    "('k \<times> 'v crud_value revision list) list \<Rightarrow> unit revision list \<Rightarrow> ('k \<times> 'v crud_value revision list) list" where
  "apply_global_deletes maps clears =
     map (\<lambda>(k, rows). (k, foldl (\<lambda>rows c. insert_crud rows (delete_revision c)) rows clears)) maps"

definition apply_global_visit_deletes ::
    "('k \<times> 'v crud_value revision list) list \<Rightarrow> unit revision list \<Rightarrow> ('k \<times> 'v crud_value revision list) list" where
  "apply_global_visit_deletes maps clears =
     map (\<lambda>(k, rows). (k, foldl (\<lambda>rows c. push_revision rows (delete_revision c)) rows clears)) maps"

definition merge_visit :: "passport_visit \<Rightarrow> passport_visit \<Rightarrow> passport_visit" where
  "merge_visit acc visit = acc\<lparr>
     vis_first := min (vis_first acc) (vis_first visit),
     vis_last := max (vis_last acc) (vis_last visit),
     vis_name := vis_name visit,
     vis_country := (if vis_country visit \<noteq> None then vis_country visit else vis_country acc)\<rparr>"

definition merge_visits :: "passport_visit crud_value revision list \<Rightarrow> passport_visit option" where
  "merge_visits revisions = (let rows = sort_revisions revisions in
     case List.map_filter (\<lambda>r. present_value (rv_value r)) (filter (after_deletes rows) rows) of
       [] \<Rightarrow> None | first # visits \<Rightarrow> Some (foldl merge_visit first visits))"

section \<open>The projection\<close>

text \<open>\<open>maps.entry(key).or_default()\<close>, changed by \<open>f\<close>.\<close>

definition at_entry :: "'k :: linorder \<Rightarrow> ('r list \<Rightarrow> 'r list) \<Rightarrow> ('k \<times> 'r list) list \<Rightarrow> ('k \<times> 'r list) list" where
  "at_entry key f m = om_insert key (f (case om_get m key of Some rows \<Rightarrow> rows | None \<Rightarrow> [])) m"

type_synonym ('k, 'v) crud_map = "('k \<times> 'v crud_value revision list) list"

record listening_rows =
  lr_bookmarks :: "(ustring, bookmark_record) crud_map"
  lr_resumes :: "(portable_track_key \<times> resume_candidate revision list) list"
  lr_visits :: "(ustring, passport_visit) crud_map"
  lr_notes :: "(ustring, passport_note) crud_map"
  lr_clears :: "unit revision list"
  lr_presets :: "(ustring, dj_preset) crud_map"

definition rows_empty :: listening_rows where
  "rows_empty = \<lparr>lr_bookmarks = [], lr_resumes = [], lr_visits = [], lr_notes = [], lr_clears = [], lr_presets = []\<rparr>"

definition validate_resume_device :: "'b l_envelope \<Rightarrow> device_id \<Rightarrow> unit outcome" where
  "validate_resume_device e device = ensure (dot_device (stamp_dot (op_stamp e)) = device)
     (InvalidOperation ''resume provenance does not match its causal device'')"

fun collect_change :: "'b l_envelope \<Rightarrow> listening_operation \<Rightarrow> listening_rows \<Rightarrow> listening_rows outcome" where
  "collect_change e (UpsertBookmark b) m = Inr (m\<lparr>lr_bookmarks :=
     at_entry (bm_id b) (\<lambda>rows. insert_crud rows (revision_from e (Present b))) (lr_bookmarks m)\<rparr>)"
| "collect_change e (DeleteBookmark i) m = Inr (m\<lparr>lr_bookmarks :=
     at_entry i (\<lambda>rows. insert_crud rows (revision_from e Deleted)) (lr_bookmarks m)\<rparr>)"
| "collect_change e (SetResume p) m =
     bind_ok (validate_resume_device e (rp_device (pnt_provenance p))) (\<lambda>_. Inr (m\<lparr>lr_resumes :=
       at_entry (pt_key (pnt_track p)) (\<lambda>rows. insert_revision rows (revision_from e (Position p))) (lr_resumes m)\<rparr>))"
| "collect_change e (ClearResume c) m =
     bind_ok (validate_resume_device e (rp_device (clr_provenance c))) (\<lambda>_. Inr (m\<lparr>lr_resumes :=
       at_entry (pt_key (clr_track c)) (\<lambda>rows. insert_revision rows (revision_from e (Clear c))) (lr_resumes m)\<rparr>))"
| "collect_change e (RecordPassportVisit v) m = Inr (m\<lparr>lr_visits :=
     at_entry (vis_station v) (\<lambda>rows. push_revision rows (revision_from e (Present v))) (lr_visits m)\<rparr>)"
| "collect_change e (DeletePassportVisit u) m = Inr (m\<lparr>lr_visits :=
     at_entry u (\<lambda>rows. push_revision rows (revision_from e Deleted)) (lr_visits m)\<rparr>)"
| "collect_change e (SetPassportNote n) m = Inr (m\<lparr>lr_notes :=
     at_entry (note_station n) (\<lambda>rows. insert_crud rows (revision_from e (Present n))) (lr_notes m)\<rparr>)"
| "collect_change e (DeletePassportNote u) m = Inr (m\<lparr>lr_notes :=
     at_entry u (\<lambda>rows. insert_crud rows (revision_from e Deleted)) (lr_notes m)\<rparr>)"
| "collect_change e ClearPassport m = Inr (m\<lparr>lr_clears := insert_revision (lr_clears m) (revision_from e ())\<rparr>)"
| "collect_change e (UpsertDjPreset p) m = Inr (m\<lparr>lr_presets :=
     at_entry (preset_id p) (\<lambda>rows. insert_crud rows (revision_from e (Present p))) (lr_presets m)\<rparr>)"
| "collect_change e (DeleteDjPreset i) m = Inr (m\<lparr>lr_presets :=
     at_entry i (\<lambda>rows. insert_crud rows (revision_from e Deleted)) (lr_presets m)\<rparr>)"

fun collect_rows :: "preset_rules \<Rightarrow> 'b l_envelope list \<Rightarrow> listening_rows \<Rightarrow> listening_rows outcome" where
  "collect_rows pr [] m = Inr m"
| "collect_rows pr (e # es) m = (case operation e of
      Listening change \<Rightarrow> bind_ok (validate_listening pr change) (\<lambda>_.
        bind_ok (collect_change e change m) (collect_rows pr es))
    | _ \<Rightarrow> collect_rows pr es m)"

record resume_state =
  rs_track_key :: portable_track_key
  rs_candidates :: "resume_candidate list"

record listening_projection =
  lp_bookmarks :: "(ustring \<times> bookmark_record list) list"
  lp_resumes :: "(portable_track_key \<times> resume_state) list"
  lp_visits :: "(ustring \<times> passport_visit) list"
  lp_notes :: "(ustring \<times> passport_note list) list"
  lp_presets :: "(ustring \<times> dj_preset list) list"

definition resume_candidates :: "resume_candidate revision list \<Rightarrow> resume_candidate list" where
  "resume_candidates rows = map rv_value (sort_revisions rows)"

definition project_rows :: "listening_rows \<Rightarrow> listening_projection" where
  "project_rows m =
     (let visits = apply_global_visit_deletes (lr_visits m) (lr_clears m);
          notes = apply_global_deletes (lr_notes m) (lr_clears m)
      in \<lparr>lp_bookmarks = visible_maps (lr_bookmarks m),
          lp_resumes = List.map_filter (\<lambda>(key, rows). let cs = resume_candidates rows
            in if cs \<noteq> [] then Some (key, \<lparr>rs_track_key = key, rs_candidates = cs\<rparr>) else None) (lr_resumes m),
          lp_visits = List.map_filter (\<lambda>(key, rows). map_option (Pair key) (merge_visits rows)) visits,
          lp_notes = visible_maps notes,
          lp_presets = visible_maps (lr_presets m)\<rparr>)"

definition from_ledger :: "preset_rules \<Rightarrow> 'b l_rules \<Rightarrow> 'b l_state \<Rightarrow> listening_projection outcome" where
  "from_ledger pr rules st =
     bind_ok (validate_state (listening_rules pr rules) st) (\<lambda>_.
     bind_ok (collect_rows pr (ps_operations st) rows_empty) (\<lambda>m. Inr (project_rows m)))"

definition automatic_point :: "resume_state \<Rightarrow> resume_point option" where
  "automatic_point r = (case rs_candidates r of [Position point] \<Rightarrow> Some point | _ \<Rightarrow> None)"

definition is_conflicted :: "resume_state \<Rightarrow> bool" where
  "is_conflicted r \<longleftrightarrow> length (rs_candidates r) > 1"

definition automatic_resume :: "listening_projection \<Rightarrow> portable_track_key \<Rightarrow> resume_point option" where
  "automatic_resume p key = (case om_get (lp_resumes p) key of None \<Rightarrow> None | Some r \<Rightarrow> automatic_point r)"

end
