(* ===== verification/ListeningView.thy ===== *)
theory ListeningView
  imports Listening
begin

text \<open>
  What the listening projection shows, in terms of the set of operations: of every key the writes that
  have seen all deletions and that no later such write replaces, in the order of their dots.  This holds
  for causal histories, in which an operation has observed whatever the operations it observed had
  observed; the theories of the compaction rest on this view.
\<close>

section \<open>Frontiers\<close>

text \<open>The loop of \<open>insert_revision\<close> and of the compaction: keep the elements no later one replaces.\<close>

definition frontier_step :: "('a \<Rightarrow> 'a \<Rightarrow> bool) \<Rightarrow> ('a \<Rightarrow> 'a \<Rightarrow> bool) \<Rightarrow> 'a list \<Rightarrow> 'a \<Rightarrow> 'a list" where
  "frontier_step newer same fr x =
     (if list_ex (\<lambda>y. same y x) fr \<or> list_ex (\<lambda>y. newer y x) fr then fr
      else filter (\<lambda>y. \<not> newer x y) fr @ [x])"

definition strict_on :: "'a set \<Rightarrow> ('a \<Rightarrow> 'a \<Rightarrow> bool) \<Rightarrow> bool" where
  "strict_on S newer \<longleftrightarrow> (\<forall>x \<in> S. \<not> newer x x)
     \<and> (\<forall>x \<in> S. \<forall>y \<in> S. \<forall>z \<in> S. newer x y \<longrightarrow> newer y z \<longrightarrow> newer x z)"

definition newest :: "('a \<Rightarrow> 'a \<Rightarrow> bool) \<Rightarrow> 'a set \<Rightarrow> 'a set" where
  "newest newer S = {x \<in> S. \<forall>y \<in> S. \<not> newer y x}"

lemma strict_on_subset: "strict_on S newer \<Longrightarrow> T \<subseteq> S \<Longrightarrow> strict_on T newer"
  unfolding strict_on_def by blast

lemma strict_on_trans: "strict_on S newer \<Longrightarrow> newer x y \<Longrightarrow> newer y z \<Longrightarrow> x \<in> S \<Longrightarrow> y \<in> S \<Longrightarrow> z \<in> S \<Longrightarrow> newer x z"
  unfolding strict_on_def by blast

lemma strict_on_irrefl: "strict_on S newer \<Longrightarrow> x \<in> S \<Longrightarrow> \<not> newer x x"
  unfolding strict_on_def by blast

lemma newest_above:
  assumes "strict_on S newer" "finite S" "y \<in> S"
  shows "\<exists>m \<in> newest newer S. m = y \<or> newer m y"
  using assms(3)
proof (induction "card {z \<in> S. newer z y}" arbitrary: y rule: less_induct)
  case less
  show ?case
  proof (cases "{z \<in> S. newer z y} = {}")
    case True
    then show ?thesis using less.prems by (auto simp: newest_def)
  next
    case False
    then obtain z where z: "z \<in> S" "newer z y" by auto
    have "{w \<in> S. newer w z} \<subset> {w \<in> S. newer w y}"
      using z less.prems strict_on_irrefl [OF assms(1) z(1)] strict_on_trans [OF assms(1) _ z(2)] by blast
    then have "card {w \<in> S. newer w z} < card {w \<in> S. newer w y}"
      using assms(2) by (intro psubset_card_mono) auto
    then obtain m where "m \<in> newest newer S" "m = z \<or> newer m z" using less.hyps z(1) by blast
    moreover from this have "newer m y"
      using z less.prems strict_on_trans [OF assms(1) _ z(2)] by (auto simp: newest_def)
    ultimately show ?thesis by blast
  qed
qed

lemma newest_subset: "newest newer S \<subseteq> S"
  by (auto simp: newest_def)

lemma frontier_fold:
  assumes "strict_on S newer" "\<And>x y. x \<in> S \<Longrightarrow> y \<in> S \<Longrightarrow> same x y \<Longrightarrow> x = y" "set xs \<subseteq> S"
  shows "set (foldl (frontier_step newer same) [] xs) = newest newer (set xs)"
  using assms(3)
proof (induction xs rule: rev_induct)
  case Nil
  then show ?case by (simp add: newest_def)
next
  case (snoc x xs)
  let ?F = "foldl (frontier_step newer same) [] xs"
  have F: "set ?F = newest newer (set xs)" using snoc by simp
  have in_S: "x \<in> S" "set xs \<subseteq> S" using snoc.prems by auto
  have st: "strict_on (set xs) newer" by (rule strict_on_subset [OF assms(1) in_S(2)])
  have irr: "\<not> newer x x" using strict_on_irrefl [OF assms(1)] in_S by blast
  consider (same) y where "y \<in> set ?F" "same y x" | (older) y where "y \<in> set ?F" "newer y x"
    | (new) "\<forall>y \<in> set ?F. \<not> same y x \<and> \<not> newer y x" by blast
  then show ?case
  proof cases
    case same
    then have "y = x" "x \<in> set xs" using assms(2) in_S F by (auto simp: newest_def)
    then have "set (xs @ [x]) = set xs" by auto
    moreover have "foldl (frontier_step newer same) [] (xs @ [x]) = ?F"
      using same by (auto simp: frontier_step_def list_ex_iff)
    ultimately show ?thesis using F by simp
  next
    case older
    then have y: "y \<in> set xs" "\<forall>z \<in> set xs. \<not> newer z y" using F by (auto simp: newest_def)
    have "\<not> newer x z" if "z \<in> newest newer (set xs)" for z
      using that y older(2) in_S strict_on_trans [OF assms(1), of y x z] by (auto simp: newest_def)
    then have "newest newer (set (xs @ [x])) = newest newer (set xs)"
      using y older(2) by (auto simp: newest_def)
    moreover have "foldl (frontier_step newer same) [] (xs @ [x]) = ?F"
      using older by (auto simp: frontier_step_def list_ex_iff)
    ultimately show ?thesis using F by simp
  next
    case new
    have top: "\<not> newer y x" if y: "y \<in> set xs" for y
    proof
      assume "newer y x"
      obtain m where m: "m \<in> newest newer (set xs)" "m = y \<or> newer m y"
        using newest_above [OF st finite_set y] by auto
      then have "newer m x"
        using \<open>newer y x\<close> in_S y strict_on_trans [OF assms(1), of m y x] by (auto simp: newest_def)
      then show False using new m F by auto
    qed
    have "foldl (frontier_step newer same) [] (xs @ [x]) = filter (\<lambda>y. \<not> newer x y) ?F @ [x]"
      using new by (auto simp: frontier_step_def list_ex_iff)
    moreover have "newest newer (set (xs @ [x])) = {z \<in> newest newer (set xs). \<not> newer x z} \<union> {x}"
      using top irr by (auto simp: newest_def)
    ultimately show ?thesis using F by auto
  qed
qed

lemma frontier_step_distinct: "same x x \<Longrightarrow> distinct fr \<Longrightarrow> distinct (frontier_step newer same fr x)"
  by (auto simp: frontier_step_def list_ex_iff)

lemma frontier_distinct:
  assumes "\<And>x. x \<in> set xs \<Longrightarrow> same x x"
  shows "distinct (foldl (frontier_step newer same) [] xs)"
  using assms by (induction xs rule: rev_induct) (simp_all add: frontier_step_distinct)

section \<open>Revisions as a frontier\<close>

definition newer_row :: "'v revision \<Rightarrow> 'v revision \<Rightarrow> bool" where
  "newer_row r s \<longleftrightarrow> happens_after (rv_stamp r) (rv_stamp s)"

definition same_row :: "'v revision \<Rightarrow> 'v revision \<Rightarrow> bool" where
  "same_row r s \<longleftrightarrow> rv_operation_id r = rv_operation_id s"

lemma insert_revision_frontier: "insert_revision = frontier_step newer_row same_row"
  by (intro ext) (simp add: insert_revision_def frontier_step_def newer_row_def same_row_def)

lemma push_fold:
  assumes "\<And>x y. x \<in> set rows \<Longrightarrow> y \<in> set rows \<Longrightarrow> same_row x y \<Longrightarrow> x = y"
  shows "set (foldl push_revision [] rows) = set rows \<and> distinct (foldl push_revision [] rows)"
  using assms
proof (induction rows rule: rev_induct)
  case (snoc x rows)
  then have IH: "set (foldl push_revision [] rows) = set rows" "distinct (foldl push_revision [] rows)" by auto
  have mem: "list_ex (\<lambda>row. rv_operation_id row = rv_operation_id x) (foldl push_revision [] rows) \<longleftrightarrow> x \<in> set rows"
    unfolding list_ex_iff IH(1)
  proof
    assume "\<exists>row \<in> set rows. rv_operation_id row = rv_operation_id x"
    then obtain row where "row \<in> set rows" "rv_operation_id row = rv_operation_id x" by blast
    then show "x \<in> set rows" using snoc.prems [of row x] by (simp add: same_row_def)
  qed blast
  have "foldl push_revision [] (rows @ [x])
      = (if x \<in> set rows then foldl push_revision [] rows else foldl push_revision [] rows @ [x])"
    by (simp add: push_revision_def [of "foldl push_revision [] rows" x] mem)
  then show ?case using IH by auto
qed simp

section \<open>The operations that touch a key\<close>

text \<open>\<open>sel\<close> says what a listening change does to the key in question: a value, a deletion, or nothing.\<close>

definition touch :: "(listening_operation \<Rightarrow> 'v option) \<Rightarrow> 'b l_envelope \<Rightarrow> 'v option" where
  "touch sel e = (case operation e of Listening change \<Rightarrow> sel change | _ \<Rightarrow> None)"

definition writes :: "(listening_operation \<Rightarrow> 'v option) \<Rightarrow> 'b l_envelope list \<Rightarrow> 'v revision list" where
  "writes sel ops = List.map_filter (\<lambda>e. map_option (revision_from e) (touch sel e)) ops"

lemma writes_Nil [simp]: "writes sel [] = []"
  by (simp add: writes_def map_filter_simps)

lemma writes_Cons: "writes sel (e # es) = (case touch sel e of None \<Rightarrow> writes sel es | Some v \<Rightarrow> revision_from e v # writes sel es)"
  by (auto simp: writes_def map_filter_simps split: option.split)

lemma set_writes: "set (writes sel ops) = {revision_from e v | e v. e \<in> set ops \<and> touch sel e = Some v}"
  by (induction ops) (auto simp: writes_Cons split: option.splits)

fun bookmark_change :: "ustring \<Rightarrow> listening_operation \<Rightarrow> bookmark_record crud_value option" where
  "bookmark_change k (UpsertBookmark b) = (if bm_id b = k then Some (Present b) else None)"
| "bookmark_change k (DeleteBookmark i) = (if i = k then Some Deleted else None)"
| "bookmark_change k _ = None"

fun preset_change :: "ustring \<Rightarrow> listening_operation \<Rightarrow> dj_preset crud_value option" where
  "preset_change k (UpsertDjPreset p) = (if preset_id p = k then Some (Present p) else None)"
| "preset_change k (DeleteDjPreset i) = (if i = k then Some Deleted else None)"
| "preset_change k _ = None"

fun note_change :: "ustring \<Rightarrow> listening_operation \<Rightarrow> passport_note crud_value option" where
  "note_change k (SetPassportNote n) = (if note_station n = k then Some (Present n) else None)"
| "note_change k (DeletePassportNote u) = (if u = k then Some Deleted else None)"
| "note_change k _ = None"

fun visit_change :: "ustring \<Rightarrow> listening_operation \<Rightarrow> passport_visit crud_value option" where
  "visit_change k (RecordPassportVisit v) = (if vis_station v = k then Some (Present v) else None)"
| "visit_change k (DeletePassportVisit u) = (if u = k then Some Deleted else None)"
| "visit_change k _ = None"

fun resume_change :: "portable_track_key \<Rightarrow> listening_operation \<Rightarrow> resume_candidate option" where
  "resume_change k (SetResume p) = (if pt_key (pnt_track p) = k then Some (Position p) else None)"
| "resume_change k (ClearResume c) = (if pt_key (clr_track c) = k then Some (Clear c) else None)"
| "resume_change k _ = None"

fun clear_change :: "listening_operation \<Rightarrow> unit option" where
  "clear_change ClearPassport = Some ()"
| "clear_change _ = None"

text \<open>A passport clear deletes every note and every visit.\<close>

definition or_clear :: "(listening_operation \<Rightarrow> 'v crud_value option) \<Rightarrow> listening_operation \<Rightarrow> 'v crud_value option" where
  "or_clear sel c = (if c = ClearPassport then Some Deleted else sel c)"

section \<open>What the loop collects\<close>

definition rows_at :: "('k :: linorder \<times> 'r list) list \<Rightarrow> 'k \<Rightarrow> 'r list" where
  "rows_at m k = (case om_get m k of Some rows \<Rightarrow> rows | None \<Rightarrow> [])"

lemma rows_at_entry: "rows_at (at_entry key f m) k = (if k = key then f (rows_at m k) else rows_at m k)"
  by (simp add: rows_at_def at_entry_def om_get_insert)

lemma at_entry_wf: "om_wf m \<Longrightarrow> om_wf (at_entry key f m)"
  by (simp add: at_entry_def om_insert_wf)

definition rows_wf :: "listening_rows \<Rightarrow> bool" where
  "rows_wf m \<longleftrightarrow> om_wf (lr_bookmarks m) \<and> om_wf (lr_resumes m) \<and> om_wf (lr_visits m)
     \<and> om_wf (lr_notes m) \<and> om_wf (lr_presets m)"

lemma collect_change_wf: "collect_change e c m = Inr m' \<Longrightarrow> rows_wf m \<Longrightarrow> rows_wf m'"
  by (cases c) (auto simp: rows_wf_def bind_ok_unit intro!: at_entry_wf)

text \<open>One field of the maps at one key, and what the changes add to it.\<close>

definition folds :: "('b l_envelope \<Rightarrow> listening_operation \<Rightarrow> listening_rows \<Rightarrow> listening_rows outcome)
    \<Rightarrow> (listening_rows \<Rightarrow> 'v revision list) \<Rightarrow> ('v revision list \<Rightarrow> 'v revision \<Rightarrow> 'v revision list)
    \<Rightarrow> (listening_operation \<Rightarrow> 'v option) \<Rightarrow> bool" where
  "folds collect field add sel \<longleftrightarrow> (\<forall>e c m m'. collect e c m = Inr m' \<longrightarrow>
     field m' = (case sel c of None \<Rightarrow> field m | Some v \<Rightarrow> add (field m) (revision_from e v)))"

lemma bind_ok_Inr: "bind_ok r f = Inr y \<Longrightarrow> (\<And>x. r = Inr x \<Longrightarrow> f x = Inr y \<Longrightarrow> thesis) \<Longrightarrow> thesis"
  by (cases r) auto

lemma collect_rows_fold:
  fixes ops :: "'b l_envelope list"
  assumes "folds (collect_change :: 'b l_envelope \<Rightarrow> _) field add sel" "collect_rows pr ops m = Inr m'"
  shows "field m' = foldl add (field m) (writes sel ops)"
  using assms(2)
proof (induction ops arbitrary: m)
  case Nil
  then show ?case by simp
next
  case (Cons e es)
  show ?case
  proof (cases "\<exists>c. operation e = Listening c")
    case True
    then obtain c where c: "operation e = Listening c" by blast
    then obtain m1 where m1: "collect_change e c m = Inr m1" "collect_rows pr es m1 = Inr m'"
      using Cons.prems by (auto simp: bind_ok_unit elim: bind_ok_Inr)
    have "field m1 = (case sel c of None \<Rightarrow> field m | Some v \<Rightarrow> add (field m) (revision_from e v))"
      using assms(1) m1(1) by (simp add: folds_def)
    then show ?thesis using Cons.IH [OF m1(2)] c by (simp add: writes_Cons touch_def split: option.split)
  next
    case False
    then have "touch sel e = None" by (auto simp: touch_def split: operation.split)
    moreover have "collect_rows pr es m = Inr m'" using Cons.prems False by (auto split: operation.splits)
    ultimately show ?thesis using Cons.IH by (simp add: writes_Cons)
  qed
qed

lemma collect_rows_wf: "collect_rows pr ops m = Inr m' \<Longrightarrow> rows_wf m \<Longrightarrow> rows_wf m'"
proof (induction ops arbitrary: m)
  case (Cons e es)
  then show ?case
    by (auto simp: bind_ok_unit elim!: bind_ok_Inr split: operation.splits intro: collect_change_wf)
qed simp

lemma folds_bookmarks: "folds collect_change (\<lambda>m. rows_at (lr_bookmarks m) k) push_revision (bookmark_change k)"
  unfolding folds_def
proof (intro allI impI)
  fix e :: "'x l_envelope" and c m m' assume "collect_change e c m = Inr m'"
  then show "rows_at (lr_bookmarks m') k = (case bookmark_change k c of None \<Rightarrow> rows_at (lr_bookmarks m) k
      | Some v \<Rightarrow> push_revision (rows_at (lr_bookmarks m) k) (revision_from e v))"
    by (cases c) (auto simp: rows_at_entry insert_crud_def bind_ok_unit)
qed

lemma folds_presets: "folds collect_change (\<lambda>m. rows_at (lr_presets m) k) push_revision (preset_change k)"
  unfolding folds_def
proof (intro allI impI)
  fix e :: "'x l_envelope" and c m m' assume "collect_change e c m = Inr m'"
  then show "rows_at (lr_presets m') k = (case preset_change k c of None \<Rightarrow> rows_at (lr_presets m) k
      | Some v \<Rightarrow> push_revision (rows_at (lr_presets m) k) (revision_from e v))"
    by (cases c) (auto simp: rows_at_entry insert_crud_def bind_ok_unit)
qed

lemma folds_notes: "folds collect_change (\<lambda>m. rows_at (lr_notes m) k) push_revision (note_change k)"
  unfolding folds_def
proof (intro allI impI)
  fix e :: "'x l_envelope" and c m m' assume "collect_change e c m = Inr m'"
  then show "rows_at (lr_notes m') k = (case note_change k c of None \<Rightarrow> rows_at (lr_notes m) k
      | Some v \<Rightarrow> push_revision (rows_at (lr_notes m) k) (revision_from e v))"
    by (cases c) (auto simp: rows_at_entry insert_crud_def bind_ok_unit)
qed

lemma folds_visits: "folds collect_change (\<lambda>m. rows_at (lr_visits m) k) push_revision (visit_change k)"
  unfolding folds_def
proof (intro allI impI)
  fix e :: "'x l_envelope" and c m m' assume "collect_change e c m = Inr m'"
  then show "rows_at (lr_visits m') k = (case visit_change k c of None \<Rightarrow> rows_at (lr_visits m) k
      | Some v \<Rightarrow> push_revision (rows_at (lr_visits m) k) (revision_from e v))"
    by (cases c) (auto simp: rows_at_entry bind_ok_unit)
qed

lemma folds_resumes: "folds collect_change (\<lambda>m. rows_at (lr_resumes m) k) insert_revision (resume_change k)"
  unfolding folds_def
proof (intro allI impI)
  fix e :: "'x l_envelope" and c m m' assume "collect_change e c m = Inr m'"
  then show "rows_at (lr_resumes m') k = (case resume_change k c of None \<Rightarrow> rows_at (lr_resumes m) k
      | Some v \<Rightarrow> insert_revision (rows_at (lr_resumes m) k) (revision_from e v))"
    by (cases c) (auto simp: rows_at_entry bind_ok_unit)
qed

lemma folds_clears: "folds collect_change lr_clears insert_revision clear_change"
  unfolding folds_def
proof (intro allI impI)
  fix e :: "'x l_envelope" and c m m' assume "collect_change e c m = Inr m'"
  then show "lr_clears m' = (case clear_change c of None \<Rightarrow> lr_clears m
      | Some v \<Rightarrow> insert_revision (lr_clears m) (revision_from e v))"
    by (cases c) (auto simp: bind_ok_unit)
qed

section \<open>Histories and what they show\<close>

definition later :: "'b l_envelope \<Rightarrow> 'b l_envelope \<Rightarrow> bool" where
  "later a b \<longleftrightarrow> happens_after (op_stamp a) (op_stamp b)"

text \<open>A causal history: ids name operations, no operation has observed itself, and what a listening
  operation has observed includes what the observed listening operations had observed.\<close>

definition causal :: "'b l_envelope set \<Rightarrow> bool" where
  "causal E \<longleftrightarrow> (\<forall>a \<in> E. \<forall>b \<in> E. \<forall>c \<in> E. is_listening (operation a) \<and> is_listening (operation b)
     \<and> is_listening (operation c) \<and> later a b \<and> later b c \<longrightarrow> later a c)"

definition history :: "'b l_envelope set \<Rightarrow> bool" where
  "history E \<longleftrightarrow> ids_apart E \<and> (\<forall>e \<in> E. \<not> later e e) \<and> causal E"

lemma history_subset: "history E \<Longrightarrow> D \<subseteq> E \<Longrightarrow> history D"
  unfolding history_def causal_def ids_apart_def by blast

lemma history_strict:
  assumes "history E" "\<And>e. e \<in> D \<Longrightarrow> e \<in> E \<and> is_listening (operation e)"
  shows "strict_on D later"
  using assms unfolding history_def causal_def strict_on_def by blast

lemma valid_history: "validate_state rules st = Inr () \<Longrightarrow> causal (set (ps_operations st)) \<Longrightarrow> history (set (ps_operations st))"
  unfolding history_def validate_state_ok
  by (auto simp: consistent_ids_apart operation_ok_def checks_ok Let_def later_def happens_after_def vv_covers_def)

lemma touch_listening: "touch sel e = Some v \<Longrightarrow> is_listening (operation e)"
  by (auto simp: touch_def split: operation.splits)

text \<open>The writes that have seen every deletion of their key.\<close>

definition live :: "(listening_operation \<Rightarrow> 'v crud_value option) \<Rightarrow> 'b l_envelope set \<Rightarrow> 'b l_envelope set" where
  "live sel E = {e \<in> E. (\<exists>v. touch sel e = Some (Present v)) \<and> (\<forall>d \<in> E. touch sel d = Some Deleted \<longrightarrow> later e d)}"

text \<open>The members of \<open>N\<close>, each once, by dot.\<close>

definition by_dot :: "'b l_envelope set \<Rightarrow> 'b l_envelope list \<Rightarrow> 'b l_envelope list" where
  "by_dot N ops = sort_envelopes (filter (\<lambda>e. e \<in> N) (remdups ops))"

definition value_of :: "(listening_operation \<Rightarrow> 'v crud_value option) \<Rightarrow> 'b l_envelope \<Rightarrow> 'v option" where
  "value_of sel e = Option.bind (touch sel e) present_value"

definition crud_view :: "(listening_operation \<Rightarrow> 'v crud_value option) \<Rightarrow> 'b l_envelope list \<Rightarrow> 'v list" where
  "crud_view sel ops = List.map_filter (value_of sel) (by_dot (newest later (live sel (set ops))) ops)"

definition visit_view :: "(listening_operation \<Rightarrow> passport_visit crud_value option) \<Rightarrow> 'b l_envelope list \<Rightarrow> passport_visit option" where
  "visit_view sel ops = (case List.map_filter (value_of sel) (by_dot (live sel (set ops)) ops) of
     [] \<Rightarrow> None | first # visits \<Rightarrow> Some (foldl merge_visit first visits))"

definition resume_view :: "(listening_operation \<Rightarrow> resume_candidate option) \<Rightarrow> 'b l_envelope list \<Rightarrow> resume_candidate list" where
  "resume_view sel ops = List.map_filter (touch sel) (by_dot (newest later {e \<in> set ops. touch sel e \<noteq> None}) ops)"

section \<open>The code computes the view\<close>

definition revision_of :: "(listening_operation \<Rightarrow> 'v option) \<Rightarrow> 'b l_envelope \<Rightarrow> 'v revision" where
  "revision_of sel e = revision_from e (the (touch sel e))"

lemma revision_of_fields [simp]:
  "rv_stamp (revision_of sel e) = op_stamp e" "rv_operation_id (revision_of sel e) = operation_id e"
  "rv_value (revision_of sel e) = the (touch sel e)" "rv_key (revision_of sel e) = envelope_key e"
  by (simp_all add: revision_of_def revision_from_def rv_key_def envelope_key_def)

lemma newer_row_of [simp]: "newer_row (revision_of sel a) (revision_of sel b) = later a b"
  by (simp add: newer_row_def later_def)

lemma same_row_of [simp]: "same_row (revision_of sel a) (revision_of sel b) = (operation_id a = operation_id b)"
  by (simp add: same_row_def)

lemma newest_image: "(\<And>a b. a \<in> L \<Longrightarrow> b \<in> L \<Longrightarrow> newer' (g a) (g b) = newer a b) \<Longrightarrow>
    newest newer' (g ` L) = g ` newest newer L"
  by (auto simp: newest_def)

lemma strict_image: "strict_on L newer \<Longrightarrow> (\<And>a b. a \<in> L \<Longrightarrow> b \<in> L \<Longrightarrow> newer' (g a) (g b) = newer a b) \<Longrightarrow>
    strict_on (g ` L) newer'"
proof -
  assume st: "strict_on L newer" and eq: "\<And>a b. a \<in> L \<Longrightarrow> b \<in> L \<Longrightarrow> newer' (g a) (g b) = newer a b"
  show ?thesis unfolding strict_on_def
  proof (intro conjI ballI impI)
    fix x assume "x \<in> g ` L"
    then show "\<not> newer' x x" using eq strict_on_irrefl [OF st] by auto
  next
    fix x y z assume xyz: "x \<in> g ` L" "y \<in> g ` L" "z \<in> g ` L" "newer' x y" "newer' y z"
    then obtain a b c where "a \<in> L" "x = g a" "b \<in> L" "y = g b" "c \<in> L" "z = g c" by (elim imageE)
    then show "newer' x z" using xyz(4,5) strict_on_trans [OF st, of a b c] eq by simp
  qed
qed

lemma map_filter_map: "List.map_filter f (map g xs) = List.map_filter (\<lambda>x. f (g x)) xs"
  by (induction xs) (simp_all add: map_filter_simps split: option.split)

lemma map_filter_agree: "(\<And>x. x \<in> set xs \<Longrightarrow> f x = g x) \<Longrightarrow> List.map_filter f xs = List.map_filter g xs"
  by (induction xs) (simp_all add: map_filter_simps split: option.split)

lemma apart_eq: "ids_apart E \<Longrightarrow> a \<in> E \<Longrightarrow> b \<in> E \<Longrightarrow> operation_id a = operation_id b \<Longrightarrow> a = b"
  by (simp add: ids_apart_def)

lemma key_id: "envelope_key a = envelope_key b \<Longrightarrow> operation_id a = operation_id b"
  by (simp add: envelope_key_def)

lemma sorted_by_dot:
  assumes "ids_apart (set ops)" "N \<subseteq> set ops" "distinct rows" "set rows = revision_of sel ` N"
  shows "sort_revisions rows = map (revision_of sel) (by_dot N ops)"
  unfolding sort_revisions_def
proof (rule sort_key_inj_key_eq)
  have inj: "inj_on (revision_of sel) N"
  proof (rule inj_onI)
    fix x y assume xy: "x \<in> N" "y \<in> N" "revision_of sel x = revision_of sel y"
    then have "operation_id x = operation_id y" by (metis revision_of_fields(2))
    then show "x = y" using apart_eq [OF assms(1)] xy assms(2) by blast
  qed
  have "distinct (map (revision_of sel) (by_dot N ops))"
    using inj by (auto simp: distinct_map by_dot_def sort_envelopes_def intro: inj_on_subset)
  moreover have "set (map (revision_of sel) (by_dot N ops)) = set rows"
    using assms(2,4) by (auto simp: by_dot_def sort_envelopes_def)
  ultimately show "mset rows = mset (map (revision_of sel) (by_dot N ops))"
    using assms(3) set_eq_iff_mset_eq_distinct by metis
  show "inj_on rv_key (set rows)"
    using assms(1,2,4) by (auto simp: inj_on_def ids_apart_def subset_iff dest!: key_id)
  show "sorted (map rv_key (map (revision_of sel) (by_dot N ops)))"
    by (simp add: o_def by_dot_def sort_envelopes_def)
qed

text \<open>The collected rows of a key: every write is there, and of the deletions those no later deletion replaces.\<close>

definition represents :: "'v crud_value revision list \<Rightarrow> (listening_operation \<Rightarrow> 'v crud_value option) \<Rightarrow> 'b l_envelope list \<Rightarrow> bool" where
  "represents rows sel ops \<longleftrightarrow>
     (\<forall>r \<in> set rows. \<exists>e \<in> set ops. touch sel e \<noteq> None \<and> r = revision_of sel e)
   \<and> (\<forall>e \<in> set ops. \<forall>v. touch sel e = Some (Present v) \<longrightarrow> revision_of sel e \<in> set rows)
   \<and> (\<forall>d \<in> set ops. touch sel d = Some Deleted \<longrightarrow> (\<exists>c \<in> set ops. touch sel c = Some Deleted
        \<and> revision_of sel c \<in> set rows \<and> (c = d \<or> later c d)))"

lemma is_deleted_iff: "is_deleted v \<longleftrightarrow> v = Deleted"
  by (cases v) auto

lemma after_deletes_iff: "after_deletes rows r \<longleftrightarrow> rv_value r \<noteq> Deleted
    \<and> (\<forall>d \<in> set rows. rv_value d = Deleted \<longrightarrow> newer_row r d)"
  by (auto simp: after_deletes_def delete_stamps_def is_deleted_iff list_all_iff newer_row_def)

lemma after_deletes_live:
  assumes "history (set ops)" "represents rows sel ops" "e \<in> set ops" "touch sel e = Some (Present v)"
  shows "after_deletes rows (revision_of sel e) \<longleftrightarrow> e \<in> live sel (set ops)"
proof
  assume l: "after_deletes rows (revision_of sel e)"
  have "later e d" if d: "d \<in> set ops" "touch sel d = Some Deleted" for d
  proof -
    obtain c where c: "c \<in> set ops" "touch sel c = Some Deleted" "revision_of sel c \<in> set rows" "c = d \<or> later c d"
      using assms(2) d unfolding represents_def by blast
    then have "later e c" using l by (force simp: after_deletes_iff)
    then show ?thesis using c d assms(3,4) strict_on_trans [OF history_strict [OF assms(1), of "{e, c, d}"], of e c d]
      by (auto dest: touch_listening)
  qed
  then show "e \<in> live sel (set ops)" using assms(3,4) by (simp add: live_def)
next
  assume "e \<in> live sel (set ops)"
  then have "later e d" if "d \<in> set ops" "touch sel d = Some Deleted" for d using that by (simp add: live_def)
  moreover have "\<exists>d' \<in> set ops. touch sel d' = Some Deleted \<and> d = revision_of sel d'"
    if "d \<in> set rows" "rv_value d = Deleted" for d
    using assms(2) that unfolding represents_def by fastforce
  ultimately show "after_deletes rows (revision_of sel e)"
    using assms(4) by (fastforce simp: after_deletes_iff)
qed

lemma live_rows:
  assumes "history (set ops)" "represents rows sel ops"
  shows "set (filter (after_deletes rows) rows) = revision_of sel ` live sel (set ops)"
proof (intro set_eqI iffI)
  fix r assume "r \<in> set (filter (after_deletes rows) rows)"
  then obtain e where e: "e \<in> set ops" "touch sel e \<noteq> None" "r = revision_of sel e" "after_deletes rows r"
    using assms(2) unfolding represents_def by auto
  then have "the (touch sel e) \<noteq> Deleted" by (auto simp: after_deletes_iff)
  then obtain v where "touch sel e = Some (Present v)" using e(2) by (metis crud_value.exhaust option.sel option.exhaust)
  then show "r \<in> revision_of sel ` live sel (set ops)" using after_deletes_live [OF assms e(1)] e by blast
next
  fix r assume "r \<in> revision_of sel ` live sel (set ops)"
  then obtain e v where e: "e \<in> live sel (set ops)" "r = revision_of sel e" "e \<in> set ops" "touch sel e = Some (Present v)"
    by (auto simp: live_def)
  then show "r \<in> set (filter (after_deletes rows) rows)"
    using after_deletes_live [OF assms e(3,4)] assms(2) unfolding represents_def by auto
qed

lemma live_strict: "history E \<Longrightarrow> strict_on (live sel E) later"
  by (rule history_strict) (auto simp: live_def dest: touch_listening)

lemma live_subset: "live sel E \<subseteq> E"
  by (auto simp: live_def)

lemma frontier_rows:
  assumes "history (set ops)" "L \<subseteq> set ops" "strict_on L later" "set rows = revision_of sel ` L"
  shows "sort_revisions (foldl insert_revision [] rows) = map (revision_of sel) (by_dot (newest later L) ops)"
proof (rule sorted_by_dot)
  show ids: "ids_apart (set ops)" using assms(1) by (simp add: history_def)
  show "newest later L \<subseteq> set ops" using newest_subset [of later L] assms(2) by blast
  show "distinct (foldl insert_revision [] rows)"
    unfolding insert_revision_frontier by (rule frontier_distinct) (simp add: same_row_def)
  have "set (foldl insert_revision [] rows) = newest newer_row (set rows)"
    unfolding insert_revision_frontier
  proof (rule frontier_fold [where S = "set rows"])
    show "strict_on (set rows) newer_row" unfolding assms(4) by (rule strict_image [OF assms(3)]) simp
    show "x = y" if "x \<in> set rows" "y \<in> set rows" "same_row x y" for x y
    proof -
      obtain a b where ab: "a \<in> L" "x = revision_of sel a" "b \<in> L" "y = revision_of sel b" using \<open>x \<in> set rows\<close> \<open>y \<in> set rows\<close> assms(4) by auto
      then have "a = b" using apart_eq [OF ids, of a b] assms(2) \<open>same_row x y\<close> by auto
      then show ?thesis using ab by simp
    qed
  qed simp
  then show "set (foldl insert_revision [] rows) = revision_of sel ` newest later L"
    by (simp add: assms(4) newest_image)
qed

lemma visible_values_view:
  assumes "history (set ops)" "represents rows sel ops"
  shows "visible_values rows = crud_view sel ops"
  unfolding visible_values_def crud_view_def
    frontier_rows [OF assms(1) live_subset live_strict [OF assms(1)] live_rows [OF assms]] map_filter_map
  by (rule map_filter_agree) (auto simp: value_of_def by_dot_def sort_envelopes_def newest_def live_def)

end
