(* ===== verification/ListeningSpec.thy ===== *)
theory ListeningSpec
  imports ListeningView
begin

text \<open>
  \<open>ListeningProjection::from_ledger\<close> computes the view of \<open>ListeningView\<close>: the rows its loop collects
  represent the operations, the visible rows of a key are the live ones, and the projection is determined
  by what it shows, so replicas with the same operations project alike.
\<close>

section \<open>The rows the loop leaves represent the operations\<close>

lemma touch_or_clear: "sel ClearPassport = None \<Longrightarrow>
    touch (or_clear sel) e = (if touch clear_change e \<noteq> None then Some Deleted else touch sel e)"
proof (cases "operation e")
  case (Listening c)
  assume "sel ClearPassport = None"
  then show ?thesis by (cases c) (simp_all add: touch_def Listening or_clear_def)
qed (simp_all add: touch_def)

lemma clear_not_touched: "sel ClearPassport = None \<Longrightarrow> touch clear_change e \<noteq> None \<Longrightarrow> touch sel e = None"
proof (cases "operation e")
  case (Listening c)
  assume "sel ClearPassport = None" "touch clear_change e \<noteq> None"
  then show ?thesis by (cases c) (simp_all add: touch_def Listening)
qed (simp_all add: touch_def)

lemma set_writes_of: "set (writes sel ops) = revision_of sel ` {e \<in> set ops. touch sel e \<noteq> None}"
  by (force simp: set_writes revision_of_def)

lemma rows_apart:
  assumes "ids_apart (set ops)" "set rows \<subseteq> revision_of sel ` set ops" "x \<in> set rows" "y \<in> set rows" "same_row x y"
  shows "x = y"
proof -
  obtain a b where ab: "a \<in> set ops" "x = revision_of sel a" "b \<in> set ops" "y = revision_of sel b"
    using assms(2-4) by blast
  then have "a = b" using apart_eq [OF assms(1)] assms(5) by simp
  then show ?thesis using ab by simp
qed

lemma touched_strict: "history (set ops) \<Longrightarrow> strict_on {e \<in> set ops. touch sel e \<noteq> None} later"
  by (rule history_strict) (auto dest: touch_listening)

lemma pushed_rows:
  assumes "history (set ops)"
  shows "represents (foldl push_revision [] (writes sel ops)) sel ops \<and> distinct (foldl push_revision [] (writes sel ops))"
proof -
  have "set (writes sel ops) \<subseteq> revision_of sel ` set ops" by (auto simp: set_writes_of)
  then have "set (foldl push_revision [] (writes sel ops)) = set (writes sel ops)
      \<and> distinct (foldl push_revision [] (writes sel ops))"
    using assms by (intro push_fold rows_apart [of ops]) (auto simp: history_def)
  then show ?thesis by (auto simp: represents_def set_writes_of)
qed

lemma foldl_push_clears: "foldl (\<lambda>rows c. push_revision rows (delete_revision c)) rows cs
    = foldl push_revision rows (map delete_revision cs)"
  by (induction cs arbitrary: rows) simp_all

lemma clears_newest:
  assumes "history (set ops)"
  shows "set (foldl insert_revision [] (writes clear_change ops))
    = revision_of clear_change ` newest later {e \<in> set ops. touch clear_change e \<noteq> None}"
proof -
  let ?L = "{e \<in> set ops. touch clear_change e \<noteq> None}"
  have "set (foldl insert_revision [] (writes clear_change ops)) = newest newer_row (set (writes clear_change ops))"
    unfolding insert_revision_frontier
  proof (rule frontier_fold [where S = "set (writes clear_change ops)"])
    show "strict_on (set (writes clear_change ops)) newer_row"
      unfolding set_writes_of by (rule strict_image [OF touched_strict [OF assms]]) simp
    show "x = y" if "x \<in> set (writes clear_change ops)" "y \<in> set (writes clear_change ops)" "same_row x y" for x y
      using that assms by (intro rows_apart [of ops "writes clear_change ops" clear_change])
        (auto simp: set_writes_of history_def)
  qed simp
  then show ?thesis by (simp add: set_writes_of newest_image)
qed

lemma delete_revision_of: "sel ClearPassport = None \<Longrightarrow> touch clear_change e \<noteq> None \<Longrightarrow>
    delete_revision (revision_of clear_change e) = revision_of (or_clear sel) e"
  by (simp add: delete_revision_def revision_of_def revision_from_def touch_or_clear)

lemma revision_or_clear: "sel ClearPassport = None \<Longrightarrow> touch sel e \<noteq> None \<Longrightarrow> revision_of (or_clear sel) e = revision_of sel e"
  using clear_not_touched [of sel e] by (auto simp: revision_of_def touch_or_clear)

lemma cleared_rows:
  assumes h: "history (set ops)" and sel: "sel ClearPassport = None"
  defines "rows \<equiv> foldl (\<lambda>rows c. push_revision rows (delete_revision c)) (foldl push_revision [] (writes sel ops))
      (foldl insert_revision [] (writes clear_change ops))"
  shows "represents rows (or_clear sel) ops \<and> distinct rows"
proof -
  let ?C = "{e \<in> set ops. touch clear_change e \<noteq> None}"
  let ?W = "writes sel ops @ map delete_revision (foldl insert_revision [] (writes clear_change ops))"
  have rows: "rows = foldl push_revision [] ?W" by (simp add: rows_def foldl_push_clears)
  have e1: "revision_of sel ` {e \<in> set ops. touch sel e \<noteq> None} = revision_of (or_clear sel) ` {e \<in> set ops. touch sel e \<noteq> None}"
    by (intro image_cong refl) (simp add: revision_or_clear [of sel, OF sel])
  have e2: "delete_revision ` revision_of clear_change ` newest later ?C = revision_of (or_clear sel) ` newest later ?C"
    unfolding image_image by (intro image_cong refl) (simp add: delete_revision_of [of sel, OF sel] newest_def)
  have W: "set ?W = revision_of (or_clear sel) ` ({e \<in> set ops. touch sel e \<noteq> None} \<union> newest later ?C)"
  proof -
    have "set ?W = set (writes sel ops) \<union> delete_revision ` set (foldl insert_revision [] (writes clear_change ops))"
      unfolding set_append set_map ..
    also have "set (writes sel ops) = revision_of (or_clear sel) ` {e \<in> set ops. touch sel e \<noteq> None}"
      by (rule trans [OF set_writes_of e1])
    also have "delete_revision ` set (foldl insert_revision [] (writes clear_change ops)) = revision_of (or_clear sel) ` newest later ?C"
      by (rule trans [OF arg_cong [where f = "\<lambda>S. delete_revision ` S", OF clears_newest [OF h]] e2])
    finally show ?thesis by (simp only: image_Un)
  qed
  have in_ops: "{e \<in> set ops. touch sel e \<noteq> None} \<union> newest later ?C \<subseteq> set ops" by (auto simp: newest_def)
  then have sub: "set ?W \<subseteq> revision_of (or_clear sel) ` set ops" unfolding W by (rule image_mono)
  have ids: "ids_apart (set ops)" using h by (simp add: history_def)
  have push: "set rows = set ?W \<and> distinct rows"
    unfolding rows by (rule push_fold) (rule rows_apart [OF ids sub])
  have "represents rows (or_clear sel) ops"
    unfolding represents_def
  proof (intro conjI ballI allI impI)
    fix r assume "r \<in> set rows"
    then obtain e where e: "e \<in> {e \<in> set ops. touch sel e \<noteq> None} \<union> newest later ?C" "r = revision_of (or_clear sel) e"
      using push unfolding W by blast
    then have "e \<in> set ops" "touch (or_clear sel) e \<noteq> None"
      using in_ops sel by (auto simp: touch_or_clear newest_def)
    then show "\<exists>e \<in> set ops. touch (or_clear sel) e \<noteq> None \<and> r = revision_of (or_clear sel) e" using e(2) by blast
  next
    fix e v assume "e \<in> set ops" "touch (or_clear sel) e = Some (Present v)"
    then show "revision_of (or_clear sel) e \<in> set rows"
      using push W sel by (auto simp: touch_or_clear split: if_splits)
  next
    fix d assume d: "d \<in> set ops" "touch (or_clear sel) d = Some Deleted"
    show "\<exists>c \<in> set ops. touch (or_clear sel) c = Some Deleted \<and> revision_of (or_clear sel) c \<in> set rows \<and> (c = d \<or> later c d)"
    proof (cases "touch clear_change d = None")
      case True
      then have "touch sel d \<noteq> None" using d sel by (simp add: touch_or_clear)
      then have "revision_of (or_clear sel) d \<in> set rows" using push W d(1) by auto
      then show ?thesis using d by blast
    next
      case False
      then have "d \<in> ?C" using d(1) by simp
      then have "\<exists>c \<in> newest later ?C. c = d \<or> later c d"
        by (rule newest_above [OF touched_strict [OF h], rotated]) simp
      then obtain c where c: "c \<in> newest later ?C" "c = d \<or> later c d" by blast
      then have "c \<in> set ops" "touch (or_clear sel) c = Some Deleted" using sel by (auto simp: newest_def touch_or_clear)
      moreover have "revision_of (or_clear sel) c \<in> set rows" using push W c(1) by auto
      ultimately show ?thesis using c(2) by blast
    qed
  qed
  then show ?thesis using push by simp
qed

section \<open>Visits and resume points\<close>

lemma after_deletes_sort: "after_deletes (sort_revisions rows) = after_deletes rows"
  by (rule ext) (simp add: after_deletes_iff sort_revisions_def)

lemma merge_visits_view:
  assumes "history (set ops)" "represents rows sel ops" "distinct rows"
  shows "merge_visits rows = visit_view sel ops"
proof -
  have "filter (after_deletes (sort_revisions rows)) (sort_revisions rows) = sort_revisions (filter (after_deletes rows) rows)"
    unfolding after_deletes_sort by (simp add: sort_revisions_def filter_sort)
  also have "\<dots> = map (revision_of sel) (by_dot (live sel (set ops)) ops)"
    using assms(1,3) live_rows [OF assms(1,2)]
    by (intro sorted_by_dot live_subset) (simp_all add: history_def)
  finally have "List.map_filter (\<lambda>r. present_value (rv_value r))
        (filter (after_deletes (sort_revisions rows)) (sort_revisions rows))
      = List.map_filter (value_of sel) (by_dot (live sel (set ops)) ops)"
    by (simp only: map_filter_map)
      (rule map_filter_agree, auto simp: value_of_def by_dot_def sort_envelopes_def live_def)
  then show ?thesis by (simp add: merge_visits_def visit_view_def Let_def)
qed

lemma map_filter_Some: "(\<And>x. x \<in> set xs \<Longrightarrow> f x = Some (g x)) \<Longrightarrow> List.map_filter f xs = map g xs"
  by (induction xs) (simp_all add: map_filter_simps)

lemma resume_candidates_view:
  assumes "history (set ops)"
  shows "resume_candidates (foldl insert_revision [] (writes sel ops)) = resume_view sel ops"
proof -
  let ?L = "{e \<in> set ops. touch sel e \<noteq> None}"
  have "sort_revisions (foldl insert_revision [] (writes sel ops)) = map (revision_of sel) (by_dot (newest later ?L) ops)"
    by (rule frontier_rows [OF assms _ touched_strict [OF assms] set_writes_of]) auto
  moreover have "List.map_filter (touch sel) (by_dot (newest later ?L) ops) = map (\<lambda>e. the (touch sel e)) (by_dot (newest later ?L) ops)"
    by (rule map_filter_Some) (auto simp: by_dot_def sort_envelopes_def newest_def)
  ultimately show ?thesis by (simp add: resume_candidates_def resume_view_def)
qed

section \<open>Lookups in the projection\<close>

definition non_nil :: "'a list \<Rightarrow> 'a list option" where
  "non_nil xs = (if xs = [] then None else Some xs)"

definition keyed :: "('k \<Rightarrow> 'r \<Rightarrow> 'v option) \<Rightarrow> ('k \<times> 'r) list \<Rightarrow> ('k \<times> 'v) list" where
  "keyed f m = List.map_filter (\<lambda>(k, rows). map_option (Pair k) (f k rows)) m"

lemma keyed_simps [simp]: "keyed f [] = []"
  "keyed f ((k, r) # m) = (case f k r of None \<Rightarrow> keyed f m | Some v \<Rightarrow> (k, v) # keyed f m)"
  by (simp_all add: keyed_def map_filter_simps split: option.split)

lemma keyed_in: "(k, v) \<in> set (keyed f m) \<Longrightarrow> k \<in> fst ` set m"
  by (induction m) (auto split: option.splits)

lemma keyed_keys: "fst ` set (keyed f m) \<subseteq> fst ` set m"
  using keyed_in by fastforce

lemma keyed_wf: "om_wf m \<Longrightarrow> om_wf (keyed f m)"
proof (induction m)
  case (Cons a m)
  obtain k r where a: "a = (k, r)" by force
  have "\<forall>k' \<in> fst ` set (keyed f m). k < k'" using Cons.prems keyed_keys [of f m] unfolding a om_wf_Cons by blast
  then show ?case using Cons by (auto simp: a om_wf_Cons split: option.split)
qed simp

lemma om_get_keyed: "om_wf m \<Longrightarrow> om_get (keyed f m) k = (case om_get m k of None \<Rightarrow> None | Some r \<Rightarrow> f k r)"
proof (induction m)
  case (Cons a m)
  obtain k' r where a: "a = (k', r)" by force
  have "om_get (keyed f m) k' = None"
    using Cons.prems keyed_keys [of f m] unfolding a om_wf_Cons by (intro om_get_notin) force
  then show ?case using Cons by (auto simp: a om_get_Cons om_wf_Cons split: option.split)
qed simp

lemma om_get_keyed_rows: "om_wf m \<Longrightarrow> f k [] = None \<Longrightarrow> om_get (keyed f m) k = f k (rows_at m k)"
  by (simp add: om_get_keyed rows_at_def split: option.split)

lemma visible_maps_keyed: "visible_maps maps = keyed (\<lambda>_ rows. non_nil (visible_values rows)) maps"
  by (induction maps) (auto simp: visible_maps_def non_nil_def)

lemma keyed_map: "keyed f (map (\<lambda>(k, rows). (k, g rows)) m) = keyed (\<lambda>k rows. f k (g rows)) m"
  by (induction m) (auto split: option.split)

text \<open>A key that only clears touch shows nothing.\<close>

lemma cleared_only: "r \<in> set (foldl (\<lambda>rows c. push_revision rows (delete_revision c)) [] cs) \<Longrightarrow> rv_value r = Deleted"
proof (induction cs rule: rev_induct)
  case (snoc c cs)
  then show ?case by (auto simp: push_revision_def delete_revision_def split: if_splits)
qed simp

lemma no_visible: "(\<And>r. r \<in> set rows \<Longrightarrow> rv_value r = Deleted) \<Longrightarrow> filter (after_deletes rows) rows = []"
  by (simp add: filter_empty_conv after_deletes_iff)

lemma visible_values_cleared: "visible_values (foldl (\<lambda>rows c. push_revision rows (delete_revision c)) [] cs) = []"
  by (simp add: visible_values_def no_visible [OF cleared_only] sort_revisions_def map_filter_simps)

lemma merge_visits_cleared: "merge_visits (foldl (\<lambda>rows c. push_revision rows (delete_revision c)) [] cs) = None"
proof -
  let ?rows = "foldl (\<lambda>rows c. push_revision rows (delete_revision c)) [] cs :: passport_visit crud_value revision list"
  have "filter (after_deletes (sort_revisions ?rows)) (sort_revisions ?rows) = []"
    by (rule no_visible) (auto simp: sort_revisions_def dest: cleared_only)
  then show ?thesis by (simp add: merge_visits_def Let_def map_filter_simps)
qed

text \<open>What the projection of a history looks like.\<close>

definition shows_view :: "listening_projection \<Rightarrow> 'b l_envelope list \<Rightarrow> bool" where
  "shows_view p ops \<longleftrightarrow>
     (om_wf (lp_bookmarks p) \<and> om_wf (lp_resumes p) \<and> om_wf (lp_visits p) \<and> om_wf (lp_notes p) \<and> om_wf (lp_presets p))
   \<and> (\<forall>k. om_get (lp_bookmarks p) k = non_nil (crud_view (bookmark_change k) ops))
   \<and> (\<forall>k. om_get (lp_resumes p) k
        = map_option (\<lambda>cs. \<lparr>rs_track_key = k, rs_candidates = cs\<rparr>) (non_nil (resume_view (resume_change k) ops)))
   \<and> (\<forall>k. om_get (lp_visits p) k = visit_view (or_clear (visit_change k)) ops)
   \<and> (\<forall>k. om_get (lp_notes p) k = non_nil (crud_view (or_clear (note_change k)) ops))
   \<and> (\<forall>k. om_get (lp_presets p) k = non_nil (crud_view (preset_change k) ops))"

lemma rows_empty_at: "rows_at (lr_bookmarks rows_empty) k = []" "rows_at (lr_resumes rows_empty) q = []"
  "rows_at (lr_visits rows_empty) k = []" "rows_at (lr_notes rows_empty) k = []"
  "rows_at (lr_presets rows_empty) k = []" "lr_clears rows_empty = []"
  by (simp_all add: rows_empty_def rows_at_def)

lemma rows_empty_wf: "rows_wf rows_empty"
  by (simp add: rows_empty_def rows_wf_def)

lemma projected_resumes: "List.map_filter (\<lambda>(key, rows). if resume_candidates rows \<noteq> []
        then Some (key, \<lparr>rs_track_key = key, rs_candidates = resume_candidates rows\<rparr>) else None) m
    = keyed (\<lambda>k rows. map_option (\<lambda>cs. \<lparr>rs_track_key = k, rs_candidates = cs\<rparr>) (non_nil (resume_candidates rows))) m"
  unfolding keyed_def by (rule map_filter_agree) (auto simp: non_nil_def Let_def)

lemma projected_visits: "List.map_filter (\<lambda>(key, rows). map_option (Pair key) (merge_visits rows)) m = keyed (\<lambda>_. merge_visits) m"
  by (simp add: keyed_def)

lemma resume_candidates_Nil: "resume_candidates [] = []"
  by (simp add: resume_candidates_def sort_revisions_def)

lemma visible_values_Nil: "visible_values [] = []"
  by (simp add: visible_values_def sort_revisions_def map_filter_simps)

lemma non_nil_Nil [simp]: "non_nil [] = None"
  by (simp add: non_nil_def)

lemma pushed_view: "history (set ops) \<Longrightarrow> visible_values (foldl push_revision [] (writes sel ops)) = crud_view sel ops"
  by (rule visible_values_view) (simp_all add: pushed_rows)

lemma cleared_view: "history (set ops) \<Longrightarrow> sel ClearPassport = None \<Longrightarrow>
    visible_values (foldl (\<lambda>rows c. push_revision rows (delete_revision c)) (foldl push_revision [] (writes sel ops))
      (foldl insert_revision [] (writes clear_change ops))) = crud_view (or_clear sel) ops"
  by (rule visible_values_view) (simp_all add: cleared_rows)

lemma cleared_visits: "history (set ops) \<Longrightarrow> sel ClearPassport = None \<Longrightarrow>
    merge_visits (foldl (\<lambda>rows c. push_revision rows (delete_revision c)) (foldl push_revision [] (writes sel ops))
      (foldl insert_revision [] (writes clear_change ops))) = visit_view (or_clear sel) ops"
  by (rule merge_visits_view) (simp_all add: cleared_rows)

lemma projection_shows:
  assumes m: "collect_rows pr ops rows_empty = Inr m" and h: "history (set ops)"
  shows "shows_view (project_rows m) ops"
proof -
  have wf: "rows_wf m" by (rule collect_rows_wf [OF m rows_empty_wf])
  have clears: "lr_clears m = foldl insert_revision [] (writes clear_change ops)"
    using collect_rows_fold [OF folds_clears m] by (simp add: rows_empty_at)
  have bookmarks: "visible_values (rows_at (lr_bookmarks m) k) = crud_view (bookmark_change k) ops" for k
    using collect_rows_fold [OF folds_bookmarks [of k] m] pushed_view [OF h] by (simp add: rows_empty_at)
  have presets: "visible_values (rows_at (lr_presets m) k) = crud_view (preset_change k) ops" for k
    using collect_rows_fold [OF folds_presets [of k] m] pushed_view [OF h] by (simp add: rows_empty_at)
  have resumes: "resume_candidates (rows_at (lr_resumes m) k) = resume_view (resume_change k) ops" for k
    using collect_rows_fold [OF folds_resumes [of k] m] resume_candidates_view [OF h]
    by (simp add: rows_empty_at)
  have noted: "visible_values (foldl (\<lambda>rows c. push_revision rows (delete_revision c)) (rows_at (lr_notes m) k) (lr_clears m))
      = crud_view (or_clear (note_change k)) ops" for k
    using collect_rows_fold [OF folds_notes [of k] m] cleared_view [OF h, of "note_change k"] by (simp add: rows_empty_at clears)
  have visits: "merge_visits (foldl (\<lambda>rows c. push_revision rows (delete_revision c)) (rows_at (lr_visits m) k) (lr_clears m))
      = visit_view (or_clear (visit_change k)) ops" for k
    using collect_rows_fold [OF folds_visits [of k] m] cleared_visits [OF h, of "visit_change k"] by (simp add: rows_empty_at clears)
  show ?thesis
    using wf unfolding shows_view_def project_rows_def Let_def apply_global_deletes_def apply_global_visit_deletes_def
      insert_crud_def visible_maps_keyed keyed_map projected_resumes projected_visits rows_wf_def
    by (simp add: keyed_wf om_get_keyed_rows bookmarks presets resumes noted visits resume_candidates_Nil
        visible_values_Nil visible_values_cleared merge_visits_cleared)
qed

lemma shows_view_unique:
  assumes "shows_view p ops" "shows_view q ops"
  shows "p = q"
proof -
  have "lp_bookmarks p = lp_bookmarks q" "lp_resumes p = lp_resumes q" "lp_visits p = lp_visits q"
    "lp_notes p = lp_notes q" "lp_presets p = lp_presets q"
    using assms unfolding shows_view_def by (auto intro!: om_ext)
  then show ?thesis by simp
qed

section \<open>The view depends on the operations as a set\<close>

lemma by_dot_cong:
  assumes "ids_apart (set ops)" "N \<subseteq> set ops" "N \<subseteq> set ops'" 
  shows "by_dot N ops' = by_dot N ops"
  unfolding by_dot_def sort_envelopes_def
proof (rule sort_key_inj_key_eq)
  show "mset (filter (\<lambda>e. e \<in> N) (remdups ops')) = mset (sort_key envelope_key (filter (\<lambda>e. e \<in> N) (remdups ops)))"
    unfolding mset_sort
    by (rule iffD1 [OF set_eq_iff_mset_eq_distinct]) (use assms(2,3) in auto)
  show "inj_on envelope_key (set (filter (\<lambda>e. e \<in> N) (remdups ops')))"
    using assms(2) apart_eq [OF assms(1)] by (auto intro!: inj_onI dest!: key_id)
qed simp

section \<open>A validated ledger projects\<close>

lemma collect_rows_total:
  assumes "\<And>e c. e \<in> set ops \<Longrightarrow> operation e = Listening c \<Longrightarrow> validate_listening pr c = Inr ()
      \<and> (\<forall>d. provenance_device c = Some d \<longrightarrow> dot_device (dot_of e) = d)"
  shows "\<exists>m'. collect_rows pr ops m = Inr m'"
  using assms
proof (induction ops arbitrary: m)
  case (Cons e es)
  show ?case
  proof (cases "\<exists>c. operation e = Listening c")
    case True
    then obtain c where c: "operation e = Listening c" by blast
    have ok: "validate_listening pr c = Inr ()" "\<forall>d. provenance_device c = Some d \<longrightarrow> dot_device (dot_of e) = d"
      using Cons.prems c by auto
    have "\<exists>m1. collect_change e c m = Inr m1"
      using ok(2) by (cases c) (simp_all add: validate_resume_device_def ensure_def)
    then obtain m1 where "collect_change e c m = Inr m1" by blast
    moreover have "\<exists>m'. collect_rows pr es m1 = Inr m'" by (rule Cons.IH, rule Cons.prems) simp_all
    ultimately show ?thesis using c ok(1) by simp
  next
    case False
    then have "collect_rows pr (e # es) m = collect_rows pr es m" by (simp split: operation.split)
    moreover have "\<exists>m'. collect_rows pr es m = Inr m'" by (rule Cons.IH, rule Cons.prems) simp_all
    ultimately show ?thesis by simp
  qed
qed simp

lemma valid_collects:
  assumes "validate_state (listening_rules pr rules) st = Inr ()"
  shows "\<exists>m. collect_rows pr (ps_operations st) rows_empty = Inr m"
proof (rule collect_rows_total)
  fix e c assume e: "e \<in> set (ps_operations st)" "operation e = Listening c"
  then have "operation_ok (listening_rules pr rules) (schema_version st) (ps_version_vector st) e"
    using assms by (simp add: validate_state_ok)
  then have v: "validate_operation (listening_rules pr rules) (operation e) = Inr ()"
      "validate_listening_author (listening_rules pr rules) e = Inr ()"
    by (simp_all add: operation_ok_def checks_ok Let_def)
  then show "validate_listening pr c = Inr () \<and> (\<forall>d. provenance_device c = Some d \<longrightarrow> dot_device (dot_of e) = d)"
    using e(2) by (auto simp: listening_rules_def validate_listening_author_def split: option.splits)
qed

end
