(* ===== verification/ListeningCompaction.thy ===== *)
theory ListeningCompaction
  imports ListeningSpec
begin

text \<open>
  Which listening operations a compaction keeps (\<open>retained_listening_operation_ids\<close> and
  \<open>retain_passport_visit_aggregates\<close> of \<open>src/personal_state/compaction.rs\<close>): every deletion, the newest
  operations of every register, and of the visits to a station those that carry the first and the last
  time, the name and the country.  Dropping the others changes nothing the projection shows.
\<close>

datatype listening_register_key =
    KeyBookmark ustring | KeyResume portable_track_key | KeyVisit ustring | KeyNote ustring | KeyClear | KeyPreset ustring

text \<open>The derived \<open>Ord\<close>.\<close>

fun register_rank :: "listening_register_key \<Rightarrow> nat \<times> ustring \<times> portable_track_key" where
  "register_rank (KeyBookmark i) = (0, i, Catalog [] [])"
| "register_rank (KeyResume k) = (1, [], k)"
| "register_rank (KeyVisit u) = (2, u, Catalog [] [])"
| "register_rank (KeyNote u) = (3, u, Catalog [] [])"
| "register_rank KeyClear = (4, [], Catalog [] [])"
| "register_rank (KeyPreset i) = (5, i, Catalog [] [])"

lemma register_rank_inj: "register_rank k = register_rank l \<Longrightarrow> k = l"
  by (cases k; cases l) auto

instantiation listening_register_key :: linorder
begin

definition less_eq_listening_register_key :: "listening_register_key \<Rightarrow> listening_register_key \<Rightarrow> bool" where
  "less_eq_listening_register_key k l \<longleftrightarrow> register_rank k \<le> register_rank l"

definition less_listening_register_key :: "listening_register_key \<Rightarrow> listening_register_key \<Rightarrow> bool" where
  "less_listening_register_key k l \<longleftrightarrow> register_rank k < register_rank l"

instance
  by standard (auto simp: less_eq_listening_register_key_def less_listening_register_key_def intro: register_rank_inj)

end

fun is_listening_tombstone :: "listening_operation \<Rightarrow> bool" where
  "is_listening_tombstone (DeleteBookmark _) = True"
| "is_listening_tombstone (ClearResume _) = True"
| "is_listening_tombstone (DeletePassportVisit _) = True"
| "is_listening_tombstone (DeletePassportNote _) = True"
| "is_listening_tombstone ClearPassport = True"
| "is_listening_tombstone (DeleteDjPreset _) = True"
| "is_listening_tombstone _ = False"

fun register_key :: "listening_operation \<Rightarrow> listening_register_key" where
  "register_key (UpsertBookmark b) = KeyBookmark (bm_id b)"
| "register_key (DeleteBookmark i) = KeyBookmark i"
| "register_key (SetResume p) = KeyResume (pt_key (pnt_track p))"
| "register_key (ClearResume c) = KeyResume (pt_key (clr_track c))"
| "register_key (RecordPassportVisit v) = KeyVisit (vis_station v)"
| "register_key (DeletePassportVisit u) = KeyVisit u"
| "register_key (SetPassportNote n) = KeyNote (note_station n)"
| "register_key (DeletePassportNote u) = KeyNote u"
| "register_key ClearPassport = KeyClear"
| "register_key (UpsertDjPreset p) = KeyPreset (preset_id p)"
| "register_key (DeleteDjPreset i) = KeyPreset i"

fun cleared_by_passport :: "listening_register_key \<Rightarrow> bool" where
  "cleared_by_passport (KeyVisit _) = True"
| "cleared_by_passport (KeyNote _) = True"
| "cleared_by_passport _ = False"

text \<open>The first loop: the ids of the tombstones, the passport clears and the groups.\<close>

record 'b listening_groups =
  lg_retained :: "ustring list"
  lg_clears :: "'b l_envelope list"
  lg_groups :: "(listening_register_key \<times> 'b l_envelope list) list"

definition group_operation :: "'b listening_groups \<Rightarrow> 'b l_envelope \<Rightarrow> 'b listening_groups" where
  "group_operation g e = (case operation e of
      Listening change \<Rightarrow> \<lparr>
        lg_retained = (if is_listening_tombstone change then lg_retained g @ [operation_id e] else lg_retained g),
        lg_clears = (if change = ClearPassport then lg_clears g @ [e] else lg_clears g),
        lg_groups = at_entry (register_key change) (\<lambda>es. es @ [e]) (lg_groups g)\<rparr>
    | _ \<Rightarrow> g)"

definition keep_frontier :: "'b l_envelope list \<Rightarrow> 'b l_envelope \<Rightarrow> 'b l_envelope list" where
  "keep_frontier frontier e =
     (if list_ex (\<lambda>current. happens_after (op_stamp current) (op_stamp e)) frontier then frontier
      else filter (\<lambda>current. \<not> happens_after (op_stamp e) (op_stamp current)) frontier @ [e])"

text \<open>\<open>min_by_key\<close> gives the first of the least elements, \<open>max_by_key\<close> the last of the greatest.\<close>

definition min_by_key :: "('a \<Rightarrow> 'k :: linorder) \<Rightarrow> 'a list \<Rightarrow> 'a option" where
  "min_by_key f xs = (case xs of [] \<Rightarrow> None | x # rest \<Rightarrow> Some (foldl (\<lambda>m y. if f y < f m then y else m) x rest))"

definition max_by_key :: "('a \<Rightarrow> 'k :: linorder) \<Rightarrow> 'a list \<Rightarrow> 'a option" where
  "max_by_key f xs = (case xs of [] \<Rightarrow> None | x # rest \<Rightarrow> Some (foldl (\<lambda>m y. if f y \<ge> f m then y else m) x rest))"

record 'b visit_tables =
  vt_global :: "causal_stamp list"
  vt_station :: "(ustring \<times> causal_stamp list) list"
  vt_visits :: "(ustring \<times> ('b l_envelope \<times> passport_visit) list) list"

definition tabulate_visit :: "'b visit_tables \<Rightarrow> 'b l_envelope \<Rightarrow> 'b visit_tables" where
  "tabulate_visit t e = (case operation e of
      Listening ClearPassport \<Rightarrow> t\<lparr>vt_global := vt_global t @ [op_stamp e]\<rparr>
    | Listening (DeletePassportVisit u) \<Rightarrow>
        t\<lparr>vt_station := at_entry u (\<lambda>stamps. stamps @ [op_stamp e]) (vt_station t)\<rparr>
    | Listening (RecordPassportVisit v) \<Rightarrow>
        t\<lparr>vt_visits := at_entry (vis_station v) (\<lambda>visits. visits @ [(e, v)]) (vt_visits t)\<rparr>
    | _ \<Rightarrow> t)"

definition station_aggregates ::
    "causal_stamp list \<Rightarrow> causal_stamp list \<Rightarrow> ('b l_envelope \<times> passport_visit) list \<Rightarrow> ustring list" where
  "station_aggregates global_deletes station_specific station_visits =
     (let kept = filter (\<lambda>(e, _). list_all (happens_after (op_stamp e)) (global_deletes @ station_specific)) station_visits
      in if kept = [] then []
         else let sorted_visits = sort_key (\<lambda>(e, _). envelope_key e) kept;
                  earliest = min_by_key (\<lambda>(_, v). vis_first v) sorted_visits;
                  latest = max_by_key (\<lambda>(_, v). vis_last v) sorted_visits;
                  name = Some (last sorted_visits);
                  country = find (\<lambda>(_, v). vis_country v \<noteq> None) (rev sorted_visits)
              in map (\<lambda>(e, _). operation_id e) (List.map_filter id [earliest, latest, name, country]))"

definition passport_visit_aggregates :: "'b l_envelope list \<Rightarrow> ustring list" where
  "passport_visit_aggregates ops =
     (let t = foldl tabulate_visit \<lparr>vt_global = [], vt_station = [], vt_visits = []\<rparr> ops
      in concat (map (\<lambda>(station, visits). station_aggregates (vt_global t)
           (case om_get (vt_station t) station of None \<Rightarrow> [] | Some stamps \<Rightarrow> stamps) visits) (vt_visits t)))"

text \<open>Inserting into a \<open>BTreeSet\<close>.\<close>

definition id_set_of :: "ustring list \<Rightarrow> id_set" where
  "id_set_of ids = sort (remdups ids)"

definition retained_listening_operation_ids :: "'b l_envelope list \<Rightarrow> id_set" where
  "retained_listening_operation_ids ops =
     (let g = foldl group_operation \<lparr>lg_retained = [], lg_clears = [], lg_groups = []\<rparr> ops;
          groups = map (\<lambda>(key, es). (key, if cleared_by_passport key then es @ lg_clears g else es)) (lg_groups g);
          frontiers = concat (map (\<lambda>(_, es). map operation_id (foldl keep_frontier [] es)) groups)
      in id_set_of (lg_retained g @ frontiers @ passport_visit_aggregates ops))"

text \<open>The operations of the candidate, as far as listening is concerned.\<close>

definition keeps_listening :: "'b l_envelope list \<Rightarrow> 'b l_envelope \<Rightarrow> bool" where
  "keeps_listening ops e \<longleftrightarrow> \<not> is_listening (operation e) \<or> operation_id e \<in> set (retained_listening_operation_ids ops)"

section \<open>What is retained\<close>

definition group :: "listening_register_key \<Rightarrow> 'b l_envelope set \<Rightarrow> 'b l_envelope set" where
  "group key E = {e \<in> E. \<exists>c. operation e = Listening c \<and> (register_key c = key \<or> (cleared_by_passport key \<and> c = ClearPassport))}"

lemma groups_invariant:
  fixes ops :: "'b l_envelope list"
  defines "g \<equiv> foldl group_operation \<lparr>lg_retained = [], lg_clears = [], lg_groups = []\<rparr> ops"
  shows "set (lg_retained g) = operation_id ` {e \<in> set ops. \<exists>c. operation e = Listening c \<and> is_listening_tombstone c}
    \<and> set (lg_clears g) = {e \<in> set ops. operation e = Listening ClearPassport}
    \<and> om_wf (lg_groups g)
    \<and> (\<forall>key. set (rows_at (lg_groups g) key) = {e \<in> set ops. \<exists>c. operation e = Listening c \<and> register_key c = key})"
  unfolding g_def
proof (induction ops rule: rev_induct)
  case Nil
  then show ?case by (simp add: rows_at_def)
next
  case (snoc e ops)
  show ?case
  proof (cases "\<exists>c. operation e = Listening c")
    case True
    then obtain c where c: "operation e = Listening c" by blast
    then show ?thesis using snoc.IH by (auto simp: group_operation_def rows_at_entry at_entry_wf)
  next
    case False
    then have "group_operation g e = g" for g by (simp add: group_operation_def split: operation.split)
    then show ?thesis using snoc.IH False by auto
  qed
qed

lemma rows_at_nonempty: "om_wf m \<Longrightarrow> x \<in> set (rows_at m k) \<Longrightarrow> (k, rows_at m k) \<in> set m"
  by (auto simp: rows_at_def om_get_iff split: option.splits)

lemma set_id_set [simp]: "set (id_set_of ids) = set ids"
  by (simp add: id_set_of_def)

lemma keep_frontier_step: "keep_frontier = frontier_step later (\<lambda>_ _. False)"
  by (intro ext) (simp add: keep_frontier_def frontier_step_def later_def list_ex_iff)

lemma tombstone_retained:
  assumes "e \<in> set ops" "operation e = Listening c" "is_listening_tombstone c"
  shows "operation_id e \<in> set (retained_listening_operation_ids ops)"
proof -
  have "operation_id e \<in> set (lg_retained (foldl group_operation \<lparr>lg_retained = [], lg_clears = [], lg_groups = []\<rparr> ops))"
    using groups_invariant [of ops] assms by blast
  then show ?thesis by (simp add: retained_listening_operation_ids_def Let_def)
qed

lemma frontier_retained:
  assumes h: "history (set ops)" and key: "key \<noteq> KeyClear" and e: "e \<in> newest later (group key (set ops))"
  shows "operation_id e \<in> set (retained_listening_operation_ids ops)"
proof (cases "operation e = Listening ClearPassport")
  case True
  then show ?thesis using e by (auto simp: newest_def group_def intro: tombstone_retained)
next
  case False
  let ?g = "foldl group_operation \<lparr>lg_retained = [], lg_clears = [], lg_groups = []\<rparr> ops"
  let ?es = "rows_at (lg_groups ?g) key"
  let ?full = "if cleared_by_passport key then ?es @ lg_clears ?g else ?es"
  have full: "set ?full = group key (set ops)" using groups_invariant [of ops] by (auto simp: group_def)
  have "e \<in> set ?es" using e False groups_invariant [of ops] by (auto simp: newest_def group_def)
  then have entry: "(key, ?es) \<in> set (lg_groups ?g)" using groups_invariant [of ops] by (intro rows_at_nonempty) auto
  have "strict_on (group key (set ops)) later" by (rule history_strict [OF h]) (auto simp: group_def)
  then have "set (foldl keep_frontier [] ?full) = newest later (group key (set ops))"
    unfolding keep_frontier_step using frontier_fold [of "group key (set ops)" later "\<lambda>_ _. False" ?full] full by simp
  then have "operation_id e \<in> set (map operation_id (foldl keep_frontier [] ?full))" using e by simp
  then show ?thesis using entry unfolding retained_listening_operation_ids_def Let_def by force
qed

section \<open>The visits that are kept\<close>

lemma min_by_key_spec: "xs \<noteq> [] \<Longrightarrow> \<exists>m \<in> set xs. min_by_key f xs = Some m \<and> (\<forall>y \<in> set xs. f m \<le> f y)"
proof -
  have "\<exists>m \<in> insert x (set rest). foldl (\<lambda>m y. if f y < f m then y else m) x rest = m \<and> (\<forall>y \<in> insert x (set rest). f m \<le> f y)" for x rest
  proof (induction rest arbitrary: x)
    case (Cons y rest)
    then show ?case
    proof (cases "f y < f x")
      case True
      then show ?thesis using Cons.IH [of y] by (auto simp: order_trans [OF _ less_imp_le])
    next
      case False
      then have "f x \<le> f y" by simp
      then show ?thesis using Cons.IH [of x] False by (auto intro: order_trans)
    qed
  qed simp
  then show "xs \<noteq> [] \<Longrightarrow> ?thesis" by (cases xs) (auto simp: min_by_key_def)
qed

lemma max_by_key_spec: "xs \<noteq> [] \<Longrightarrow> \<exists>m \<in> set xs. max_by_key f xs = Some m \<and> (\<forall>y \<in> set xs. f y \<le> f m)"
proof -
  have "\<exists>m \<in> insert x (set rest). foldl (\<lambda>m y. if f y \<ge> f m then y else m) x rest = m \<and> (\<forall>y \<in> insert x (set rest). f y \<le> f m)" for x rest
  proof (induction rest arbitrary: x)
    case (Cons y rest)
    then show ?case
    proof (cases "f y \<ge> f x")
      case True
      then show ?thesis using Cons.IH [of y] by (auto intro: order_trans)
    next
      case False
      then have "f y \<le> f x" by simp
      then show ?thesis using Cons.IH [of x] False by (auto intro: order_trans)
    qed
  qed simp
  then show "xs \<noteq> [] \<Longrightarrow> ?thesis" by (cases xs) (auto simp: max_by_key_def)
qed

lemma find_rev: "find P (rev xs) = (if filter P xs = [] then None else Some (last (filter P xs)))"
  by (induction xs rule: rev_induct) auto

text \<open>The tables of the second pass.\<close>

lemma tables_invariant:
  fixes ops :: "'b l_envelope list"
  defines "t \<equiv> foldl tabulate_visit \<lparr>vt_global = [], vt_station = [], vt_visits = []\<rparr> ops"
  shows "set (vt_global t) = op_stamp ` {e \<in> set ops. operation e = Listening ClearPassport}
    \<and> (\<forall>k. set (rows_at (vt_station t) k) = op_stamp ` {e \<in> set ops. operation e = Listening (DeletePassportVisit k)})
    \<and> om_wf (vt_visits t)
    \<and> (\<forall>k. set (rows_at (vt_visits t) k) = {(e, v). e \<in> set ops \<and> operation e = Listening (RecordPassportVisit v) \<and> vis_station v = k})"
  unfolding t_def
proof (induction ops rule: rev_induct)
  case Nil
  then show ?case by (simp add: rows_at_def)
next
  case (snoc e ops)
  show ?case
  proof (cases "\<exists>c. operation e = Listening c")
    case True
    then obtain c where "operation e = Listening c" by blast
    then show ?thesis using snoc.IH
      by (cases c) (auto simp: tabulate_visit_def rows_at_entry at_entry_wf)
  next
    case False
    then have "tabulate_visit t e = t" for t by (simp add: tabulate_visit_def split: operation.split)
    then show ?thesis using snoc.IH False by auto
  qed
qed

lemma visit_touch: "touch (or_clear (visit_change k)) e = Some (Present v)
    \<longleftrightarrow> operation e = Listening (RecordPassportVisit v) \<and> vis_station v = k"
proof (cases "operation e")
  case (Listening c)
  then show ?thesis by (cases c) (auto simp: touch_def or_clear_def)
qed (simp_all add: touch_def)

lemma visit_deleted: "touch (or_clear (visit_change k)) e = Some Deleted
    \<longleftrightarrow> operation e = Listening ClearPassport \<or> operation e = Listening (DeletePassportVisit k)"
proof (cases "operation e")
  case (Listening c)
  then show ?thesis by (cases c) (auto simp: touch_def or_clear_def)
qed (simp_all add: touch_def)

definition visit_of :: "ustring \<Rightarrow> 'b l_envelope \<Rightarrow> passport_visit" where
  "visit_of k e = the (value_of (or_clear (visit_change k)) e)"

lemma visit_of_Present: "touch (or_clear (visit_change k)) e = Some (Present v) \<Longrightarrow> visit_of k e = v"
  by (simp add: visit_of_def value_of_def)

text \<open>The live visits the aggregates are taken from.\<close>

lemma kept_visits:
  fixes ops :: "'b l_envelope list" and k :: ustring
  defines "t \<equiv> foldl tabulate_visit \<lparr>vt_global = [], vt_station = [], vt_visits = []\<rparr> ops"
  defines "kept \<equiv> filter (\<lambda>(e, _). list_all (happens_after (op_stamp e)) (vt_global t @ rows_at (vt_station t) k)) (rows_at (vt_visits t) k)"
  shows "set kept = (\<lambda>e. (e, visit_of k e)) ` live (or_clear (visit_change k)) (set ops)"
proof (intro set_eqI iffI)
  fix x assume "x \<in> set kept"
  moreover obtain e v where x: "x = (e, v)" by (cases x)
  ultimately have kept: "(e, v) \<in> set kept" by simp
  then have "e \<in> set ops" and touched: "touch (or_clear (visit_change k)) e = Some (Present v)"
    and "\<forall>s \<in> set (vt_global t @ rows_at (vt_station t) k). happens_after (op_stamp e) s"
    using tables_invariant [of ops] by (auto simp: kept_def t_def visit_touch list_all_iff)
  then have "e \<in> live (or_clear (visit_change k)) (set ops)"
    using tables_invariant [of ops] by (auto simp: live_def visit_deleted later_def t_def)
  then show "x \<in> (\<lambda>e. (e, visit_of k e)) ` live (or_clear (visit_change k)) (set ops)"
    using visit_of_Present [OF touched] x by blast
next
  fix x assume "x \<in> (\<lambda>e. (e, visit_of k e)) ` live (or_clear (visit_change k)) (set ops)"
  then obtain e where e: "x = (e, visit_of k e)" "e \<in> live (or_clear (visit_change k)) (set ops)" by blast
  then obtain v where v: "e \<in> set ops" "touch (or_clear (visit_change k)) e = Some (Present v)"
    by (auto simp: live_def)
  moreover have "list_all (happens_after (op_stamp e)) (vt_global t @ rows_at (vt_station t) k)"
    using e(2) tables_invariant [of ops] by (auto simp: list_all_iff live_def visit_deleted later_def t_def)
  moreover have "(e, v) \<in> set (rows_at (vt_visits t) k)"
    using v tables_invariant [of ops] by (simp add: t_def visit_touch)
  ultimately show "x \<in> set kept" using e(1) visit_of_Present [OF v(2)] by (simp add: kept_def)
qed

text \<open>Two lists sorted by a key that tells their elements apart end with the same element.\<close>

lemma last_sorted:
  assumes "sorted (map f xs)" "sorted (map f ys)" "set xs = set ys" "inj_on f (set ys)" "ys \<noteq> []"
  shows "last xs = last ys"
proof -
  have "xs \<noteq> []" using assms(3,5) by auto
  have top: "f z \<le> f (last zs)" if "sorted (map f zs)" "z \<in> set zs" for z zs
    using that by (induction zs rule: rev_induct) (auto simp: sorted_append)
  have "f (last xs) = f (last ys)"
    using top [OF assms(1), of "last ys"] top [OF assms(2), of "last xs"] assms(3,5) \<open>xs \<noteq> []\<close>
      last_in_set [of xs] last_in_set [of ys] by (simp add: order_antisym)
  then show ?thesis using assms(3,4,5) \<open>xs \<noteq> []\<close> last_in_set [of xs] last_in_set [of ys] by (auto simp: inj_on_def)
qed

lemma set_by_dot: "N \<subseteq> set ops \<Longrightarrow> set (by_dot N ops) = N"
  by (auto simp: by_dot_def sort_envelopes_def)

lemma sorted_by_dot_key: "sorted (map envelope_key (by_dot N ops))"
  by (simp add: by_dot_def sort_envelopes_def)

lemma inj_key: "ids_apart E \<Longrightarrow> N \<subseteq> E \<Longrightarrow> inj_on envelope_key N"
  by (intro inj_onI) (metis apart_eq key_id subsetD)

lemma sorted_map_filter_key: "sorted (map f xs) \<Longrightarrow> sorted (map f (filter P xs))"
  by (simp add: sorted_filter)

text \<open>A pair list over the live visits, sorted by dot, ends like the list of the visits.\<close>

lemma last_pairs:
  assumes "ids_apart E" "L \<subseteq> E" "L \<noteq> {}" "set S = (\<lambda>e. (e, g e)) ` L"
    "sorted (map (\<lambda>(e, _). envelope_key e) S)" "set xs = L" "sorted (map envelope_key xs)"
  shows "fst (last S) = last xs"
proof -
  have "S \<noteq> []" using assms(3,4) by auto
  have "last (map fst S) = last xs"
  proof (rule last_sorted [where f = envelope_key])
    show "sorted (map envelope_key (map fst S))" using assms(5) by (simp add: split_def o_def)
    show "set (map fst S) = set xs" using assms(4,6) by (simp add: image_image)
    show "inj_on envelope_key (set xs)" using inj_key [OF assms(1,2)] assms(6) by simp
  qed (use assms in auto)
  then show ?thesis using \<open>S \<noteq> []\<close> by (simp add: last_map)
qed

definition picks :: "('b l_envelope \<times> passport_visit) list \<Rightarrow> ('b l_envelope \<times> passport_visit) option list" where
  "picks S = [min_by_key (\<lambda>(_, v). vis_first v) S, max_by_key (\<lambda>(_, v). vis_last v) S,
     Some (last S), find (\<lambda>(_, v). vis_country v \<noteq> None) (rev S)]"

lemma station_picks:
  assumes "filter (\<lambda>(e, _). list_all (happens_after (op_stamp e)) (g @ s)) visits \<noteq> []"
    "Some p \<in> set (picks (sort_key (\<lambda>(e, _). envelope_key e)
       (filter (\<lambda>(e, _). list_all (happens_after (op_stamp e)) (g @ s)) visits)))"
  shows "operation_id (fst p) \<in> set (station_aggregates g s visits)"
proof -
  let ?S = "sort_key (\<lambda>(e, _). envelope_key e) (filter (\<lambda>(e, _). list_all (happens_after (op_stamp e)) (g @ s)) visits)"
  have "station_aggregates g s visits = map (\<lambda>(e, _). operation_id e) (List.map_filter id (picks ?S))"
    unfolding station_aggregates_def picks_def Let_def using assms(1) by (simp only: if_False)
  moreover have "p \<in> set (List.map_filter id (picks ?S))"
    using assms(2) by (force simp: map_filter_def)
  ultimately show ?thesis by (force simp: split_def)
qed

lemma visit_picks:
  fixes ops :: "'b l_envelope list" and k :: ustring
  defines "L \<equiv> live (or_clear (visit_change k)) (set ops)"
  assumes ne: "L \<noteq> {}"
  shows "\<exists>S. S \<noteq> [] \<and> set S = (\<lambda>e. (e, visit_of k e)) ` L \<and> sorted (map (\<lambda>(e, _). envelope_key e) S)
    \<and> (\<forall>p. Some p \<in> set (picks S) \<longrightarrow> operation_id (fst p) \<in> set (retained_listening_operation_ids ops))"
proof -
  define t where "t = foldl tabulate_visit \<lparr>vt_global = [], vt_station = [], vt_visits = []\<rparr> ops"
  define g where "g = vt_global t"
  define s where "s = rows_at (vt_station t) k"
  define visits where "visits = rows_at (vt_visits t) k"
  define kept where "kept = filter (\<lambda>(e, _). list_all (happens_after (op_stamp e)) (g @ s)) visits"
  have kept: "set kept = (\<lambda>e. (e, visit_of k e)) ` L"
    unfolding kept_def g_def s_def visits_def t_def L_def by (rule kept_visits)
  then have nonempty: "kept \<noteq> []" using ne by (cases kept) auto
  then have "visits \<noteq> []" by (auto simp: kept_def)
  then obtain x where "x \<in> set visits" by (cases visits) auto
  then have entry: "(k, visits) \<in> set (vt_visits t)"
    unfolding visits_def t_def by (rule rows_at_nonempty [rotated]) (use tables_invariant [of ops] in simp)
  have "operation_id (fst p) \<in> set (retained_listening_operation_ids ops)"
    if "Some p \<in> set (picks (sort_key (\<lambda>(e, _). envelope_key e) kept))" for p
  proof -
    have "operation_id (fst p) \<in> set (station_aggregates g s visits)"
      using nonempty that unfolding kept_def by (rule station_picks)
    then have "operation_id (fst p) \<in> set (passport_visit_aggregates ops)"
      using entry unfolding passport_visit_aggregates_def Let_def t_def [symmetric]
      by (force simp: g_def s_def rows_at_def)
    then show ?thesis by (simp add: retained_listening_operation_ids_def Let_def)
  qed
  moreover have "sort_key (\<lambda>(e, _). envelope_key e) kept \<noteq> []"
    using nonempty by (metis length_0_conv length_sort)
  moreover have "set (sort_key (\<lambda>(e, _). envelope_key e) kept) = (\<lambda>e. (e, visit_of k e)) ` L" using kept by simp
  moreover have "sorted (map (\<lambda>(e, _). envelope_key e) (sort_key (\<lambda>(e, _). envelope_key e) kept))" by simp
  ultimately show ?thesis by blast
qed

text \<open>The four facts about a station that survive.\<close>

lemma aggregates_retained:
  fixes ops :: "'b l_envelope list" and k :: ustring
  defines "L \<equiv> live (or_clear (visit_change k)) (set ops)"
  defines "R \<equiv> set (retained_listening_operation_ids ops)"
  assumes h: "history (set ops)" and ne: "L \<noteq> {}"
  shows "(\<exists>a \<in> L. operation_id a \<in> R \<and> (\<forall>e \<in> L. vis_first (visit_of k a) \<le> vis_first (visit_of k e)))
    \<and> (\<exists>a \<in> L. operation_id a \<in> R \<and> (\<forall>e \<in> L. vis_last (visit_of k e) \<le> vis_last (visit_of k a)))
    \<and> operation_id (last (by_dot L ops)) \<in> R
    \<and> (\<forall>e \<in> L. vis_country (visit_of k e) \<noteq> None \<longrightarrow>
         operation_id (last (filter (\<lambda>e. vis_country (visit_of k e) \<noteq> None) (by_dot L ops))) \<in> R)"
proof -
  obtain S where ne_S: "S \<noteq> []" and S: "set S = (\<lambda>e. (e, visit_of k e)) ` L"
    and sorted: "sorted (map (\<lambda>(e, _). envelope_key e) S)"
    and pick: "\<And>p. Some p \<in> set (picks S) \<Longrightarrow> operation_id (fst p) \<in> R"
    using visit_picks [of k ops] ne unfolding L_def R_def by blast
  have ids: "ids_apart (set ops)" using h by (simp add: history_def)
  have sub: "L \<subseteq> set ops" by (auto simp: L_def live_def)
  let ?P = "\<lambda>(e :: 'b l_envelope, v). vis_country v \<noteq> None"
  show ?thesis
  proof (intro conjI ballI impI)
    obtain m where m: "m \<in> set S" "min_by_key (\<lambda>(_, v). vis_first v) S = Some m"
      "\<forall>y \<in> set S. (\<lambda>(_, v). vis_first v) m \<le> (\<lambda>(_, v). vis_first v) y"
      using min_by_key_spec [OF ne_S, of "\<lambda>(_, v). vis_first v"] by blast
    then have "operation_id (fst m) \<in> R" by (intro pick) (simp add: picks_def)
    then show "\<exists>a \<in> L. operation_id a \<in> R \<and> (\<forall>e \<in> L. vis_first (visit_of k a) \<le> vis_first (visit_of k e))"
      using m(1,3) S by auto
  next
    obtain m where m: "m \<in> set S" "max_by_key (\<lambda>(_, v). vis_last v) S = Some m"
      "\<forall>y \<in> set S. (\<lambda>(_, v). vis_last v) y \<le> (\<lambda>(_, v). vis_last v) m"
      using max_by_key_spec [OF ne_S, of "\<lambda>(_, v). vis_last v"] by blast
    then have "operation_id (fst m) \<in> R" by (intro pick) (simp add: picks_def)
    then show "\<exists>a \<in> L. operation_id a \<in> R \<and> (\<forall>e \<in> L. vis_last (visit_of k e) \<le> vis_last (visit_of k a))"
      using m(1,3) S by auto
  next
    have "fst (last S) = last (by_dot L ops)"
      by (rule last_pairs [OF ids sub ne S sorted set_by_dot [OF sub] sorted_by_dot_key])
    then show "operation_id (last (by_dot L ops)) \<in> R" using pick [of "last S"] by (simp add: picks_def)
  next
    fix e assume e: "e \<in> L" "vis_country (visit_of k e) \<noteq> None"
    let ?L = "{e \<in> L. vis_country (visit_of k e) \<noteq> None}"
    have fS: "set (filter ?P S) = (\<lambda>e. (e, visit_of k e)) ` ?L" using S by auto
    have "fst (last (filter ?P S)) = last (filter (\<lambda>e. vis_country (visit_of k e) \<noteq> None) (by_dot L ops))"
    proof (rule last_pairs [OF ids _ _ fS])
      show "sorted (map (\<lambda>(e, _). envelope_key e) (filter ?P S))" by (rule sorted_map_filter_key [OF sorted])
      show "sorted (map envelope_key (filter (\<lambda>e. vis_country (visit_of k e) \<noteq> None) (by_dot L ops)))"
        by (rule sorted_map_filter_key [OF sorted_by_dot_key])
    qed (use sub e set_by_dot [OF sub] in auto)
    moreover have "filter ?P S \<noteq> []" using fS e by (metis (mono_tags, lifting) empty_iff empty_set image_is_empty mem_Collect_eq)
    then have "find ?P (rev S) = Some (last (filter ?P S))" by (simp only: find_rev if_False)
    then have "operation_id (fst (last (filter ?P S))) \<in> R" by (intro pick) (simp add: picks_def)
    ultimately show "operation_id (last (filter (\<lambda>e. vis_country (visit_of k e) \<noteq> None) (by_dot L ops))) \<in> R" by simp
  qed
qed

section \<open>Merging visits\<close>

definition last_country :: "passport_visit list \<Rightarrow> ustring option" where
  "last_country vs = (let cs = filter (\<lambda>v. vis_country v \<noteq> None) vs in if cs = [] then None else vis_country (last cs))"

definition summary :: "passport_visit list \<Rightarrow> passport_visit option" where
  "summary vs = (if vs = [] then None else Some \<lparr>vis_station = vis_station (hd vs), vis_name = vis_name (last vs),
     vis_country = last_country vs, vis_first = Min (vis_first ` set vs), vis_last = Max (vis_last ` set vs)\<rparr>)"

lemma last_country_snoc: "last_country (vs @ [v]) = (if vis_country v \<noteq> None then vis_country v else last_country vs)"
  by (simp add: last_country_def)

lemma Min_snoc: "xs \<noteq> [] \<Longrightarrow> Min (g ` set (xs @ [w])) = min (Min (g ` set xs)) (g w)"
  unfolding set_append image_Un by (subst Min.union) auto

lemma Max_snoc: "xs \<noteq> [] \<Longrightarrow> Max (g ` set (xs @ [w])) = max (Max (g ` set xs)) (g w)"
  unfolding set_append image_Un by (subst Max.union) auto

lemma merge_visit_summary: "Some (foldl merge_visit v vs) = summary (v # vs)"
proof (induction vs rule: rev_induct)
  case Nil
  then show ?case by (simp add: summary_def last_country_def)
next
  case (snoc w vs)
  define acc where "acc = foldl merge_visit v vs"
  have acc: "vis_station acc = vis_station v" "vis_name acc = vis_name (last (v # vs))"
    "vis_country acc = last_country (v # vs)" "vis_first acc = Min (vis_first ` set (v # vs))"
    "vis_last acc = Max (vis_last ` set (v # vs))"
    using snoc.IH [folded acc_def] unfolding summary_def by (simp_all del: last.simps list.set)
  have "merge_visit acc w = \<lparr>vis_station = vis_station v, vis_name = vis_name w,
     vis_country = last_country ((v # vs) @ [w]), vis_first = Min (vis_first ` set ((v # vs) @ [w])),
     vis_last = Max (vis_last ` set ((v # vs) @ [w]))\<rparr>"
    unfolding merge_visit_def last_country_snoc Min_snoc [OF list.distinct(2)] Max_snoc [OF list.distinct(2)]
    by (simp only: acc [symmetric]) (simp add: acc)
  then show ?case by (simp add: summary_def acc_def)
qed

lemma visit_view_summary: "visit_view sel ops = summary (List.map_filter (value_of sel) (by_dot (live sel (set ops)) ops))"
  by (simp add: visit_view_def merge_visit_summary summary_def split: list.split)

lemma last_filter: "P (last xs) \<Longrightarrow> xs \<noteq> [] \<Longrightarrow> filter P xs \<noteq> [] \<and> last (filter P xs) = last xs"
  by (induction xs rule: rev_induct) auto

text \<open>A part of the visits that has the extremes and the last ones has the same summary.\<close>

lemma summary_part:
  fixes f :: "'a \<Rightarrow> passport_visit"
  assumes "xs \<noteq> []" "\<And>x. x \<in> set xs \<Longrightarrow> vis_station (f x) = k"
    and lo: "\<exists>a \<in> set xs. P a \<and> (\<forall>x \<in> set xs. vis_first (f a) \<le> vis_first (f x))"
    and hi: "\<exists>a \<in> set xs. P a \<and> (\<forall>x \<in> set xs. vis_last (f x) \<le> vis_last (f a))"
    and nm: "P (last xs)"
    and co: "\<And>x. x \<in> set xs \<Longrightarrow> vis_country (f x) \<noteq> None \<Longrightarrow> P (last (filter (\<lambda>x. vis_country (f x) \<noteq> None) xs))"
  shows "summary (map f (filter P xs)) = summary (map f xs)"
proof -
  let ?ys = "filter P xs" let ?C = "\<lambda>x. vis_country (f x) \<noteq> None"
  have ys: "?ys \<noteq> []" "last ?ys = last xs" using last_filter [of P, OF nm assms(1)] by auto
  obtain a where a: "a \<in> set ?ys" "\<forall>x \<in> set xs. vis_first (f a) \<le> vis_first (f x)" using lo by auto
  obtain b where b: "b \<in> set ?ys" "\<forall>x \<in> set xs. vis_last (f x) \<le> vis_last (f b)" using hi by auto
  have mins: "Min (vis_first ` set (map f zs)) = vis_first (f a)" if "a \<in> set zs" "set zs \<subseteq> set xs" for zs
    using that a(2) by (intro Min_eqI) auto
  have first: "Min (vis_first ` set (map f ?ys)) = Min (vis_first ` set (map f xs))"
    using mins [of ?ys] mins [of xs] a(1) by auto
  have maxs: "Max (vis_last ` set (map f zs)) = vis_last (f b)" if "b \<in> set zs" "set zs \<subseteq> set xs" for zs
    using that b(2) by (intro Max_eqI) auto
  have last: "Max (vis_last ` set (map f ?ys)) = Max (vis_last ` set (map f xs))"
    using maxs [of ?ys] maxs [of xs] b(1) by auto
  have lc: "last_country (map f zs) = (if filter ?C zs = [] then None else vis_country (f (last (filter ?C zs))))" for zs
    by (simp add: last_country_def filter_map o_def last_map)
  have country: "last_country (map f ?ys) = last_country (map f xs)"
  proof (cases "filter ?C xs = []")
    case True
    then have "filter ?C ?ys = []" by (auto simp: filter_empty_conv)
    then show ?thesis using True by (simp only: lc if_True)
  next
    case False
    then obtain x where "x \<in> set xs" "?C x" by (auto simp: filter_empty_conv)
    then have "filter P (filter ?C xs) \<noteq> [] \<and> last (filter P (filter ?C xs)) = last (filter ?C xs)"
      by (intro last_filter co False)
    moreover have "filter P (filter ?C xs) = filter ?C ?ys" by (simp add: conj_commute)
    ultimately show ?thesis using False by (simp only: lc if_False)
  qed
  have "vis_station (f (hd ?ys)) = k" "vis_station (f (hd xs)) = k"
    using assms(1,2) ys(1) hd_in_set [OF ys(1)] hd_in_set [OF assms(1)] by auto
  then show ?thesis using ys assms(1) first last country
    by (simp add: summary_def hd_map last_map del: set_map set_filter)
qed

section \<open>A part of the history that shows the same\<close>

lemma newest_part:
  assumes "strict_on S newer" "finite S" "T \<subseteq> S" "newest newer S \<subseteq> T"
  shows "newest newer T = newest newer S"
proof (intro set_eqI iffI)
  fix x assume x: "x \<in> newest newer T"
  then have "x \<in> S" using assms(3) by (auto simp: newest_def)
  then obtain m where m: "m \<in> newest newer S" "m = x \<or> newer m x" using newest_above [OF assms(1,2)] by blast
  then have "m = x" using x assms(4) by (auto simp: newest_def)
  then show "x \<in> newest newer S" using m by simp
next
  fix x assume "x \<in> newest newer S"
  then show "x \<in> newest newer T" using assms(3,4) by (auto simp: newest_def)
qed

lemma live_part:
  assumes "D \<subseteq> E" "\<And>d. d \<in> E \<Longrightarrow> touch sel d = Some Deleted \<Longrightarrow> d \<in> D"
  shows "live sel D = live sel E \<inter> D"
  using assms by (auto simp: live_def)

text \<open>The newest live writes are among the newest operations on the key: a deletion newer than a live
  write would be older than it as well.\<close>

lemma newest_live:
  assumes h: "history E"
  shows "newest later (live sel E) \<subseteq> newest later {e \<in> E. touch sel e \<noteq> None}"
proof
  fix x assume x: "x \<in> newest later (live sel E)"
  then obtain v where v: "x \<in> E" "touch sel x = Some (Present v)" "\<And>d. d \<in> E \<Longrightarrow> touch sel d = Some Deleted \<Longrightarrow> later x d"
    by (auto simp: newest_def live_def)
  have st: "strict_on {e \<in> E. touch sel e \<noteq> None} later"
    using h by (rule history_strict) (auto dest: touch_listening)
  have "\<not> later q x" if q: "q \<in> E" "touch sel q \<noteq> None" for q
  proof
    assume qx: "later q x"
    have up: "later q d" if "d \<in> E" "touch sel d = Some Deleted" for d
      using strict_on_trans [OF st qx v(3) [OF that]] q v that by simp
    have "touch sel q \<noteq> Some Deleted" using up [OF q(1)] strict_on_irrefl [OF st, of q] q by auto
    then obtain w where "touch sel q = Some (Present w)" using q(2) by (metis crud_value.exhaust option.exhaust)
    then have "q \<in> live sel E" using q(1) up by (auto simp: live_def)
    then show False using x qx by (auto simp: newest_def)
  qed
  then show "x \<in> newest later {e \<in> E. touch sel e \<noteq> None}" using v(1,2) by (auto simp: newest_def)
qed

lemma by_dot_part: "ids_apart (set ops) \<Longrightarrow> N \<subseteq> set ops \<Longrightarrow> N \<inter> set ops' \<subseteq> set ops \<Longrightarrow>
    by_dot (N \<inter> set ops') ops' = filter (\<lambda>e. e \<in> set ops') (by_dot N ops)"
proof -
  assume "ids_apart (set ops)" "N \<subseteq> set ops" "N \<inter> set ops' \<subseteq> set ops"
  then have "by_dot (N \<inter> set ops') ops' = by_dot (N \<inter> set ops') ops" by (intro by_dot_cong) auto
  also have "\<dots> = filter (\<lambda>e. e \<in> set ops') (by_dot N ops)"
    by (simp add: by_dot_def sort_envelopes_def filter_sort conj_commute)
  finally show ?thesis .
qed

section \<open>Compaction keeps the view\<close>

definition listening_part :: "'b l_envelope list \<Rightarrow> 'b l_envelope list \<Rightarrow> bool" where
  "listening_part ops' ops \<longleftrightarrow> set ops' \<subseteq> set ops
     \<and> (\<forall>e \<in> set ops. is_listening (operation e) \<and> operation_id e \<in> set (retained_listening_operation_ids ops) \<longrightarrow> e \<in> set ops')"

lemma touched_bookmarks: "{e \<in> E. touch (bookmark_change k) e \<noteq> None} = group (KeyBookmark k) E"
proof -
  have "touch (bookmark_change k) e \<noteq> None \<longleftrightarrow> (\<exists>c. operation e = Listening c \<and> register_key c = KeyBookmark k)" for e :: "'b l_envelope"
  proof (cases "operation e")
    case (Listening c)
    then show ?thesis by (cases c) (auto simp: touch_def)
  qed (simp_all add: touch_def)
  then show ?thesis by (auto simp: group_def)
qed

lemma touched_presets: "{e \<in> E. touch (preset_change k) e \<noteq> None} = group (KeyPreset k) E"
proof -
  have "touch (preset_change k) e \<noteq> None \<longleftrightarrow> (\<exists>c. operation e = Listening c \<and> register_key c = KeyPreset k)" for e :: "'b l_envelope"
  proof (cases "operation e")
    case (Listening c)
    then show ?thesis by (cases c) (auto simp: touch_def)
  qed (simp_all add: touch_def)
  then show ?thesis by (auto simp: group_def)
qed

lemma touched_resumes: "{e \<in> E. touch (resume_change k) e \<noteq> None} = group (KeyResume k) E"
proof -
  have "touch (resume_change k) e \<noteq> None \<longleftrightarrow> (\<exists>c. operation e = Listening c \<and> register_key c = KeyResume k)" for e :: "'b l_envelope"
  proof (cases "operation e")
    case (Listening c)
    then show ?thesis by (cases c) (auto simp: touch_def)
  qed (simp_all add: touch_def)
  then show ?thesis by (auto simp: group_def)
qed

lemma touched_notes: "{e \<in> E. touch (or_clear (note_change k)) e \<noteq> None} = group (KeyNote k) E"
proof -
  have "touch (or_clear (note_change k)) e \<noteq> None
      \<longleftrightarrow> (\<exists>c. operation e = Listening c \<and> (register_key c = KeyNote k \<or> c = ClearPassport))" for e :: "'b l_envelope"
  proof (cases "operation e")
    case (Listening c)
    then show ?thesis by (cases c) (auto simp: touch_def or_clear_def)
  qed (simp_all add: touch_def)
  then show ?thesis by (auto simp: group_def)
qed

lemma part_deletes:
  assumes "listening_part ops' ops" "\<And>c. sel c = Some Deleted \<Longrightarrow> is_listening_tombstone c"
    "d \<in> set ops" "touch sel d = Some Deleted"
  shows "d \<in> set ops'"
proof -
  obtain c where "operation d = Listening c" "sel c = Some Deleted"
    using assms(4) by (auto simp: touch_def split: operation.splits)
  then show ?thesis using assms tombstone_retained [of d ops c] by (auto simp: listening_part_def)
qed

lemma part_newest:
  assumes "listening_part ops' ops" "history (set ops)" "key \<noteq> KeyClear"
  shows "newest later (group key (set ops)) \<subseteq> set ops'"
  using assms frontier_retained [OF assms(2,3)] newest_subset [of later "group key (set ops)"]
  by (fastforce simp: listening_part_def group_def)

lemma crud_view_part:
  assumes part: "listening_part ops' ops" and h: "history (set ops)"
    and sel: "\<And>c. sel c = Some Deleted \<Longrightarrow> is_listening_tombstone c"
    and touched: "{e \<in> set ops. touch sel e \<noteq> None} = group key (set ops)" and key: "key \<noteq> KeyClear"
  shows "crud_view sel ops' = crud_view sel ops"
proof -
  let ?L = "live sel (set ops)"
  have sub: "set ops' \<subseteq> set ops" using part by (simp add: listening_part_def)
  have live: "live sel (set ops') = ?L \<inter> set ops'" by (rule live_part [OF sub part_deletes [OF part sel]])
  have "newest later ?L \<subseteq> newest later (group key (set ops))" using newest_live [OF h, of sel] unfolding touched .
  also have "\<dots> \<subseteq> set ops'" by (rule part_newest [OF part h key])
  finally have kept: "newest later ?L \<subseteq> set ops'" .
  have "finite ?L" by (rule finite_subset [OF live_subset]) simp
  moreover have "newest later ?L \<subseteq> live sel (set ops')"
    unfolding live using kept newest_subset by (metis Int_subset_iff)
  ultimately have "newest later (live sel (set ops')) = newest later ?L"
    unfolding live by (intro newest_part [OF live_strict [OF h]]) auto
  moreover have "by_dot (newest later ?L) ops' = by_dot (newest later ?L) ops"
    using h kept newest_subset [of later ?L] live_subset [of sel "set ops"]
    by (intro by_dot_cong) (auto simp: history_def)
  ultimately show ?thesis by (simp add: crud_view_def)
qed

lemma resume_view_part:
  assumes part: "listening_part ops' ops" and h: "history (set ops)"
  shows "resume_view (resume_change k) ops' = resume_view (resume_change k) ops"
proof -
  let ?L = "{e \<in> set ops. touch (resume_change k) e \<noteq> None}"
  let ?L' = "{e \<in> set ops'. touch (resume_change k) e \<noteq> None}"
  have sub: "set ops' \<subseteq> set ops" using part by (simp add: listening_part_def)
  have kept: "newest later ?L \<subseteq> set ops'" unfolding touched_resumes by (rule part_newest [OF part h]) simp
  have "newest later ?L' = newest later ?L"
    using sub kept by (intro newest_part [OF touched_strict [OF h]]) (auto simp: newest_def)
  moreover have "by_dot (newest later ?L) ops' = by_dot (newest later ?L) ops"
    using h kept by (intro by_dot_cong) (auto simp: history_def newest_def)
  ultimately show ?thesis by (simp add: resume_view_def)
qed

lemma visit_deletes: "or_clear (visit_change k) c = Some Deleted \<Longrightarrow> is_listening_tombstone c"
  by (cases c) (auto simp: or_clear_def split: if_splits)

lemma live_visits: "e \<in> live (or_clear (visit_change k)) E \<Longrightarrow> value_of (or_clear (visit_change k)) e = Some (visit_of k e)
    \<and> vis_station (visit_of k e) = k"
proof -
  assume "e \<in> live (or_clear (visit_change k)) E"
  then obtain v where v: "touch (or_clear (visit_change k)) e = Some (Present v)" by (auto simp: live_def)
  then have "vis_station v = k" by (simp add: visit_touch)
  then show ?thesis using v visit_of_Present [OF v] by (simp add: value_of_def)
qed

lemma visit_values:
  assumes "N \<subseteq> live (or_clear (visit_change k)) E" "N \<subseteq> set ops"
  shows "List.map_filter (value_of (or_clear (visit_change k))) (by_dot N ops) = map (visit_of k) (by_dot N ops)"
proof (rule map_filter_Some)
  fix x assume "x \<in> set (by_dot N ops)"
  then have "x \<in> live (or_clear (visit_change k)) E" using assms set_by_dot by blast
  then show "value_of (or_clear (visit_change k)) x = Some (visit_of k x)" by (simp add: live_visits)
qed

lemma visit_view_part:
  assumes part: "listening_part ops' ops" and h: "history (set ops)"
  shows "visit_view (or_clear (visit_change k)) ops' = visit_view (or_clear (visit_change k)) ops"
proof -
  let ?sel = "or_clear (visit_change k)" let ?L = "live ?sel (set ops)"
  let ?R = "set (retained_listening_operation_ids ops)"
  have sub: "set ops' \<subseteq> set ops" and ids: "ids_apart (set ops)"
    using part h by (simp_all add: listening_part_def history_def)
  have live: "live ?sel (set ops') = ?L \<inter> set ops'" by (rule live_part [OF sub part_deletes [OF part visit_deletes]])
  have in_ops: "?L \<subseteq> set ops" by (rule live_subset)
  have members: "set (by_dot ?L ops) = ?L" by (rule set_by_dot [OF in_ops])
  have kept: "e \<in> set ops'" if "e \<in> ?L" "operation_id e \<in> ?R" for e
    using that in_ops part by (auto simp: listening_part_def live_def dest: touch_listening)
  have part_dot: "by_dot (?L \<inter> set ops') ops' = filter (\<lambda>e. e \<in> set ops') (by_dot ?L ops)"
    by (rule by_dot_part [OF ids in_ops]) (use in_ops in auto)
  have "summary (map (visit_of k) (filter (\<lambda>e. e \<in> set ops') (by_dot ?L ops))) = summary (map (visit_of k) (by_dot ?L ops))"
  proof (cases "?L = {}")
    case True
    then have "by_dot ?L ops = []" using members by simp
    then show ?thesis by simp
  next
    case False
    note facts = aggregates_retained [OF h False]
    show ?thesis
    proof (rule summary_part)
      show ne: "by_dot ?L ops \<noteq> []" using False members by force
      show "vis_station (visit_of k x) = k" if "x \<in> set (by_dot ?L ops)" for x using that members live_visits by blast
      show "\<exists>a \<in> set (by_dot ?L ops). a \<in> set ops' \<and> (\<forall>x \<in> set (by_dot ?L ops). vis_first (visit_of k a) \<le> vis_first (visit_of k x))"
        unfolding members using facts kept by blast
      show "\<exists>a \<in> set (by_dot ?L ops). a \<in> set ops' \<and> (\<forall>x \<in> set (by_dot ?L ops). vis_last (visit_of k x) \<le> vis_last (visit_of k a))"
        unfolding members using facts kept by blast
      show "last (by_dot ?L ops) \<in> set ops'" using facts kept last_in_set [OF ne] members by blast
      fix x assume x: "x \<in> set (by_dot ?L ops)" "vis_country (visit_of k x) \<noteq> None"
      let ?C = "filter (\<lambda>x. vis_country (visit_of k x) \<noteq> None) (by_dot ?L ops)"
      have "x \<in> set ?C" using x by simp
      then have "?C \<noteq> []" by (metis empty_iff empty_set)
      then have "last ?C \<in> ?L" using last_in_set [of ?C] members by auto
      moreover have "operation_id (last ?C) \<in> ?R" using facts x members by blast
      ultimately show "last ?C \<in> set ops'" by (rule kept)
    qed
  qed
  then show ?thesis unfolding visit_view_summary live
    by (simp add: visit_values [where E = "set ops"] part_dot [symmetric] in_ops)
qed

lemma shows_view_part:
  assumes part: "listening_part ops' ops" and h: "history (set ops)"
  shows "shows_view p ops' = shows_view p ops"
proof -
  have "crud_view (bookmark_change k) ops' = crud_view (bookmark_change k) ops" for k
    by (rule crud_view_part [OF part h _ touched_bookmarks]) (auto elim: bookmark_change.elims split: if_splits)
  moreover have "crud_view (preset_change k) ops' = crud_view (preset_change k) ops" for k
    by (rule crud_view_part [OF part h _ touched_presets]) (auto elim: preset_change.elims split: if_splits)
  moreover have "crud_view (or_clear (note_change k)) ops' = crud_view (or_clear (note_change k)) ops" for k
    by (rule crud_view_part [OF part h _ touched_notes])
      (auto simp: or_clear_def elim: note_change.elims split: if_splits)
  ultimately show ?thesis
    unfolding shows_view_def resume_view_part [OF part h] visit_view_part [OF part h] by simp
qed

section \<open>Properties\<close>

lemma causal_subset: "causal E \<Longrightarrow> D \<subseteq> E \<Longrightarrow> causal D"
  unfolding causal_def by (intro ballI) (drule bspec, erule (1) subsetD)+

lemma listening_total: "validate_state (listening_rules pr rules) st = Inr () \<Longrightarrow> \<exists>p. from_ledger pr rules st = Inr p"
  using valid_collects [of pr rules st] by (auto simp: from_ledger_def)

lemma ledger_shows:
  assumes "from_ledger pr rules st = Inr p" "causal (set (ps_operations st))"
  shows "shows_view p (ps_operations st)"
proof -
  have valid: "validate_state (listening_rules pr rules) st = Inr ()"
    using assms(1) unfolding from_ledger_def bind_ok_unit by blast
  obtain m where "collect_rows pr (ps_operations st) rows_empty = Inr m" "p = project_rows m"
    using assms(1) unfolding from_ledger_def bind_ok_unit by (auto elim: bind_ok_Inr)
  then show ?thesis using projection_shows valid_history [OF valid assms(2)] by blast
qed

text \<open>A valid ledger always projects.  The checks of \<open>from_ledger\<close> repeat the ones of the validation,
  so a validated state never makes the projection of bookmarks, resume points, passport and presets fail.\<close>

theorem listening_projection_total:
  assumes "validate_state (listening_rules pr rules) st = Inr ()"
  shows "\<exists>p. from_ledger pr rules st = Inr p"
  by (rule listening_total [OF assms])

text \<open>C20. What the projection shows.  For a causal history, a key of the projected bookmarks, notes and
  presets holds exactly the writes that have seen every deletion of the key and that no other such write has
  seen, ordered by dot; a track holds the resume points and clears nothing newer has replaced; and a
  station's visit sums up the visits that have seen every deletion.\<close>

theorem listening_projection_view:
  assumes "from_ledger pr rules st = Inr p" "causal (set (ps_operations st))"
  shows "shows_view p (ps_operations st)"
  by (rule ledger_shows [OF assms])

text \<open>The operations a compaction leaves, as far as listening is concerned.\<close>

definition compacted_listening :: "'b l_envelope list \<Rightarrow> 'b l_envelope list \<Rightarrow> bool" where
  "compacted_listening ops' ops \<longleftrightarrow> set ops' \<subseteq> set ops
     \<and> (\<forall>e \<in> set ops. is_listening (operation e) \<longrightarrow>
          (e \<in> set ops' \<longleftrightarrow> operation_id e \<in> set (retained_listening_operation_ids ops)))"

lemma compacted_projection:
  assumes "validate_state (listening_rules pr rules) st = Inr ()" "causal (set (ps_operations st))"
    "validate_state (listening_rules pr rules) st' = Inr ()" "compacted_listening (ps_operations st') (ps_operations st)"
  shows "from_ledger pr rules st' = from_ledger pr rules st"
proof -
  obtain p where p: "from_ledger pr rules st = Inr p" using listening_total [OF assms(1)] by blast
  obtain q where q: "from_ledger pr rules st' = Inr q" using listening_total [OF assms(3)] by blast
  have "set (ps_operations st') \<subseteq> set (ps_operations st)" using assms(4) by (simp add: compacted_listening_def)
  then have "causal (set (ps_operations st'))" by (rule causal_subset [OF assms(2)])
  moreover have "listening_part (ps_operations st') (ps_operations st)"
    using assms(4) by (simp add: compacted_listening_def listening_part_def)
  ultimately have "shows_view q (ps_operations st)"
    using ledger_shows [OF q] shows_view_part [OF _ valid_history [OF assms(1,2)]] by blast
  then have "p = q" by (rule shows_view_unique [OF ledger_shows [OF p assms(2)]])
  then show ?thesis using p q by simp
qed

text \<open>C19. Compaction does not change what the listener sees.  Dropping the listening operations that
  \<open>retained_listening_operation_ids\<close> does not name, in a state with a causal history, leaves the projection
  of bookmarks, resume points, passport and presets exactly as it was, whatever else the candidate drops.\<close>

theorem compaction_keeps_listening:
  assumes "validate_state (listening_rules pr rules) st = Inr ()" "causal (set (ps_operations st))"
    "validate_state (listening_rules pr rules) st' = Inr ()" "compacted_listening (ps_operations st') (ps_operations st)"
  shows "from_ledger pr rules st' = from_ledger pr rules st"
  by (rule compacted_projection [OF assms])

section \<open>Witnesses\<close>

text \<open>A device replaces its note on a station.\<close>

definition plain_presets :: preset_rules where
  "plain_presets = \<lparr>lowercase = str_lower, encoded_size = \<lambda>_. Some 0\<rparr>"

definition plain_rules :: "(unit, listening_operation) rules" where
  "plain_rules = \<lparr>check_identity = \<lambda>_. Inr (), check_baseline = \<lambda>_. Inr (), check_listening = \<lambda>_. Inr (),
     resume_device = \<lambda>_. None, checkpoint_hash = \<lambda>_ _ _ _ _ _ _. Inr (utf ''0'')\<rparr>"

definition note_op :: "string \<Rightarrow> u64 \<Rightarrow> version_vector \<Rightarrow> (unit, listening_operation) operation_envelope" where
  "note_op i n observed = \<lparr>operation_id = utf i,
     op_stamp = \<lparr>stamp_dot = \<lparr>dot_device = utf ''a'', dot_sequence = n\<rparr>, stamp_observed = observed, recorded_at_unix = 0\<rparr>,
     op_origin = OriginLocal, operation = Listening (SetPassportNote \<lparr>note_station = utf ''s'', note_text = utf i\<rparr>)\<rparr>"

definition note_state :: "(unit, listening_operation) operation_envelope list \<Rightarrow> (unit, listening_operation) personal_state" where
  "note_state ops = \<lparr>ps_kind = PERSONAL_STATE_KIND, schema_version = 3, dataset_id = utf ''d'', ps_revision = 0,
     ps_registry = [], ps_version_vector = [(utf ''a'', 2)], ps_operations = ops,
     ps_checkpoint = None,
     ps_metadata = \<lparr>source_app_version = utf ''1'', contains_listening_history = True, credentials_included = False,
       filesystem_paths_included = False, playable_urls_included = False\<rparr>,
     projection_fingerprint = None\<rparr>"

abbreviation "first_note \<equiv> note_op ''x'' 1 []"
abbreviation "second_note \<equiv> note_op ''y'' 2 [(utf ''a'', 1)]"

lemma note_texts: "validate_listening plain_presets (SetPassportNote \<lparr>note_station = utf ''s'', note_text = utf ''x''\<rparr>) = Inr ()"
  "validate_listening plain_presets (SetPassportNote \<lparr>note_station = utf ''s'', note_text = utf ''y''\<rparr>) = Inr ()"
  by (simp_all add: validate_note_def validate_listening_id_def validate_listening_text_def checks_ok registry_eval
      looks_like_location_def has_url_def Let_def starts_with_def str_lower_def to_ascii_lower_def is_ascii_uppercase_def
      split_whitespace_def path_word_def strip_prefix_def ID_CHARS_MAX_def NOTE_CHARS_MAX_def)

lemma note_valid: "validate_state (listening_rules plain_presets plain_rules) (note_state [first_note, second_note]) = Inr ()"
  "validate_state (listening_rules plain_presets plain_rules) (note_state [second_note]) = Inr ()"
  using note_texts
  by (simp_all add: note_state_def note_op_def listening_rules_def plain_rules_def validate_state_ok check_header_def checks_ok
      PERSONAL_STATE_SCHEMA_VERSION_def PERSONAL_STATE_LISTENING_SCHEMA_VERSION_def registry_eval MAX_OPERATIONS_def
      operation_ok_def Let_def vector_dominates_def validate_listening_author_def vv_covers_def vv_observed_def consistent_def)

lemma note_causal: "causal (set (ps_operations (note_state [first_note, second_note])))"
  by (simp add: causal_def note_state_def note_op_def later_def happens_after_def vv_covers_def vv_observed_def om_get_def)

lemma note_retained: "retained_listening_operation_ids [first_note, second_note] = [utf ''y'']"
  by (simp add: retained_listening_operation_ids_def Let_def group_operation_def note_op_def at_entry_def om_get_def
      keep_frontier_def happens_after_def vv_covers_def vv_observed_def passport_visit_aggregates_def tabulate_visit_def
      id_set_of_def utf_def)

theorem listening_projection_total_witness: "\<exists>p. from_ledger plain_presets plain_rules (note_state [first_note, second_note]) = Inr p"
  by (rule listening_projection_total [OF note_valid(1)])

theorem listening_projection_view_witness:
  "\<exists>p. from_ledger plain_presets plain_rules (note_state [first_note, second_note]) = Inr p
     \<and> shows_view p [first_note, second_note]"
proof -
  obtain p where p: "from_ledger plain_presets plain_rules (note_state [first_note, second_note]) = Inr p"
    using listening_total [OF note_valid(1)] by blast
  then show ?thesis using listening_projection_view [OF p note_causal] by (simp add: note_state_def)
qed

theorem compaction_keeps_listening_witness:
  "from_ledger plain_presets plain_rules (note_state [second_note])
   = from_ledger plain_presets plain_rules (note_state [first_note, second_note])"
proof (rule compaction_keeps_listening [OF note_valid(1) note_causal note_valid(2)])
  show "compacted_listening (ps_operations (note_state [second_note])) (ps_operations (note_state [first_note, second_note]))"
    by (simp add: compacted_listening_def note_state_def note_retained) (simp add: note_op_def utf_def)
qed

end
