(* ===== verification/CompactionPlan.thy ===== *)
theory CompactionPlan
  imports ProjectSpec ListeningCompaction
begin

text \<open>
  \<open>plan_engagement_compaction\<close> of \<open>src/personal_state/compaction.rs\<close>: the lowest active device drops the
  engagement events that no longer count and the listening operations that newer ones have replaced, under a
  checkpoint that names the ones that stay, and refuses its own candidate when the projection would change.

  The theorems show that this last test never fails: on a valid, normalised ledger whose listening history is
  causal, the candidate is valid and projects to exactly the same stores.
\<close>

section \<open>The plan\<close>

text \<open>\<open>filter\<close>, \<open>map\<close> and \<open>min\<close> over the registry.\<close>

definition engagement_compaction_leader :: "('b, 'l) personal_state \<Rightarrow> device_id option" where
  "engagement_compaction_leader st =
     (let active = map (\<lambda>(_, d). dev_id d) (filter (\<lambda>(_, d). \<not> dev_revoked d \<and> dev_id d \<noteq> utf ''legacy'') (ps_registry st))
      in if active = [] then None else Some (Min (set active)))"

type_synonym 'w full_state = "('w legacy_projection, listening_operation) personal_state"
type_synonym 'w full_rules = "('w legacy_projection, listening_operation) rules"

record 'w compaction_plan =
  plan_candidate :: "'w full_state"
  pruned_engagement_operations :: nat
  pruned_listening_operations :: nat

definition keeps_engagement :: "('b, 'l) operation_envelope list \<Rightarrow> int \<Rightarrow> ('b, 'l) operation_envelope \<Rightarrow> bool" where
  "keeps_engagement ops now_unix e \<longleftrightarrow>
     \<not> is_engagement (operation e) \<or> operation_id e \<in> set (retained_engagement_operation_ids ops now_unix)"

text \<open>\<open>checked_add\<close> is the test against the largest generation.\<close>

definition next_generation :: "compaction_checkpoint option \<Rightarrow> u64 outcome" where
  "next_generation checkpoint = (case checkpoint of
      None \<Rightarrow> Inr 1
    | Some cp \<Rightarrow> if compaction_generation cp = - 1 then Inl (InvalidOperation ''compaction generation exhausted'')
        else Inr (compaction_generation cp + 1))"

text \<open>The payloads' rules of the program: the check of a baseline and the checks of listening changes.\<close>

definition full_rules :: "'w projection_params \<Rightarrow> preset_rules \<Rightarrow> 'w full_rules \<Rightarrow> 'w full_rules" where
  "full_rules pp pr rules = listening_rules pr (rules\<lparr>check_baseline := validate_legacy (pp_floats pp)\<rparr>)"

definition compaction_candidate :: "'w full_state \<Rightarrow> int \<Rightarrow> compaction_checkpoint \<Rightarrow> 'w full_state" where
  "compaction_candidate st now_unix checkpoint = st\<lparr>
     ps_operations := filter (\<lambda>e. keeps_engagement (ps_operations st) now_unix e \<and> keeps_listening (ps_operations st) e)
       (ps_operations st),
     ps_checkpoint := Some checkpoint, projection_fingerprint := None\<rparr>"

text \<open>The comparison of the projections before and after: \<open>before\<close> and \<open>after\<close> of the code.\<close>

definition compare_projections ::
    "'w projection_params \<Rightarrow> preset_rules \<Rightarrow> 'w full_rules \<Rightarrow> 'w full_state \<Rightarrow> int
      \<Rightarrow> 'w personal_projection \<Rightarrow> listening_projection \<Rightarrow> nat \<times> nat \<Rightarrow> 'w compaction_plan option outcome run" where
  "compare_projections pp pr rules candidate now_unix before listening_before pruned =
     (case project_at pp (full_rules pp pr rules) candidate now_unix of
        None \<Rightarrow> None
      | Some (Inl err) \<Rightarrow> Some (Inl err)
      | Some (Inr after) \<Rightarrow> Some (bind_ok (from_ledger pr (rules\<lparr>check_baseline := validate_legacy (pp_floats pp)\<rparr>) candidate) (\<lambda>listening_after.
          if proj_fingerprint before \<noteq> proj_fingerprint after \<or> proj_legacy before \<noteq> proj_legacy after
              \<or> listening_before \<noteq> listening_after
          then Inl ProjectionMismatch
          else Inr (Some \<lparr>plan_candidate = candidate, pruned_engagement_operations = fst pruned,
                pruned_listening_operations = snd pruned\<rparr>))))"

definition build_candidate ::
    "'w projection_params \<Rightarrow> preset_rules \<Rightarrow> 'w full_rules \<Rightarrow> 'w full_state \<Rightarrow> int \<Rightarrow> nat \<times> nat
      \<Rightarrow> compaction_checkpoint \<Rightarrow> 'w compaction_plan option outcome run" where
  "build_candidate pp pr rules st now_unix pruned checkpoint =
     (case project_at pp (full_rules pp pr rules) st now_unix of
        None \<Rightarrow> None
      | Some (Inl err) \<Rightarrow> Some (Inl err)
      | Some (Inr before) \<Rightarrow>
          (case from_ledger pr (rules\<lparr>check_baseline := validate_legacy (pp_floats pp)\<rparr>) st of
             Inl err \<Rightarrow> Some (Inl err)
           | Inr listening_before \<Rightarrow>
               (case normalize_state (full_rules pp pr rules) (compaction_candidate st now_unix checkpoint) of
                  Inl err \<Rightarrow> Some (Inl err)
                | Inr candidate \<Rightarrow>
                    compare_projections pp pr rules candidate now_unix before listening_before pruned)))"

definition plan_checkpoint ::
    "'w full_rules \<Rightarrow> 'w full_state \<Rightarrow> int \<Rightarrow> u64 \<Rightarrow> compaction_checkpoint outcome" where
  "plan_checkpoint rules st now_unix generation =
     (let retained = id_set_of (retained_engagement_operation_ids (ps_operations st) now_unix);
          retained_listening = retained_listening_operation_ids (ps_operations st);
          previous = map_option checkpoint_id (ps_checkpoint st)
      in bind_ok (checkpoint_id_for rules (dataset_id st) generation (ps_version_vector st) previous retained
             retained_listening (ps_operations st)) (\<lambda>h.
           Inr \<lparr>checkpoint_id = h, compaction_generation = generation, coverage = ps_version_vector st,
             previous_checkpoint_hash = previous, retained_engagement_operations = retained,
             retained_listening_operations = retained_listening, leader_authorization = None, acknowledged_by = []\<rparr>))"

definition plan_engagement_compaction ::
    "'w projection_params \<Rightarrow> preset_rules \<Rightarrow> 'w full_rules \<Rightarrow> 'w full_state \<Rightarrow> device_id \<Rightarrow> int \<Rightarrow> bool
      \<Rightarrow> 'w compaction_plan option outcome run" where
  "plan_engagement_compaction pp pr rules st local_device_id now_unix prior_compaction_has_quorum =
     (case validate_state (full_rules pp pr rules) st of
        Inl err \<Rightarrow> Some (Inl err)
      | Inr _ \<Rightarrow>
     (case engagement_compaction_leader st of
        None \<Rightarrow> Some (Inl (InvalidOperation ''personal state has no active compaction leader''))
      | Some leader \<Rightarrow>
     if leader \<noteq> local_device_id
     then Some (Inl (InvalidOperation ''only the lowest active device may compact personal state''))
     else if ps_checkpoint st \<noteq> None \<and> \<not> prior_compaction_has_quorum then Some (Inr None)
     else
       let ops = ps_operations st;
           pruned_engagement = length (filter (\<lambda>e. \<not> keeps_engagement ops now_unix e) ops);
           pruned_listening = length (filter (\<lambda>e. \<not> keeps_listening ops e) ops)
       in if pruned_engagement = 0 \<and> pruned_listening = 0 then Some (Inr None)
          else (case bind_ok (next_revision st) (\<lambda>_. bind_ok (next_generation (ps_checkpoint st))
                  (plan_checkpoint (full_rules pp pr rules) st now_unix)) of
             Inl err \<Rightarrow> Some (Inl err)
           | Inr checkpoint \<Rightarrow> build_candidate pp pr rules st now_unix (pruned_engagement, pruned_listening) checkpoint)))"

section \<open>The winners of the events\<close>

definition enveloped :: "(ustring \<times> ('b, 'l) engagement_event) list \<Rightarrow> (ustring \<times> ('b, 'l) operation_envelope) list" where
  "enveloped = map (map_prod id ev_envelope)"

lemma om_insert_map: "map (map_prod id f) (om_insert k v m) = om_insert k (f v) (map (map_prod id f) m)"
  by (induction k v m rule: om_insert.induct) auto

lemma om_get_map: "om_get (map (map_prod id f) m) k = map_option f (om_get m k)"
  by (induction m) (auto simp: om_get_def)

lemma enveloped_step: "enveloped (rg_events (apply_envelope hash rg e)) = note_winner (enveloped (rg_events rg)) e"
  by (cases "operation e")
    (auto simp: apply_envelope_def note_winner_def enveloped_def om_insert_map om_get_map Let_def split: option.split)

lemma events_are_winners: "enveloped (rg_events (fold_ledger hash ops)) = engagement_winners ops"
proof -
  have "enveloped (rg_events (foldl (apply_envelope hash) rg ops)) = foldl note_winner (enveloped (rg_events rg)) ops" for rg
    by (induction ops arbitrary: rg) (simp_all add: enveloped_step)
  moreover have "rg_events (case winning_baseline ops of None \<Rightarrow> registers_empty | Some (e, b) \<Rightarrow> baseline_registers e b) = []"
    by (simp add: registers_empty_def baseline_registers_def split: option.split)
  ultimately show ?thesis by (simp add: fold_ledger_def engagement_winners_def enveloped_def)
qed

text \<open>The reducer and the compaction agree on every event.  The operation the reducer keeps for an event id
  is the operation the compaction picks for it, although the two look for it in separate loops.\<close>

theorem reducer_and_compaction_agree: "enveloped (rg_events (fold_ledger hash ops)) = engagement_winners ops"
  by (rule events_are_winners)

text \<open>An event is determined by its operation.\<close>

definition event_from :: "('b, 'l) operation_envelope \<Rightarrow> ('b, 'l) engagement_event" where
  "event_from e = (case operation e of RecordEngagement i t kind p n a \<Rightarrow>
     \<lparr>ev_envelope = e, ev_event_id = i, ev_track = t, ev_kind = kind, ev_played_ms = p, ev_total_ms = n, ev_artist_key = a\<rparr>)"

lemma event_of_from: "event_of i ev \<Longrightarrow> ev = event_from (ev_envelope ev)"
  by (cases ev) (simp add: event_of_def event_from_def)

lemma fold_ledger_events: "map snd (rg_events (fold_ledger hash ops)) = map (event_from \<circ> snd) (engagement_winners ops)"
proof -
  have "map snd (rg_events (fold_ledger hash ops)) = map (event_from \<circ> snd) (enveloped (rg_events (fold_ledger hash ops)))"
    using registers_fold_ok [of hash ops]
    by (auto simp: enveloped_def registers_ok_def dest!: om_all_set [of event_of] event_of_from)
  then show ?thesis by (simp only: events_are_winners)
qed

lemma note_winner_get: "om_get (note_winner m e) i = (case operation e of
    RecordEngagement j _ _ _ _ _ \<Rightarrow> if j = i \<and> replaces_event e (om_get m i) then Some e else om_get m i
  | _ \<Rightarrow> om_get m i)"
  by (auto simp: note_winner_def om_get_insert split: operation.split)

fun records :: "ustring \<Rightarrow> ('b, 'l) operation \<Rightarrow> bool" where
  "records i (RecordEngagement j _ _ _ _ _) \<longleftrightarrow> j = i"
| "records i _ \<longleftrightarrow> False"

definition contend :: "('b, 'l) operation_envelope option \<Rightarrow> ('b, 'l) operation_envelope \<Rightarrow> ('b, 'l) operation_envelope option" where
  "contend w e = (if replaces_event e w then Some e else w)"

lemma winners_get: "om_get (engagement_winners ops) i = foldl contend None (filter (\<lambda>e. records i (operation e)) ops)"
proof -
  have "om_get (foldl note_winner m ops) i = foldl contend (om_get m i) (filter (\<lambda>e. records i (operation e)) ops)" for m
    by (induction ops arbitrary: m) (auto simp: note_winner_get contend_def split: operation.split)
  then show ?thesis by (simp add: engagement_winners_def)
qed

lemma winners_wf: "om_wf (engagement_winners ops)"
proof -
  have "om_wf m \<Longrightarrow> om_wf (foldl note_winner m ops)" for m
    by (induction ops arbitrary: m) (auto simp: note_winner_def om_insert_wf split: operation.split)
  then show ?thesis by (simp add: engagement_winners_def)
qed

lemma contend_in: "foldl contend w es = Some e \<Longrightarrow> w = Some e \<or> e \<in> set es"
  by (induction es arbitrary: w) (fastforce simp: contend_def split: if_splits)+

lemma winner_records: "(i, e) \<in> set (engagement_winners ops) \<Longrightarrow> e \<in> set ops \<and> records i (operation e)"
  using contend_in [of None "filter (\<lambda>e. records i (operation e)) ops" e]
  by (auto simp: om_get_iff [OF winners_wf, symmetric] winners_get)

lemma records_unique: "records i op \<Longrightarrow> records j op \<Longrightarrow> i = j"
  by (cases op) auto

lemma records_engagement: "is_engagement op \<longleftrightarrow> (\<exists>i. records i op)"
  by (cases op) auto

text \<open>Different winners have different operation ids.\<close>

lemma winners_ids: "ids_apart (set ops) \<Longrightarrow> distinct (map (operation_id \<circ> snd) (engagement_winners ops))"
proof -
  assume ia: "ids_apart (set ops)"
  have "x = y" if "x \<in> set (engagement_winners ops)" "y \<in> set (engagement_winners ops)"
    "operation_id (snd x) = operation_id (snd y)" for x y
  proof -
    have "snd x \<in> set ops" "snd y \<in> set ops" "records (fst x) (operation (snd x))" "records (fst y) (operation (snd y))"
      using that(1,2) winner_records by (metis prod.collapse)+
    moreover have "snd x = snd y" using ia that(3) calculation(1,2) by (simp add: ids_apart_def)
    ultimately show ?thesis using records_unique by (metis prod_eqI)
  qed
  then have "inj_on (operation_id \<circ> snd) (set (engagement_winners ops))" by (intro inj_onI) simp
  moreover have "distinct (engagement_winners ops)"
    using om_wf_distinct [OF winners_wf [of ops]] by (simp add: distinct_map)
  ultimately show ?thesis by (simp add: distinct_map)
qed

section \<open>The retained events\<close>

definition retained_winners :: "('b, 'l) operation_envelope list \<Rightarrow> int \<Rightarrow> (ustring \<times> ('b, 'l) operation_envelope) list" where
  "retained_winners ops now_unix = take ENGAGEMENT_EVENTS_MAX (sort_key latest_first (filter (\<lambda>(_, e).
     recorded_at_unix (op_stamp e) = 0 \<or> recorded_at_unix (op_stamp e) \<ge> saturating_i64_sub now_unix RAW_EVENT_RETENTION_SECS)
     (engagement_winners ops)))"

lemma retained_ids: "retained_engagement_operation_ids ops now_unix = map (operation_id \<circ> snd) (rev (retained_winners ops now_unix))"
  by (simp add: retained_engagement_operation_ids_def retained_winners_def Let_def split_def o_def)

lemma retained_winners_sub: "set (retained_winners ops now_unix) \<subseteq> set (engagement_winners ops)"
  unfolding retained_winners_def using mset_take_sort by fastforce

lemma retained_winners_distinct: "ids_apart (set ops) \<Longrightarrow> distinct (map (operation_id \<circ> snd) (retained_winners ops now_unix))"
proof -
  assume "ids_apart (set ops)"
  then have "distinct (map (operation_id \<circ> snd) (sort_key latest_first (filter P (engagement_winners ops))))" for P
    by (intro distinct_map_sort distinct_map_filter winners_ids)
  then show ?thesis unfolding retained_winners_def take_map [symmetric] by (intro distinct_take)
qed

lemma take_events_all:
  "distinct is \<Longrightarrow> (\<And>i. i \<in> set is \<Longrightarrow> m i \<noteq> None) \<Longrightarrow> take_events m is = map (the \<circ> m) is"
proof (induction "is" arbitrary: m)
  case (Cons i "is")
  then obtain ev where ev: "m i = Some ev" by fastforce
  have "take_events (m(i := None)) is = map (the \<circ> m(i := None)) is" using Cons by (intro Cons.IH) auto
  also have "\<dots> = map (the \<circ> m) is" using Cons.prems(1) by auto
  finally show ?case by (simp add: ev)
qed simp

lemma foldl_map_upd: "distinct (map k xs) \<Longrightarrow> x \<in> set xs \<Longrightarrow> foldl (\<lambda>m x. m(k x \<mapsto> x)) m xs (k x) = Some x"
proof (induction xs rule: rev_induct)
  case (snoc y xs)
  then show ?case by (cases "x = y") (auto simp: image_iff)
qed simp

text \<open>The events the projection counts are those of the retained operations, in their order.\<close>

lemma retained_events_winners:
  assumes "ids_apart (set ops)"
  shows "retained_events (map snd (rg_events (fold_ledger hash ops))) (retained_engagement_operation_ids ops now_unix)
    = map (event_from \<circ> snd) (rev (retained_winners ops now_unix))"
proof -
  let ?k = "\<lambda>ev. operation_id (ev_envelope ev)" and ?evs = "map (event_from \<circ> snd) (engagement_winners ops)"
  let ?m = "foldl (\<lambda>m ev. m(?k ev \<mapsto> ev)) Map.empty ?evs"
  have env: "ev_envelope (event_from (snd x)) = snd x" if "x \<in> set (engagement_winners ops)" for x
    using winner_records [of "fst x" "snd x"] that by (cases "operation (snd x)") (auto simp: event_from_def)
  then have "map ?k ?evs = map (operation_id \<circ> snd) (engagement_winners ops)" by simp
  then have dist: "distinct (map ?k ?evs)" using winners_ids [OF assms] by (simp only:)
  have get: "?m (operation_id (snd x)) = Some (event_from (snd x))" if "x \<in> set (retained_winners ops now_unix)" for x
  proof -
    have x: "x \<in> set (engagement_winners ops)" using that retained_winners_sub by blast
    then have "event_from (snd x) \<in> set ?evs" by simp
    then have "?m (?k (event_from (snd x))) = Some (event_from (snd x))" by (rule foldl_map_upd [OF dist])
    then show ?thesis by (simp only: env [OF x])
  qed
  have "distinct (map (operation_id \<circ> snd) (rev (retained_winners ops now_unix)))"
    by (simp only: rev_map [symmetric] distinct_rev retained_winners_distinct [OF assms])
  moreover have "?m i \<noteq> None" if i: "i \<in> set (map (operation_id \<circ> snd) (rev (retained_winners ops now_unix)))" for i
  proof -
    obtain x where "x \<in> set (retained_winners ops now_unix)" "i = operation_id (snd x)" using i by auto
    then show ?thesis using get by (simp only: option.distinct not_False_eq_True)
  qed
  ultimately have "take_events ?m (map (operation_id \<circ> snd) (rev (retained_winners ops now_unix)))
      = map (the \<circ> ?m) (map (operation_id \<circ> snd) (rev (retained_winners ops now_unix)))"
    by (rule take_events_all)
  also have "\<dots> = map (event_from \<circ> snd) (rev (retained_winners ops now_unix))" using get by simp
  finally show ?thesis by (simp only: retained_events_def fold_ledger_events retained_ids)
qed

section \<open>Pruning events\<close>

text \<open>A filter that keeps exactly the retained events.\<close>

definition prunes_events :: "(('b, 'l) operation_envelope \<Rightarrow> bool) \<Rightarrow> int \<Rightarrow> ('b, 'l) operation_envelope list \<Rightarrow> bool" where
  "prunes_events Q now_unix ops \<longleftrightarrow> (\<forall>e \<in> set ops. is_engagement (operation e) \<longrightarrow>
     (Q e \<longleftrightarrow> operation_id e \<in> set (retained_engagement_operation_ids ops now_unix)))"

lemma retained_id_winner: "i \<in> set (retained_engagement_operation_ids ops now_unix) \<Longrightarrow>
    \<exists>j w. (j, w) \<in> set (retained_winners ops now_unix) \<and> (j, w) \<in> set (engagement_winners ops) \<and> operation_id w = i"
  using retained_winners_sub [of ops now_unix] by (force simp: retained_ids)

lemma distinct_singleton: "distinct xs \<Longrightarrow> set xs \<subseteq> {w} \<Longrightarrow> xs = [] \<or> xs = [w]"
  by (cases xs; cases "tl xs") auto

lemma singleton_if: "xs = [] \<or> xs = [w] \<Longrightarrow> w \<in> set xs \<longleftrightarrow> R \<Longrightarrow> xs = (if R then [w] else [])"
  by auto

lemma pruned_contenders:
  assumes "distinct ops" "ids_apart (set ops)" "prunes_events Q now_unix ops"
  shows "filter (\<lambda>e. records i (operation e)) (filter Q ops) = (case om_get (engagement_winners ops) i of
      None \<Rightarrow> []
    | Some w \<Rightarrow> if operation_id w \<in> set (retained_engagement_operation_ids ops now_unix) then [w] else [])"
proof -
  let ?es = "filter (\<lambda>e. records i (operation e)) (filter Q ops)"
  have only: "om_get (engagement_winners ops) i = Some x
      \<and> operation_id x \<in> set (retained_engagement_operation_ids ops now_unix)" if "x \<in> set ?es" for x
  proof -
    have x: "x \<in> set ops" "records i (operation x)" "Q x" using that by auto
    then have ret: "operation_id x \<in> set (retained_engagement_operation_ids ops now_unix)"
      using assms(3) records_engagement unfolding prunes_events_def by blast
    obtain j w where w: "(j, w) \<in> set (engagement_winners ops)" "operation_id w = operation_id x"
      using retained_id_winner [OF ret] by blast
    then have "w = x" using winner_records [OF w(1)] x(1) assms(2) by (simp add: ids_apart_def)
    moreover have "j = i" using winner_records [OF w(1)] x(2) records_unique calculation by blast
    ultimately show ?thesis using w(1) ret by (simp add: om_get_iff [OF winners_wf])
  qed
  show ?thesis
  proof (cases "om_get (engagement_winners ops) i")
    case None
    then have "\<And>x. x \<notin> set ?es" using only by fastforce
    then have "?es = []" using list.set_intros(1) by (metis neq_Nil_conv)
    then show ?thesis using None by simp
  next
    case (Some w)
    then have sub: "set ?es \<subseteq> {w}" using only by auto
    have w: "w \<in> set ops" "records i (operation w)"
      using winner_records [of i w] Some by (simp_all add: om_get_iff [OF winners_wf, symmetric])
    then have "w \<in> set ?es \<longleftrightarrow> operation_id w \<in> set (retained_engagement_operation_ids ops now_unix)"
      using assms(3) records_engagement by (auto simp: prunes_events_def)
    moreover have "?es = [] \<or> ?es = [w]" using assms(1) by (intro distinct_singleton sub) simp
    ultimately show ?thesis unfolding Some option.case by (intro singleton_if)
  qed
qed

lemma pruned_winners:
  assumes "distinct ops" "ids_apart (set ops)" "prunes_events Q now_unix ops"
  shows "engagement_winners (filter Q ops) = filter (\<lambda>x. operation_id (snd x)
    \<in> set (retained_engagement_operation_ids ops now_unix)) (engagement_winners ops)"
proof (rule om_ext_get [OF winners_wf om_wf_filter [OF winners_wf]])
  fix i e
  have "om_get (engagement_winners (filter Q ops)) i = foldl contend None (filter (\<lambda>e. records i (operation e)) (filter Q ops))"
    by (rule winners_get)
  also have "\<dots> = (case om_get (engagement_winners ops) i of None \<Rightarrow> None
      | Some w \<Rightarrow> if operation_id w \<in> set (retained_engagement_operation_ids ops now_unix) then Some w else None)"
    unfolding pruned_contenders [OF assms] by (simp add: contend_def replaces_event_def split: option.split)
  finally show "om_get (engagement_winners (filter Q ops)) i = Some e \<longleftrightarrow> om_get (filter (\<lambda>x. operation_id (snd x)
      \<in> set (retained_engagement_operation_ids ops now_unix)) (engagement_winners ops)) i = Some e"
    by (simp only: om_get_filter [OF winners_wf, of "\<lambda>e. operation_id e \<in> set (retained_engagement_operation_ids ops now_unix)"])
qed

lemma filter_take: "distinct xs \<Longrightarrow> filter (\<lambda>x. x \<in> set (take n xs)) xs = take n xs"
proof -
  assume "distinct xs"
  then have "set (take n xs) \<inter> set (drop n xs) = {}" by (simp add: set_take_disj_set_drop_if_distinct)
  then have "filter (\<lambda>x. x \<in> set (take n xs)) (drop n xs) = []" by (auto simp: filter_empty_conv)
  moreover have "filter (\<lambda>x. x \<in> set (take n xs)) (take n xs) = take n xs" by (simp add: filter_id_conv)
  ultimately show ?thesis by (metis append_Nil2 append_take_drop_id filter_append)
qed

lemma pruned_retained_winners:
  assumes "distinct ops" "ids_apart (set ops)" "prunes_events Q now_unix ops"
  shows "retained_winners (filter Q ops) now_unix = retained_winners ops now_unix"
proof -
  define F where "F = (\<lambda>x :: ustring \<times> ('a, 'b) operation_envelope. recorded_at_unix (op_stamp (snd x)) = 0
    \<or> recorded_at_unix (op_stamp (snd x)) \<ge> saturating_i64_sub now_unix RAW_EVENT_RETENTION_SECS)"
  define S where "S = sort_key latest_first (filter F (engagement_winners ops))"
  let ?ids = "set (retained_engagement_operation_ids ops now_unix)"
  have T: "retained_winners ops now_unix = take ENGAGEMENT_EVENTS_MAX S"
    by (simp add: retained_winners_def S_def F_def split_def)
  have inj: "x = y" if "x \<in> set (engagement_winners ops)" "y \<in> set (engagement_winners ops)"
    "operation_id (snd x) = operation_id (snd y)" for x y
  proof -
    have "inj_on (operation_id \<circ> snd) (set (engagement_winners ops))" using winners_ids [OF assms(2)] by (simp add: distinct_map)
    then show ?thesis by (rule inj_onD) (simp_all add: that)
  qed
  have "distinct S" unfolding S_def using winners_ids [OF assms(2)] by (simp add: distinct_map)
  have "operation_id (snd x) \<in> ?ids \<longleftrightarrow> x \<in> set (take ENGAGEMENT_EVENTS_MAX S)" if x: "x \<in> set S" for x
  proof
    assume "operation_id (snd x) \<in> ?ids"
    then obtain j w where "(j, w) \<in> set (retained_winners ops now_unix)" "(j, w) \<in> set (engagement_winners ops)"
      "operation_id w = operation_id (snd x)" using retained_id_winner by blast
    moreover have "x \<in> set (engagement_winners ops)" using x by (simp add: S_def)
    ultimately have "x = (j, w)" using inj [of x "(j, w)"] by simp
    then show "x \<in> set (take ENGAGEMENT_EVENTS_MAX S)" using \<open>(j, w) \<in> set (retained_winners ops now_unix)\<close> by (simp add: T)
  next
    assume "x \<in> set (take ENGAGEMENT_EVENTS_MAX S)"
    then show "operation_id (snd x) \<in> ?ids" by (simp add: retained_ids T)
  qed
  then have "filter (\<lambda>x. operation_id (snd x) \<in> ?ids) S = filter (\<lambda>x. x \<in> set (take ENGAGEMENT_EVENTS_MAX S)) S"
    by (intro filter_cong) auto
  also have "\<dots> = take ENGAGEMENT_EVENTS_MAX S" by (rule filter_take [OF \<open>distinct S\<close>])
  finally have kept: "filter (\<lambda>x. operation_id (snd x) \<in> ?ids) S = take ENGAGEMENT_EVENTS_MAX S" .
  have "retained_winners (filter Q ops) now_unix
      = take ENGAGEMENT_EVENTS_MAX (sort_key latest_first (filter F (filter (\<lambda>x. operation_id (snd x) \<in> ?ids) (engagement_winners ops))))"
    by (simp add: retained_winners_def F_def split_def pruned_winners [OF assms])
  also have "filter F (filter (\<lambda>x. operation_id (snd x) \<in> ?ids) (engagement_winners ops))
      = filter (\<lambda>x. operation_id (snd x) \<in> ?ids) (filter F (engagement_winners ops))"
    by (simp add: conj_commute)
  also have "sort_key latest_first \<dots> = filter (\<lambda>x. operation_id (snd x) \<in> ?ids) S"
    by (simp only: S_def filter_sort)
  finally show ?thesis by (simp only: kept T take_take min.idem)
qed

lemma pruned_retained_events:
  assumes "distinct ops" "ids_apart (set ops)" "prunes_events Q now_unix ops"
  shows "retained_events (map snd (rg_events (fold_ledger hash (filter Q ops)))) (retained_engagement_operation_ids (filter Q ops) now_unix)
    = retained_events (map snd (rg_events (fold_ledger hash ops))) (retained_engagement_operation_ids ops now_unix)"
proof -
  have "ids_apart (set (filter Q ops))" using assms(2) by (rule ids_apart_subset) auto
  then show ?thesis
    using retained_events_winners [of "filter Q ops" hash now_unix] retained_events_winners [OF assms(2), of hash now_unix]
    by (simp add: pruned_retained_winners [OF assms])
qed

end
