(* ===== verification/CompactionSound.thy ===== *)
theory CompactionSound
  imports CompactionPlan
begin

text \<open>
  Compaction is sound: dropping the operations the plan drops changes no register but the events that no
  longer count, the candidate passes the validation of a state with its new checkpoint, and both projections
  of the candidate are those of the state.  So \<open>plan_engagement_compaction\<close> never answers
  \<open>ProjectionMismatch\<close>.
\<close>

section \<open>Operations no register looks at\<close>

definition ephemeral :: "('b, 'l) operation_envelope \<Rightarrow> bool" where
  "ephemeral e \<longleftrightarrow> is_engagement (operation e) \<or> is_listening (operation e)"

definition without_events :: "('b, 'l) registers \<Rightarrow> ('b, 'l) registers" where
  "without_events rg = rg\<lparr>rg_events := []\<rparr>"

lemma apply_without_events: "without_events (apply_envelope hash rg e)
    = (if ephemeral e then without_events rg else apply_envelope hash (without_events rg) e)"
  by (cases "operation e")
    (simp_all add: apply_envelope_def ephemeral_def without_events_def Let_def split: option.split)

lemma fold_without_events:
  "(\<And>e. e \<in> set ops \<Longrightarrow> \<not> Q e \<Longrightarrow> ephemeral e) \<Longrightarrow> without_events rg = without_events rg' \<Longrightarrow>
    without_events (foldl (apply_envelope hash) rg (filter Q ops)) = without_events (foldl (apply_envelope hash) rg' ops)"
proof (induction ops arbitrary: rg rg')
  case (Cons e ops)
  show ?case
  proof (cases "Q e")
    case True
    have "without_events (apply_envelope hash rg e) = without_events (apply_envelope hash rg' e)"
      using Cons.prems(2) by (simp add: apply_without_events)
    then show ?thesis using True Cons by simp
  next
    case False
    then have "without_events rg = without_events (apply_envelope hash rg' e)"
      using Cons.prems by (simp add: apply_without_events)
    then show ?thesis using False Cons.IH [of rg "apply_envelope hash rg' e"] Cons.prems(1) by simp
  qed
qed simp

lemma foldl_skip: "(\<And>s e. e \<in> set es \<Longrightarrow> \<not> Q e \<Longrightarrow> f s e = s) \<Longrightarrow> foldl f s (filter Q es) = foldl f s es"
  by (induction es arbitrary: s) simp_all

lemma winning_baseline_skip:
  assumes "\<And>e. e \<in> set ops \<Longrightarrow> \<not> Q e \<Longrightarrow> ephemeral e"
  shows "winning_baseline (filter Q ops) = winning_baseline ops"
  unfolding winning_baseline_def
proof (rule foldl_skip)
  fix w e assume "e \<in> set ops" "\<not> Q e"
  then have "ephemeral e" by (rule assms)
  then show "(case operation e of LegacyBaseline b \<Rightarrow> if replaces_event e (map_option fst w) then Some (e, b) else w | _ \<Rightarrow> w) = w"
    by (cases "operation e") (auto simp: ephemeral_def)
qed

lemma fold_ledger_skip:
  assumes "\<And>e. e \<in> set ops \<Longrightarrow> \<not> Q e \<Longrightarrow> ephemeral e"
  shows "without_events (fold_ledger hash (filter Q ops)) = without_events (fold_ledger hash ops)"
proof -
  have "winning_baseline (filter Q ops) = winning_baseline ops" using assms by (rule winning_baseline_skip)
  then show ?thesis unfolding fold_ledger_def using fold_without_events [of ops Q, OF assms refl] by simp
qed

lemma base_of_skip: "(\<And>e. e \<in> set ops \<Longrightarrow> \<not> Q e \<Longrightarrow> ephemeral e) \<Longrightarrow> base_of (filter Q ops) = base_of ops"
  by (simp add: base_of_def winning_baseline_skip)

lemma registry_skip:
  assumes "\<And>e. e \<in> set ops \<Longrightarrow> \<not> Q e \<Longrightarrow> ephemeral e"
  shows "derive_device_registry check (filter Q ops) = derive_device_registry check ops"
proof -
  have "registry_loop check (filter Q ops) acc = registry_loop check ops acc" for acc
    using assms
  proof (induction ops arbitrary: acc)
    case (Cons e ops)
    have IH: "registry_loop check (filter Q ops) = registry_loop check ops" using Cons by (intro ext) simp
    show ?case
    proof (cases "Q e")
      case True
      then show ?thesis by (simp add: IH)
    next
      case False
      then have "registry_step check (operation e) acc = Inr acc"
        using Cons.prems [of e] by (cases "operation e") (auto simp: registry_step_def ephemeral_def split: prod.split)
      then show ?thesis using False by (simp add: IH)
    qed
  qed simp
  then show ?thesis by (simp add: derive_device_registry_def)
qed

lemma projected_legacy_cong:
  assumes "without_events rg = without_events rg'"
    "retained_events (map snd (rg_events rg)) ids = retained_events (map snd (rg_events rg')) ids'"
  shows "projected_legacy pp base rg ids = projected_legacy pp base rg' ids'"
proof -
  have "rg_ratings rg = rg_ratings rg'" "rg_radio rg = rg_radio rg'" "rg_playlists rg = rg_playlists rg'"
    "rg_station rg = rg_station rg'" "rg_avoided rg = rg_avoided rg'" "rg_bindings rg = rg_bindings rg'"
    using assms(1) by (cases rg; cases rg'; simp add: without_events_def)+
  then show ?thesis using assms(2) by (simp add: projected_legacy_def projected_station_def)
qed

lemma pruned_legacy:
  assumes "distinct ops" "ids_apart (set ops)" "prunes_events Q now_unix ops"
    "\<And>e. e \<in> set ops \<Longrightarrow> \<not> Q e \<Longrightarrow> ephemeral e"
  shows "projected_legacy pp (base_of (filter Q ops)) (fold_ledger hash (filter Q ops))
      (retained_engagement_operation_ids (filter Q ops) now_unix)
    = projected_legacy pp (base_of ops) (fold_ledger hash ops) (retained_engagement_operation_ids ops now_unix)"
  using projected_legacy_cong [OF fold_ledger_skip [OF assms(4)] pruned_retained_events [OF assms(1-3)]]
  by (simp add: base_of_skip [OF assms(4)])

section \<open>The retained listening operations exist\<close>

definition listening_ids :: "'b l_envelope list \<Rightarrow> ustring set" where
  "listening_ids ops = operation_id ` {e \<in> set ops. is_listening (operation e)}"

lemma listening_idI: "e \<in> set ops \<Longrightarrow> operation e = Listening c \<Longrightarrow> operation_id e \<in> listening_ids ops"
  by (auto simp: listening_ids_def)

lemma keep_frontier_sub: "set (foldl keep_frontier fs es) \<subseteq> set fs \<union> set es"
proof (induction es arbitrary: fs)
  case (Cons e es)
  have "set (keep_frontier fs e) \<subseteq> insert e (set fs)" by (auto simp: keep_frontier_def)
  then show ?case using Cons.IH [of "keep_frontier fs e"] by auto
qed simp

lemma sort_key_nonempty: "xs \<noteq> [] \<Longrightarrow> sort_key f xs \<noteq> []"
  by (metis length_0_conv length_sort)

lemma find_in: "find P xs = Some x \<Longrightarrow> x \<in> set xs"
  by (induction xs) (auto split: if_splits)

lemma picks_sub: "S \<noteq> [] \<Longrightarrow> Some x \<in> set (picks S) \<Longrightarrow> x \<in> set S"
  using min_by_key_spec [of S "\<lambda>(_, v). vis_first v"] max_by_key_spec [of S "\<lambda>(_, v). vis_last v"]
  by (auto simp: picks_def dest: find_in [OF sym])

lemma station_aggregates_sub: "set (station_aggregates g s visits) \<subseteq> operation_id ` fst ` set visits"
proof (cases "filter (\<lambda>(e, _). list_all (happens_after (op_stamp e)) (g @ s)) visits = []")
  case False
  let ?S = "sort_key (\<lambda>(e, _). envelope_key e) (filter (\<lambda>(e, _). list_all (happens_after (op_stamp e)) (g @ s)) visits)"
  have ne: "?S \<noteq> []" using False by (rule sort_key_nonempty)
  have sub: "set ?S \<subseteq> set visits" by auto
  note in_S = picks_sub [OF ne]
  have "set (List.map_filter id (picks ?S)) \<subseteq> set visits"
  proof
    fix x assume "x \<in> set (List.map_filter id (picks ?S))"
    then have "Some x \<in> set (picks ?S)" by (auto simp: map_filter_def)
    then show "x \<in> set visits" using in_S sub by blast
  qed
  moreover have "station_aggregates g s visits = map (\<lambda>(e, _). operation_id e) (List.map_filter id (picks ?S))"
    unfolding station_aggregates_def picks_def Let_def using False by (simp only: if_False)
  ultimately show ?thesis by (force simp: split_def)
qed (simp add: station_aggregates_def)

lemma om_entry_rows: "om_wf m \<Longrightarrow> (k, rows) \<in> set m \<Longrightarrow> rows = rows_at m k"
  by (simp add: rows_at_def om_get_iff [symmetric])

lemma passport_aggregates_sub: "set (passport_visit_aggregates ops) \<subseteq> listening_ids ops"
proof -
  define t where "t = foldl tabulate_visit \<lparr>vt_global = [], vt_station = [], vt_visits = []\<rparr> ops"
  note inv = tables_invariant [of ops, folded t_def]
  have part: "set (station_aggregates g s visits) \<subseteq> listening_ids ops" if "(k, visits) \<in> set (vt_visits t)" for g s k visits
  proof -
    have "visits = rows_at (vt_visits t) k" using om_entry_rows that inv by blast
    then have "fst ` set visits \<subseteq> {e \<in> set ops. is_listening (operation e)}" using inv by auto
    then show ?thesis using station_aggregates_sub [of g s visits] unfolding listening_ids_def by blast
  qed
  show ?thesis
  proof
    fix x assume "x \<in> set (passport_visit_aggregates ops)"
    then obtain k visits where "(k, visits) \<in> set (vt_visits t)" "x \<in> set (station_aggregates (vt_global t)
        (case om_get (vt_station t) k of None \<Rightarrow> [] | Some stamps \<Rightarrow> stamps) visits)"
      by (auto simp: passport_visit_aggregates_def Let_def t_def [symmetric])
    then show "x \<in> listening_ids ops" using part by blast
  qed
qed

lemma retained_listening_sub: "set (retained_listening_operation_ids ops) \<subseteq> listening_ids ops"
proof -
  define g where "g = foldl group_operation \<lparr>lg_retained = [], lg_clears = [], lg_groups = []\<rparr> ops"
  note inv = groups_invariant [of ops, folded g_def]
  have "set (map operation_id (foldl keep_frontier [] (if cleared_by_passport key then es @ lg_clears g else es))) \<subseteq> listening_ids ops"
    if "(key, es) \<in> set (lg_groups g)" for key es
  proof -
    have "es = rows_at (lg_groups g) key" using om_entry_rows that inv by blast
    then have "set es \<subseteq> {e \<in> set ops. is_listening (operation e)}" "set (lg_clears g) \<subseteq> {e \<in> set ops. is_listening (operation e)}"
      using inv by auto
    then show ?thesis using keep_frontier_sub [of "[]" "if cleared_by_passport key then es @ lg_clears g else es"]
      by (auto simp: listening_ids_def split: if_splits)
  qed
  moreover have "set (lg_retained g) \<subseteq> listening_ids ops" using inv by (auto simp: listening_ids_def)
  ultimately show ?thesis using passport_aggregates_sub [of ops]
    by (auto simp: retained_listening_operation_ids_def Let_def g_def [symmetric] split: if_splits)
qed

section \<open>The digest\<close>

text \<open>\<open>sha256_hex\<close> gives 64 lower-case hexadecimal digits and serialising the material of a checkpoint never
  fails; nor does serialising the runtime stores for the fingerprint.\<close>

definition digest_law :: "('b, 'l) rules \<Rightarrow> bool" where
  "digest_law rules \<longleftrightarrow> (\<forall>dataset g cover previous es ls ops. \<exists>h.
     checkpoint_hash rules dataset g cover previous es ls ops = Inr h \<and> valid_hash h)"

definition fingerprint_law :: "'w projection_params \<Rightarrow> bool" where
  "fingerprint_law pp \<longleftrightarrow> (\<forall>legacy. \<exists>h. pp_fingerprint pp legacy = Inr h)"

lemma hex_digits: "list_all (\<lambda>c. (48 \<le> c \<and> c \<le> 57) \<or> (97 \<le> c \<and> c \<le> 102)) h \<Longrightarrow>
    byte_len h = length h \<and> trimmed h \<and> \<not> list_ex forbidden_char h"
proof -
  assume hex: "list_all (\<lambda>c. (48 \<le> c \<and> c \<le> 57) \<or> (97 \<le> c \<and> c \<le> 102)) h"
  then have digit: "(48 \<le> c \<and> c \<le> 57) \<or> (97 \<le> c \<and> c \<le> 102)" if "c \<in> set h" for c
    using that by (auto simp: list_all_iff)
  have "map utf8_len h = map (\<lambda>_. 1) h" by (rule map_cong [OF refl]) (use digit in \<open>force simp: utf8_len_def\<close>)
  then have "byte_len h = length h" unfolding byte_len_def by (simp only: sum_list_triv mult_1_right of_nat_id)
  moreover have "\<not> is_whitespace c \<and> \<not> forbidden_char c" if "c \<in> set h" for c
    using digit [OF that] by (auto simp: is_whitespace_def forbidden_char_def is_control_def)
  ultimately show ?thesis by (auto simp: trimmed_def list_ex_iff)
qed

lemma valid_hash_id: "valid_hash h \<Longrightarrow> 64 \<le> n \<Longrightarrow> validate_id field h n = Inr ()"
  using hex_digits [of h] by (auto simp: valid_hash_def validate_id_def trim_id)

section \<open>The candidate is valid\<close>

definition normalised :: "('b, 'l) personal_state \<Rightarrow> bool" where
  "normalised st \<longleftrightarrow> dedup_ids (sort_envelopes (ps_operations st)) = ps_operations st"

definition kept_by :: "'w full_state \<Rightarrow> int \<Rightarrow> ('w legacy_projection, listening_operation) operation_envelope \<Rightarrow> bool" where
  "kept_by st now_unix e \<longleftrightarrow> keeps_engagement (ps_operations st) now_unix e \<and> keeps_listening (ps_operations st) e"

lemma kept_by_ephemeral: "\<not> kept_by st now_unix e \<Longrightarrow> ephemeral e"
  by (auto simp: kept_by_def keeps_engagement_def keeps_listening_def ephemeral_def)

lemma kept_by_prunes: "prunes_events (kept_by st now_unix) now_unix (ps_operations st)"
proof -
  have "is_engagement op \<Longrightarrow> \<not> is_listening op" for op :: "('w legacy_projection, listening_operation) operation"
    by (cases op) auto
  then show ?thesis by (auto simp: prunes_events_def kept_by_def keeps_engagement_def keeps_listening_def)
qed

definition planned :: "'w full_rules \<Rightarrow> 'w full_state \<Rightarrow> int \<Rightarrow> compaction_checkpoint \<Rightarrow> bool" where
  "planned rules st now_unix cp \<longleftrightarrow> (\<exists>g. g \<noteq> 0 \<and> plan_checkpoint rules st now_unix g = Inr cp)"

lemma planned_fields:
  assumes "planned rules st now_unix cp"
  shows "compaction_generation cp \<noteq> 0" "coverage cp = ps_version_vector st" "leader_authorization cp = None"
    "acknowledged_by cp = []" "previous_checkpoint_hash cp = map_option checkpoint_id (ps_checkpoint st)"
    "retained_engagement_operations cp = id_set_of (retained_engagement_operation_ids (ps_operations st) now_unix)"
    "retained_listening_operations cp = retained_listening_operation_ids (ps_operations st)"
    "checkpoint_id_for rules (dataset_id st) (compaction_generation cp) (coverage cp) (previous_checkpoint_hash cp)
       (retained_engagement_operations cp) (retained_listening_operations cp) (ps_operations st) = Inr (checkpoint_id cp)"
  using assms by (auto simp: planned_def plan_checkpoint_def Let_def bind_ok_ok)

lemma candidate_fields [simp]:
  "ps_operations (compaction_candidate st now_unix cp) = filter (kept_by st now_unix) (ps_operations st)"
  "ps_checkpoint (compaction_candidate st now_unix cp) = Some cp"
  "dataset_id (compaction_candidate st now_unix cp) = dataset_id st"
  "ps_version_vector (compaction_candidate st now_unix cp) = ps_version_vector st"
  "ps_registry (compaction_candidate st now_unix cp) = ps_registry st"
  "schema_version (compaction_candidate st now_unix cp) = schema_version st"
  "ps_kind (compaction_candidate st now_unix cp) = ps_kind st"
  "ps_metadata (compaction_candidate st now_unix cp) = ps_metadata st"
  "ps_revision (compaction_candidate st now_unix cp) = ps_revision st"
  by (simp_all add: compaction_candidate_def kept_by_def [abs_def])

lemma id_set_length: "length (id_set_of ids) \<le> length ids"
  by (simp add: id_set_of_def length_remdups_leq)

lemma retained_engagement_length: "length (retained_engagement_operation_ids ops now_unix) \<le> ENGAGEMENT_EVENTS_MAX"
  by (simp add: retained_ids retained_winners_def)

lemma retained_listening_length: "length (retained_listening_operation_ids ops) \<le> length ops"
proof -
  have "distinct (retained_listening_operation_ids ops)"
    by (simp add: retained_listening_operation_ids_def id_set_of_def Let_def)
  then have "length (retained_listening_operation_ids ops) = card (set (retained_listening_operation_ids ops))"
    by (simp add: distinct_card)
  also have "\<dots> \<le> card (operation_id ` set ops)"
    using retained_listening_sub [of ops] by (intro card_mono) (auto simp: listening_ids_def)
  also have "\<dots> \<le> length ops" by (rule order_trans [OF card_image_le card_length]) simp
  finally show ?thesis .
qed

lemma header_facts: "check_header st = Inr () \<Longrightarrow> length (ps_operations st) \<le> MAX_OPERATIONS
    \<and> length (ps_version_vector st) \<le> MAX_DEVICES \<and> validate_version_vector (ps_version_vector st) = Inr ()"
  by (simp add: check_header_def checks_ok del: checks.simps)

lemma previous_hash_valid:
  "validate_state rules st = Inr () \<Longrightarrow> ps_checkpoint st = Some cp \<Longrightarrow> valid_hash (checkpoint_id cp)"
  using validate_state_ok [of rules st] by (simp add: validate_checkpoint_def checks_ok del: checks.simps)

lemma planned_hash_valid: "digest_law rules \<Longrightarrow> planned rules st now_unix cp \<Longrightarrow> valid_hash (checkpoint_id cp)"
  using planned_fields(8) [of rules st now_unix cp]
  by (auto simp: checkpoint_id_for_def digest_law_def) (metis sum.inject(2))

lemma candidate_shape:
  assumes "validate_state rules st = Inr ()" "digest_law rules" "planned rules st now_unix cp"
  shows "check_checkpoint_shape cp = Inr ()"
proof -
  have "validate_version_vector (ps_version_vector st) = Inr ()" "length (ps_version_vector st) \<le> MAX_DEVICES"
    using validate_state_ok [of rules st] assms(1) header_facts by blast+
  then show ?thesis
    using planned_fields [OF assms(3)] valid_hash_id [OF planned_hash_valid [OF assms(2,3)]]
      valid_hash_id [OF previous_hash_valid [OF assms(1)]]
    by (auto simp: check_checkpoint_shape_def checks_ok when_some_ok simp del: checks.simps)
qed

lemma candidate_checkpoint:
  assumes "validate_state rules st = Inr ()" "digest_law rules" "planned rules st now_unix cp" "om_wf (ps_version_vector st)"
  shows "validate_checkpoint rules (compaction_candidate st now_unix cp) cp = Inr ()"
proof -
  note v = assms(1) [unfolded validate_state_ok] and f = planned_fields [OF assms(3)]
  let ?ops = "ps_operations st" and ?kept = "filter (kept_by st now_unix) (ps_operations st)"
  have ia: "ids_apart (set ?ops)" using v consistent_ids_apart by blast
  then have ia': "ids_apart (set ?kept)" by (rule ids_apart_subset) auto
  have covered: "vv_covers (coverage cp) (dot_of e)" if "e \<in> set ?ops" for e using v that by (simp add: f(2))
  have by_kept: "om_get (by_id ?kept) i = Some e \<longleftrightarrow> e \<in> set ?kept \<and> operation_id e = i" for i e
    by (rule by_id_get [OF ia'])
  have "length (retained_engagement_operations cp) \<le> ENGAGEMENT_EVENTS_MAX"
    using id_set_length retained_engagement_length order_trans unfolding f(6) by blast
  moreover have "length (retained_listening_operations cp) \<le> MAX_OPERATIONS"
    using retained_listening_length [of ?ops] v header_facts order_trans unfolding f(7) by blast
  moreover have "vector_dominates (ps_version_vector st) (coverage cp)"
    by (simp add: f(2) vector_dominates_iff assms(4))
  moreover have "valid_hash (checkpoint_id cp)" by (rule planned_hash_valid [OF assms(2,3)])
  moreover have "case previous_checkpoint_hash cp of None \<Rightarrow> True | Some h \<Rightarrow> valid_hash h"
    using previous_hash_valid [OF assms(1)] by (auto simp: f(5) split: option.split)
  moreover have "retained_covered (coverage cp) (retained_engagement_operations cp) (retained_listening_operations cp) ?kept
      = retained_covered (coverage cp) (retained_engagement_operations cp) (retained_listening_operations cp) ?ops"
    unfolding retained_covered_def filter_filter
    by (intro arg_cong [where f = "\<lambda>xs. dedup_ids (sort_envelopes xs)"] filter_cong)
      (auto simp: kept_by_def keeps_engagement_def keeps_listening_def f(6,7))
  then have "checkpoint_id_for rules (dataset_id st) (compaction_generation cp) (coverage cp) (previous_checkpoint_hash cp)
      (retained_engagement_operations cp) (retained_listening_operations cp) ?kept = Inr (checkpoint_id cp)"
    using f(8) by (simp add: checkpoint_id_for_def)
  moreover have "check_retained is_engagement a b (coverage cp) (by_id ?kept) i = Inr ()"
    if "i \<in> set (retained_engagement_operations cp)" for a b i
  proof -
    have i: "i \<in> set (retained_engagement_operation_ids ?ops now_unix)" using that by (simp add: f(6))
    obtain j w where w: "(j, w) \<in> set (engagement_winners ?ops)" "operation_id w = i" using retained_id_winner [OF i] by blast
    then have "w \<in> set ?ops" "is_engagement (operation w)" using winner_records records_engagement by blast+
    moreover have "kept_by st now_unix w"
      using kept_by_prunes [of st now_unix] calculation i w(2) by (auto simp: prunes_events_def)
    ultimately have "om_get (by_id ?kept) i = Some w" using w(2) by (simp add: by_kept)
    then show ?thesis using \<open>is_engagement (operation w)\<close> covered [OF \<open>w \<in> set ?ops\<close>] by (simp add: check_retained_def)
  qed
  moreover have "check_retained is_listening a b (coverage cp) (by_id ?kept) i = Inr ()"
    if "i \<in> set (retained_listening_operations cp)" for a b i
  proof -
    have "i \<in> listening_ids ?ops" using retained_listening_sub [of ?ops] that unfolding f(7) by (rule subsetD)
    then obtain e where e: "e \<in> set ?ops" "is_listening (operation e)" "operation_id e = i"
      by (auto simp: listening_ids_def)
    then have "kept_by st now_unix e"
      using that by (cases "operation e") (auto simp: kept_by_def keeps_engagement_def keeps_listening_def f(7))
    then have "om_get (by_id ?kept) i = Some e" using e by (simp add: by_kept)
    then show ?thesis using e covered by (simp add: check_retained_def)
  qed
  moreover have "\<not> list_ex (resurrected is_engagement (retained_engagement_operations cp) (coverage cp)) ?kept"
    by (auto simp: list_ex_iff resurrected_def kept_by_def keeps_engagement_def f(6))
  moreover have "\<not> list_ex (resurrected is_listening (retained_listening_operations cp) (coverage cp)) ?kept"
    by (auto simp: list_ex_iff resurrected_def kept_by_def keeps_listening_def f(7))
  ultimately show ?thesis by (auto simp: validate_checkpoint_def checks_ok simp del: checks.simps)
qed

lemma candidate_valid:
  assumes "validate_state rules st = Inr ()" "digest_law rules" "planned rules st now_unix cp" "om_wf (ps_version_vector st)"
  shows "validate_state rules (compaction_candidate st now_unix cp) = Inr ()"
proof -
  note v = assms(1) [unfolded validate_state_ok]
  let ?kept = "filter (kept_by st now_unix) (ps_operations st)"
  have "length ?kept \<le> MAX_OPERATIONS" using v header_facts order_trans [OF length_filter_le] by blast
  then have "check_header (compaction_candidate st now_unix cp) = Inr ()"
    using v by (simp add: check_header_def checks_ok del: checks.simps)
  moreover have "consistent (set ?kept)" using v by (auto simp: consistent_def)
  moreover have "derive_device_registry (check_identity rules) ?kept = Inr (ps_registry st)"
    using v registry_skip [of "ps_operations st" "kept_by st now_unix" "check_identity rules"] kept_by_ephemeral [of st now_unix]
    by simp
  moreover note candidate_shape [OF assms(1-3)] candidate_checkpoint [OF assms]
  ultimately show ?thesis unfolding validate_state_ok using v by simp
qed

lemma normalised_distinct:
  assumes "validate_state rules st = Inr ()" "normalised st"
  shows "sorted_wrt (<) (map envelope_key (ps_operations st))" "distinct (ps_operations st)" "ids_apart (set (ps_operations st))"
proof -
  show ia: "ids_apart (set (ps_operations st))" using assms(1) [unfolded validate_state_ok] consistent_ids_apart by blast
  show sorted: "sorted_wrt (<) (map envelope_key (ps_operations st))"
    using normal_order [OF ia] assms(2) by (simp add: normalised_def)
  then show "distinct (ps_operations st)" by (simp add: strict_sorted_iff distinct_map)
qed

lemma candidate_normalised:
  assumes "validate_state rules st = Inr ()" "normalised st" "digest_law rules" "planned rules st now_unix cp" "vectors_wf st"
  shows "normalize_state rules (compaction_candidate st now_unix cp) = Inr (compaction_candidate st now_unix cp)"
proof -
  let ?c = "compaction_candidate st now_unix cp"
  have valid: "validate_state rules ?c = Inr ()"
    using candidate_valid [OF assms(1,3,4)] assms(5) by (simp add: vectors_wf_def)
  have wf: "vectors_wf ?c" using assms(5) by (simp add: vectors_wf_def)
  obtain r where r: "normalize_state rules ?c = Inr r" using valid by (simp add: normalize_state_def Let_def)
  have "ids_apart (set (ps_operations ?c))" using normalised_distinct(3) [OF assms(1,2)] by (auto simp: ids_apart_def)
  note norm = normal_order [OF this]
  have "sorted_wrt (<) (map envelope_key (ps_operations ?c))"
    using sorted_wrt_filter [OF normalised_distinct(1) [OF assms(1,2), unfolded sorted_wrt_map]] by (simp add: sorted_wrt_map)
  then have "dedup_ids (sort_envelopes (ps_operations ?c)) = ps_operations ?c"
    using norm by (intro normal_order_unique) auto
  then have "r = ?c" using normalize_ok [OF r wf] by simp
  then show ?thesis using r by simp
qed

section \<open>The projections agree\<close>

lemma candidate_projection:
  assumes "validate_state rules st = Inr ()" "normalised st" "digest_law rules" "planned rules st now_unix cp" "vectors_wf st"
  shows "project_at pp rules (compaction_candidate st now_unix cp) now_unix = project_at pp rules st now_unix"
proof -
  note nd = normalised_distinct [OF assms(1,2)]
  have valid: "validate_state rules (compaction_candidate st now_unix cp) = Inr ()"
    using candidate_valid [OF assms(1,3,4)] assms(5) by (simp add: vectors_wf_def)
  have legacy: "projected_legacy pp (base_of (filter (kept_by st now_unix) (ps_operations st)))
      (fold_ledger (pp_hash pp) (filter (kept_by st now_unix) (ps_operations st)))
      (retained_engagement_operation_ids (filter (kept_by st now_unix) (ps_operations st)) now_unix)
    = projected_legacy pp (base_of (ps_operations st)) (fold_ledger (pp_hash pp) (ps_operations st))
        (retained_engagement_operation_ids (ps_operations st) now_unix)"
    using kept_by_ephemeral by (intro pruned_legacy [OF nd(2,3) kept_by_prunes]) blast
  have registry: "derive_device_registry (check_identity rules) (filter (kept_by st now_unix) (ps_operations st))
      = derive_device_registry (check_identity rules) (ps_operations st)"
    using kept_by_ephemeral by (intro registry_skip) blast
  show ?thesis using legacy
    by (simp add: project_at_def base_of_def assms(1) valid registry Let_def split: sum.split)
qed

lemma candidate_listening:
  assumes "validate_state (listening_rules pr rules) st = Inr ()" "causal (set (ps_operations st))"
    "validate_state (listening_rules pr rules) (compaction_candidate st now_unix cp) = Inr ()"
  shows "from_ledger pr rules (compaction_candidate st now_unix cp) = from_ledger pr rules st"
proof (rule compacted_projection [OF assms])
  have "is_listening op \<Longrightarrow> \<not> is_engagement op" for op :: "('w legacy_projection, listening_operation) operation"
    by (cases op) auto
  then show "compacted_listening (ps_operations (compaction_candidate st now_unix cp)) (ps_operations st)"
    by (auto simp: compacted_listening_def kept_by_def keeps_engagement_def keeps_listening_def)
qed

section \<open>The plan never contradicts itself\<close>

lemma next_generation_ok:
  "(\<And>cp. checkpoint = Some cp \<Longrightarrow> compaction_generation cp \<noteq> - 1) \<Longrightarrow> \<exists>g. g \<noteq> 0 \<and> next_generation checkpoint = Inr g"
proof (cases checkpoint)
  case None
  then show ?thesis by (simp add: next_generation_def)
next
  case (Some cp)
  assume "\<And>cp. checkpoint = Some cp \<Longrightarrow> compaction_generation cp \<noteq> - 1"
  then have "compaction_generation cp \<noteq> - 1" using Some by blast
  then have "compaction_generation cp + 1 \<noteq> 0" by (metis eq_neg_iff_add_eq_0)
  then show ?thesis using Some \<open>compaction_generation cp \<noteq> - 1\<close> by (simp add: next_generation_def)
qed

lemma plan_checkpoint_ok: "digest_law rules \<Longrightarrow> g \<noteq> 0 \<Longrightarrow> \<exists>cp. plan_checkpoint rules st now_unix g = Inr cp \<and> planned rules st now_unix cp"
proof -
  assume law: "digest_law rules" and g: "g \<noteq> 0"
  let ?es = "id_set_of (retained_engagement_operation_ids (ps_operations st) now_unix)"
  let ?ls = "retained_listening_operation_ids (ps_operations st)"
  obtain h where "checkpoint_id_for rules (dataset_id st) g (ps_version_vector st) (map_option checkpoint_id (ps_checkpoint st))
      ?es ?ls (ps_operations st) = Inr h"
    using law unfolding digest_law_def checkpoint_id_for_def by blast
  then obtain cp where "plan_checkpoint rules st now_unix g = Inr cp" by (simp add: plan_checkpoint_def Let_def)
  then show ?thesis using g by (auto simp: planned_def)
qed

lemma kept_by_count: "length (filter (\<lambda>e. \<not> keeps_engagement ops now_unix e) ops) = 0
      \<and> length (filter (\<lambda>e. \<not> keeps_listening ops e) ops) = 0
    \<longleftrightarrow> (\<forall>e \<in> set ops. keeps_engagement ops now_unix e \<and> keeps_listening ops e)"
  by (auto simp: filter_empty_conv)

lemma full_rules_listening: "full_rules pp pr rules = listening_rules pr (rules\<lparr>check_baseline := validate_legacy (pp_floats pp)\<rparr>)"
  by (simp add: full_rules_def)

definition fit_to_compact :: "'w full_rules \<Rightarrow> 'w full_state \<Rightarrow> bool" where
  "fit_to_compact rules st \<longleftrightarrow> validate_state rules st = Inr () \<and> normalised st \<and> vectors_wf st
     \<and> causal (set (ps_operations st)) \<and> ps_revision st \<noteq> - 1
     \<and> (\<forall>cp. ps_checkpoint st = Some cp \<longrightarrow> compaction_generation cp \<noteq> - 1)"

lemma build_candidate_ok:
  assumes "fit_to_compact (full_rules pp pr rules) st" "digest_law (full_rules pp pr rules)" "fingerprint_law pp"
    "planned (full_rules pp pr rules) st now_unix cp"
  shows "build_candidate pp pr rules st now_unix pruned cp = Some (Inr (Some
    \<lparr>plan_candidate = compaction_candidate st now_unix cp, pruned_engagement_operations = fst pruned,
      pruned_listening_operations = snd pruned\<rparr>))"
    "project_at pp (full_rules pp pr rules) (compaction_candidate st now_unix cp) now_unix = project_at pp (full_rules pp pr rules) st now_unix"
    "from_ledger pr (rules\<lparr>check_baseline := validate_legacy (pp_floats pp)\<rparr>) (compaction_candidate st now_unix cp)
      = from_ledger pr (rules\<lparr>check_baseline := validate_legacy (pp_floats pp)\<rparr>) st"
    "validate_state (full_rules pp pr rules) (compaction_candidate st now_unix cp) = Inr ()"
proof -
  let ?R = "full_rules pp pr rules" and ?B = "rules\<lparr>check_baseline := validate_legacy (pp_floats pp)\<rparr>"
  let ?c = "compaction_candidate st now_unix cp"
  have st: "validate_state ?R st = Inr ()" "normalised st" "vectors_wf st" "causal (set (ps_operations st))"
    using assms(1) by (simp_all add: fit_to_compact_def)
  show valid: "validate_state ?R ?c = Inr ()"
    using candidate_valid [OF st(1) assms(2,4)] st(3) by (simp add: vectors_wf_def)
  show proj: "project_at pp ?R ?c now_unix = project_at pp ?R st now_unix"
    by (rule candidate_projection [OF st(1,2) assms(2,4) st(3)])
  show listen: "from_ledger pr ?B ?c = from_ledger pr ?B st"
    using st(1,4) valid unfolding full_rules_listening by (rule candidate_listening)
  obtain p where p: "project_at pp ?R st now_unix = Some (Inr p)"
    using projection_total [of pp ?R st now_unix] assms(3) st(1) by (auto simp: fingerprint_law_def)
  obtain q where q: "from_ledger pr ?B st = Inr q" using listening_total st(1) unfolding full_rules_listening by blast
  show "build_candidate pp pr rules st now_unix pruned cp = Some (Inr (Some
    \<lparr>plan_candidate = ?c, pruned_engagement_operations = fst pruned, pruned_listening_operations = snd pruned\<rparr>))"
    by (simp add: build_candidate_def compare_projections_def p q proj listen candidate_normalised [OF st(1,2) assms(2,4) st(3)])
qed

text \<open>C11. Compaction never contradicts itself.  The leader of a valid, normalised ledger with a causal listening
  history either finds nothing to drop, or gets a plan: a valid state that holds exactly the operations that
  are kept and from which every store, the registry, the version vector, the fingerprint, the bookmarks, resume
  points, passport and presets come out exactly as before.  \<open>ProjectionMismatch\<close> is unreachable.\<close>

theorem compaction_plan_sound:
  assumes "fit_to_compact (full_rules pp pr rules) st" "digest_law (full_rules pp pr rules)" "fingerprint_law pp"
    "engagement_compaction_leader st = Some me" "ps_checkpoint st = None \<or> quorum"
  shows "\<exists>result. plan_engagement_compaction pp pr rules st me now_unix quorum = Some (Inr result) \<and> (case result of
      None \<Rightarrow> \<forall>e \<in> set (ps_operations st). kept_by st now_unix e
    | Some plan \<Rightarrow> validate_state (full_rules pp pr rules) (plan_candidate plan) = Inr ()
        \<and> ps_operations (plan_candidate plan) = filter (kept_by st now_unix) (ps_operations st)
        \<and> (\<exists>e \<in> set (ps_operations st). \<not> kept_by st now_unix e)
        \<and> project_at pp (full_rules pp pr rules) (plan_candidate plan) now_unix = project_at pp (full_rules pp pr rules) st now_unix
        \<and> from_ledger pr (rules\<lparr>check_baseline := validate_legacy (pp_floats pp)\<rparr>) (plan_candidate plan)
          = from_ledger pr (rules\<lparr>check_baseline := validate_legacy (pp_floats pp)\<rparr>) st)"
proof -
  let ?R = "full_rules pp pr rules" and ?ops = "ps_operations st"
  have st: "validate_state ?R st = Inr ()" "ps_revision st \<noteq> - 1" using assms(1) by (simp_all add: fit_to_compact_def)
  obtain g where g: "g \<noteq> 0" "next_generation (ps_checkpoint st) = Inr g"
    using next_generation_ok [of "ps_checkpoint st"] assms(1) by (auto simp: fit_to_compact_def)
  obtain cp where cp: "plan_checkpoint ?R st now_unix g = Inr cp" "planned ?R st now_unix cp"
    using plan_checkpoint_ok [OF assms(2) g(1)] by blast
  note ok = build_candidate_ok [OF assms(1-3) cp(2)]
  have go: "plan_engagement_compaction pp pr rules st me now_unix quorum = (if \<forall>e \<in> set ?ops. kept_by st now_unix e
      then Some (Inr None)
      else build_candidate pp pr rules st now_unix (length (filter (\<lambda>e. \<not> keeps_engagement ?ops now_unix e) ?ops),
        length (filter (\<lambda>e. \<not> keeps_listening ?ops e) ?ops)) cp)"
    using kept_by_count [of ?ops now_unix] assms(4,5) st g(2) cp(1)
    by (auto simp: plan_engagement_compaction_def Let_def next_revision_def kept_by_def)
  show ?thesis
  proof (cases "\<forall>e \<in> set ?ops. kept_by st now_unix e")
    case True
    then show ?thesis by (simp add: go)
  next
    case False
    then show ?thesis using ok(2-4) unfolding go ok(1) by (simp only: if_False) auto
  qed
qed

section \<open>Witness\<close>

text \<open>A device enters the registry and replaces its note on a station.\<close>

definition home_rules :: "unit full_rules" where
  "home_rules = \<lparr>check_identity = \<lambda>_. Inr (), check_baseline = \<lambda>_. Inr (), check_listening = \<lambda>_. Inr (),
     resume_device = \<lambda>_. None, checkpoint_hash = \<lambda>_ _ _ _ _ _ _. Inr (replicate 64 48)\<rparr>"

definition home_device :: device_record where
  "home_device = \<lparr>dev_id = utf ''a'', dev_name = utf ''a'', dev_revoked = False, dev_public_identity = None\<rparr>"

definition home_op :: "string \<Rightarrow> u64 \<Rightarrow> version_vector \<Rightarrow> (unit legacy_projection, listening_operation) operation
    \<Rightarrow> (unit legacy_projection, listening_operation) operation_envelope" where
  "home_op i n observed op = \<lparr>operation_id = utf i,
     op_stamp = \<lparr>stamp_dot = \<lparr>dot_device = utf ''a'', dot_sequence = n\<rparr>, stamp_observed = observed, recorded_at_unix = 0\<rparr>,
     op_origin = OriginLocal, operation = op\<rparr>"

definition home_note :: "string \<Rightarrow> listening_operation" where
  "home_note i = SetPassportNote \<lparr>note_station = utf ''s'', note_text = utf i\<rparr>"

definition home_ops :: "(unit legacy_projection, listening_operation) operation_envelope list" where
  "home_ops = [home_op ''w'' 1 [] (AddDevice home_device), home_op ''x'' 2 [(utf ''a'', 1)] (Listening (home_note ''x'')),
     home_op ''y'' 3 [(utf ''a'', 2)] (Listening (home_note ''y''))]"

definition home_state :: "unit full_state" where
  "home_state = \<lparr>ps_kind = PERSONAL_STATE_KIND, schema_version = 3, dataset_id = utf ''d'', ps_revision = 0,
     ps_registry = [(utf ''a'', home_device)], ps_version_vector = [(utf ''a'', 3)], ps_operations = home_ops,
     ps_checkpoint = None,
     ps_metadata = \<lparr>source_app_version = utf ''1'', contains_listening_history = True, credentials_included = False,
       filesystem_paths_included = False, playable_urls_included = False\<rparr>,
     projection_fingerprint = None\<rparr>"

lemma home_valid: "validate_state (full_rules taste_params plain_presets home_rules) home_state = Inr ()"
  using note_texts
  by (simp add: home_state_def home_ops_def home_op_def home_note_def home_device_def home_rules_def full_rules_def listening_rules_def
      validate_state_ok check_header_def checks_ok check_registry_entry_def validate_device_record_def
      PERSONAL_STATE_SCHEMA_VERSION_def PERSONAL_STATE_LISTENING_SCHEMA_VERSION_def registry_eval MAX_OPERATIONS_def
      operation_ok_def Let_def vector_dominates_def validate_listening_author_def vv_covers_def vv_observed_def consistent_def
      ensure_def)

lemma three_one: "\<not> (3 :: u64) \<le> 1"
  by (simp add: word_le_nat_alt)

lemma home_normal: "normalised home_state"
  by (simp add: normalised_def home_state_def home_ops_def home_op_def sort_envelopes_def envelope_key_def utf_def)

lemma home_fit: "fit_to_compact (full_rules taste_params plain_presets home_rules) home_state"
proof -
  have "vectors_wf home_state"
    by (simp add: vectors_wf_def home_state_def home_ops_def home_op_def om_wf_def)
  moreover have "causal (set (ps_operations home_state))"
    by (simp add: causal_def home_state_def home_ops_def home_op_def later_def happens_after_def vv_covers_def vv_observed_def om_get_def three_one)
  ultimately show ?thesis using home_valid home_normal by (simp add: fit_to_compact_def home_state_def)
qed

lemma home_digest: "digest_law (full_rules taste_params plain_presets home_rules)"
  by (simp add: digest_law_def full_rules_def listening_rules_def home_rules_def valid_hash_def byte_len_def
      utf8_len_def sum_list_replicate list_all_iff)

lemma home_leader: "engagement_compaction_leader home_state = Some (utf ''a'')"
  by (simp add: engagement_compaction_leader_def home_state_def home_device_def utf_def)

theorem compaction_plan_sound_witness:
  "\<exists>plan. plan_engagement_compaction taste_params plain_presets home_rules home_state (utf ''a'') 0 False = Some (Inr (Some plan))
     \<and> map operation_id (ps_operations (plan_candidate plan)) = [utf ''w'', utf ''y'']"
proof -
  have ops: "ps_operations home_state = home_ops" by (simp add: home_state_def)
  have kept: "retained_listening_operation_ids home_ops = [utf ''y'']"
    by (simp add: retained_listening_operation_ids_def Let_def group_operation_def home_ops_def home_op_def home_note_def at_entry_def
        om_get_def keep_frontier_def happens_after_def vv_covers_def vv_observed_def passport_visit_aggregates_def
        tabulate_visit_def id_set_of_def utf_def three_one)
  have "kept_by home_state 0 (home_op i n s (AddDevice d))"
    and "kept_by home_state 0 (home_op i n s (Listening c)) \<longleftrightarrow> utf i = utf ''y''" for i n s d c
    by (simp_all add: kept_by_def keeps_engagement_def keeps_listening_def ops kept home_op_def)
  then have kept_ops: "filter (kept_by home_state 0) home_ops = [home_op ''w'' 1 [] (AddDevice home_device),
      home_op ''y'' 3 [(utf ''a'', 2)] (Listening (home_note ''y''))]"
    by (simp add: home_ops_def utf_def)
  then have "\<exists>e \<in> set home_ops. \<not> kept_by home_state 0 e" by (auto simp: home_ops_def filter_id_conv)
  moreover have "fingerprint_law taste_params" by (simp add: fingerprint_law_def taste_params_def)
  moreover have "ps_checkpoint home_state = None \<or> False" by (simp add: home_state_def)
  ultimately show ?thesis
    using compaction_plan_sound [OF home_fit home_digest _ home_leader, of False 0]
    by (auto simp: ops kept_ops home_op_def split: option.splits)
qed

end
