(* ===== verification/Address.thy ===== *)
theory Address
  imports Text
begin

text \<open>
  The address policy of \<open>src/playback_target.rs\<close>: which IP addresses a playable URL may name or
  resolve to.  The addresses and the predicates the policy calls (\<open>is_private\<close>, \<open>is_loopback\<close>, ...)
  and the parser of textual addresses are those of \<open>std::net\<close>.

  The lemmas at the end relate the tests on octets and segments to the blocks of the special-purpose
  address registries, read as a base and a prefix length.
\<close>

type_synonym u16 = "16 word"

datatype ipv4 = Ipv4 u8 u8 u8 u8

datatype ipv6 = Ipv6 u16 u16 u16 u16 u16 u16 u16 u16

datatype ip_addr = V4 ipv4 | V6 ipv6

section \<open>The standard library's predicates\<close>

unbundle bit_operations_syntax

fun v4_unspecified :: "ipv4 \<Rightarrow> bool" where
  "v4_unspecified (Ipv4 a b c d) \<longleftrightarrow> a = 0 \<and> b = 0 \<and> c = 0 \<and> d = 0"

fun v4_loopback :: "ipv4 \<Rightarrow> bool" where
  "v4_loopback (Ipv4 a b c d) \<longleftrightarrow> a = 127"

fun v4_private :: "ipv4 \<Rightarrow> bool" where
  "v4_private (Ipv4 a b c d) \<longleftrightarrow> a = 10 \<or> (a = 172 \<and> b \<ge> 16 \<and> b \<le> 31) \<or> (a = 192 \<and> b = 168)"

fun v4_link_local :: "ipv4 \<Rightarrow> bool" where
  "v4_link_local (Ipv4 a b c d) \<longleftrightarrow> a = 169 \<and> b = 254"

fun v4_multicast :: "ipv4 \<Rightarrow> bool" where
  "v4_multicast (Ipv4 a b c d) \<longleftrightarrow> a \<ge> 224 \<and> a \<le> 239"

fun v4_broadcast :: "ipv4 \<Rightarrow> bool" where
  "v4_broadcast (Ipv4 a b c d) \<longleftrightarrow> a = 255 \<and> b = 255 \<and> c = 255 \<and> d = 255"

fun v6_unspecified :: "ipv6 \<Rightarrow> bool" where
  "v6_unspecified (Ipv6 a b c d e f g h) \<longleftrightarrow> [a, b, c, d, e, f, g, h] = [0, 0, 0, 0, 0, 0, 0, 0]"

fun v6_loopback :: "ipv6 \<Rightarrow> bool" where
  "v6_loopback (Ipv6 a b c d e f g h) \<longleftrightarrow> [a, b, c, d, e, f, g, h] = [0, 0, 0, 0, 0, 0, 0, 1]"

fun v6_unique_local :: "ipv6 \<Rightarrow> bool" where
  "v6_unique_local (Ipv6 a b c d e f g h) \<longleftrightarrow> a AND 0xfe00 = 0xfc00"

fun v6_unicast_link_local :: "ipv6 \<Rightarrow> bool" where
  "v6_unicast_link_local (Ipv6 a b c d e f g h) \<longleftrightarrow> a AND 0xffc0 = 0xfe80"

fun v6_multicast :: "ipv6 \<Rightarrow> bool" where
  "v6_multicast (Ipv6 a b c d e f g h) \<longleftrightarrow> a AND 0xff00 = 0xff00"

definition high_octet :: "u16 \<Rightarrow> u8" where "high_octet w = ucast (drop_bit 8 w)"
definition low_octet :: "u16 \<Rightarrow> u8" where "low_octet w = ucast w"

fun to_ipv4_mapped :: "ipv6 \<Rightarrow> ipv4 option" where
  "to_ipv4_mapped (Ipv6 a b c d e f g h) =
     (if a = 0 \<and> b = 0 \<and> c = 0 \<and> d = 0 \<and> e = 0 \<and> f = 0xffff
      then Some (Ipv4 (high_octet g) (low_octet g) (high_octet h) (low_octet h)) else None)"

section \<open>The policy\<close>

fun is_blocked_ipv4 :: "ipv4 \<Rightarrow> bool" where
  "is_blocked_ipv4 (Ipv4 a b c d) \<longleftrightarrow>
     (let ip = Ipv4 a b c d in
      v4_unspecified ip \<or> v4_loopback ip \<or> v4_private ip \<or> v4_link_local ip \<or> v4_multicast ip \<or> v4_broadcast ip
      \<or> a = 0
      \<or> (a = 100 \<and> b AND 0b11000000 = 64)
      \<or> (a = 192 \<and> b = 0 \<and> c = 0)
      \<or> (a = 192 \<and> b = 0 \<and> c = 2)
      \<or> (a = 192 \<and> b = 88 \<and> c = 99)
      \<or> (a = 198 \<and> (b = 18 \<or> b = 19))
      \<or> (a = 198 \<and> b = 51 \<and> c = 100)
      \<or> (a = 203 \<and> b = 0 \<and> c = 113)
      \<or> a \<ge> 240)"

fun is_blocked_ipv6 :: "ipv6 \<Rightarrow> bool" where
  "is_blocked_ipv6 (Ipv6 a b c d e f g h) \<longleftrightarrow>
     (let ip = Ipv6 a b c d e f g h in
      v6_unspecified ip \<or> v6_loopback ip \<or> v6_unique_local ip \<or> v6_unicast_link_local ip \<or> v6_multicast ip
      \<or> (case to_ipv4_mapped ip of Some ip4 \<Rightarrow> is_blocked_ipv4 ip4 | None \<Rightarrow> False)
      \<or> (a = 0x0100 \<and> b = 0 \<and> c = 0 \<and> d = 0)
      \<or> (a = 0x0064 \<and> b = 0xff9b \<and> c = 0x0001)
      \<or> (a = 0x2001 \<and> b < 0x0200)
      \<or> (a = 0x2001 \<and> b = 0x0db8)
      \<or> a = 0x2002
      \<or> (a = 0x3fff \<and> b AND 0xf000 = 0))"

fun is_blocked_playable_ip :: "ip_addr \<Rightarrow> bool" where
  "is_blocked_playable_ip (V4 ip) \<longleftrightarrow> is_blocked_ipv4 ip"
| "is_blocked_playable_ip (V6 ip) \<longleftrightarrow> is_blocked_ipv6 ip"

section \<open>Textual addresses\<close>

text \<open>\<open>IpAddr::from_str\<close>: a dotted address of four octets in decimal without leading zeros, or eight
  groups of hexadecimal digits of which one run of zeros may be left out, the last two groups of either
  side possibly written as a dotted address.\<close>

definition hex_digit :: "nat \<Rightarrow> bool" where
  "hex_digit c \<longleftrightarrow> is_ascii_digit c \<or> (97 \<le> c \<and> c \<le> 102) \<or> (65 \<le> c \<and> c \<le> 70)"

definition hex_value :: "nat \<Rightarrow> nat" where
  "hex_value c = (if c \<le> 57 then c - 48 else if c \<le> 70 then c - 55 else c - 87)"

definition digits_value :: "nat \<Rightarrow> ustring \<Rightarrow> nat" where
  "digits_value base ds = foldl (\<lambda>n c. base * n + hex_value c) 0 ds"

definition read_octet :: "ustring \<Rightarrow> (u8 \<times> ustring) option" where
  "read_octet s = (let ds = takeWhile is_ascii_digit s; n = digits_value 10 ds in
     if ds = [] \<or> length ds > 3 \<or> (hd ds = 48 \<and> length ds > 1) \<or> n > 255 then None
     else Some (of_nat n, dropWhile is_ascii_digit s))"

definition read_group :: "ustring \<Rightarrow> (u16 \<times> ustring) option" where
  "read_group s = (let ds = takeWhile hex_digit s in
     if ds = [] \<or> length ds > 4 then None else Some (of_nat (digits_value 16 ds), dropWhile hex_digit s))"

definition read_char :: "nat \<Rightarrow> ustring \<Rightarrow> ustring option" where
  "read_char c s = (case s of [] \<Rightarrow> None | x # rest \<Rightarrow> if x = c then Some rest else None)"

definition read_separated :: "nat \<Rightarrow> nat \<Rightarrow> (ustring \<Rightarrow> ('a \<times> ustring) option) \<Rightarrow> ustring \<Rightarrow> ('a \<times> ustring) option" where
  "read_separated sep i f s = (if i = 0 then f s else Option.bind (read_char sep s) f)"

definition read_ipv4 :: "ustring \<Rightarrow> (ipv4 \<times> ustring) option" where
  "read_ipv4 s = do {
     (a, s) \<leftarrow> read_separated 46 0 read_octet s;
     (b, s) \<leftarrow> read_separated 46 1 read_octet s;
     (c, s) \<leftarrow> read_separated 46 2 read_octet s;
     (d, s) \<leftarrow> read_separated 46 3 read_octet s;
     Some (Ipv4 a b c d, s)}"

fun ipv4_groups :: "ipv4 \<Rightarrow> u16 list" where
  "ipv4_groups (Ipv4 a b c d) = [256 * ucast a + ucast b, 256 * ucast c + ucast d]"

text \<open>\<open>read_groups\<close>, with \<open>i\<close> the groups read and \<open>k\<close> those still allowed: the groups, whether they
  end with a dotted address, and the rest of the text.\<close>

fun read_groups :: "nat \<Rightarrow> nat \<Rightarrow> ustring \<Rightarrow> u16 list \<times> bool \<times> ustring" where
  "read_groups i 0 s = ([], False, s)"
| "read_groups i (Suc k) s =
     (case (if k > 0 then read_separated 58 i read_ipv4 s else None) of
        Some (ip, rest) \<Rightarrow> (ipv4_groups ip, True, rest)
      | None \<Rightarrow> (case read_separated 58 i read_group s of
          Some (g, rest) \<Rightarrow> (let (gs, v4, rest) = read_groups (Suc i) k rest in (g # gs, v4, rest))
        | None \<Rightarrow> ([], False, s)))"

fun ipv6_of_groups :: "u16 list \<Rightarrow> ipv6 option" where
  "ipv6_of_groups [a, b, c, d, e, f, g, h] = Some (Ipv6 a b c d e f g h)"
| "ipv6_of_groups gs = None"

definition read_ipv6 :: "ustring \<Rightarrow> (ipv6 \<times> ustring) option" where
  "read_ipv6 s = (let (head, head_v4, s) = read_groups 0 8 s in
     if length head = 8 then map_option (\<lambda>ip. (ip, s)) (ipv6_of_groups head)
     else if head_v4 then None
     else do {
       s \<leftarrow> read_char 58 s;
       s \<leftarrow> read_char 58 s;
       let (tail, _, s) = read_groups 0 (8 - (length head + 1)) s;
       map_option (\<lambda>ip. (ip, s)) (ipv6_of_groups (head @ replicate (8 - length head - length tail) 0 @ tail))})"

definition parse_ip :: "ustring \<Rightarrow> ip_addr option" where
  "parse_ip s = (case (case read_ipv4 s of Some (ip, rest) \<Rightarrow> Some (V4 ip, rest)
       | None \<Rightarrow> map_option (\<lambda>(ip, rest). (V6 ip, rest)) (read_ipv6 s)) of
     Some (ip, []) \<Rightarrow> Some ip | _ \<Rightarrow> None)"

section \<open>The text of an address\<close>

fun dotted :: "ipv4 \<Rightarrow> ustring" where
  "dotted (Ipv4 a b c d) = join_with [46] (map (decimal \<circ> unat) [a, b, c, d])"

lemma octet_bound: "unat (b :: u8) < 256" 
  using unsigned_less [of b] by simp

lemma decimal_value: "digits_value 10 (decimal n) = n"
proof -
  have "hex_value c = c - 48" if "c \<in> set (decimal n)" for c
    using decimal_digits [OF that] by (simp add: hex_value_def is_ascii_digit_def)
  then have "digits_value 10 (decimal n) = dec_value (decimal n)"
    unfolding digits_value_def dec_value_def by (intro foldl_cong) auto
  then show ?thesis by simp
qed

lemma read_octet_decimal: "n < 256 \<Longrightarrow> s = [] \<or> \<not> is_ascii_digit (hd s) \<Longrightarrow>
    read_octet (decimal n @ s) = Some (of_nat n, s)"
  using decimal_take [of s n] length_decimal [of n 3] length_decimal [of n 1] hd_decimal [of n]
  by (auto simp: read_octet_def decimal_value Let_def)

lemma parse_dotted: "parse_ip (dotted ip) = Some (V4 ip)"
proof (cases ip)
  case (Ipv4 a b c d)
  have read: "s = [] \<or> \<not> is_ascii_digit (hd s) \<Longrightarrow> read_octet (decimal (unat x) @ s) = Some (x, s)" for x s
    using octet_bound [of x] by (simp add: read_octet_decimal)
  have "read_octet (decimal (unat d)) = Some (d, [])" using read [of "[]" d] by simp
  then have "read_ipv4 (dotted ip) = Some (ip, [])"
    by (simp add: Ipv4 read_ipv4_def read_separated_def read_char_def read is_ascii_digit_def)
  then show ?thesis by (simp add: parse_ip_def)
qed

section \<open>Address blocks\<close>

text \<open>An address as a number, and the block of the addresses that share the first \<open>len\<close> of \<open>w\<close> bits.\<close>

fun v4_number :: "ipv4 \<Rightarrow> nat" where
  "v4_number (Ipv4 a b c d) = ((unat a * 256 + unat b) * 256 + unat c) * 256 + unat d"

fun v6_number :: "ipv6 \<Rightarrow> nat" where
  "v6_number (Ipv6 a b c d e f g h) =
     foldl (\<lambda>n s. n * 65536 + unat s) 0 [a, b, c, d, e, f, g, h]"

definition in_block :: "nat \<Rightarrow> nat \<Rightarrow> nat \<times> nat \<Rightarrow> bool" where
  "in_block w n block \<longleftrightarrow> n div 2 ^ (w - snd block) = fst block div 2 ^ (w - snd block)"

definition blocked_v4_blocks :: "(nat \<times> nat) list" where
  "blocked_v4_blocks = map (\<lambda>(ip, len). (v4_number ip, len)) [
     (Ipv4 0 0 0 0, 8), (Ipv4 10 0 0 0, 8), (Ipv4 100 64 0 0, 10), (Ipv4 127 0 0 0, 8),
     (Ipv4 169 254 0 0, 16), (Ipv4 172 16 0 0, 12), (Ipv4 192 0 0 0, 24), (Ipv4 192 0 2 0, 24),
     (Ipv4 192 88 99 0, 24), (Ipv4 192 168 0 0, 16), (Ipv4 198 18 0 0, 15), (Ipv4 198 51 100 0, 24),
     (Ipv4 203 0 113 0, 24), (Ipv4 224 0 0 0, 4), (Ipv4 240 0 0 0, 4)]"

definition blocked_v6_blocks :: "(nat \<times> nat) list" where
  "blocked_v6_blocks = map (\<lambda>(ip, len). (v6_number ip, len)) [
     (Ipv6 0 0 0 0 0 0 0 0, 128), (Ipv6 0 0 0 0 0 0 0 1, 128), (Ipv6 0xfc00 0 0 0 0 0 0 0, 7),
     (Ipv6 0xfe80 0 0 0 0 0 0 0, 10), (Ipv6 0xff00 0 0 0 0 0 0 0, 8), (Ipv6 0x100 0 0 0 0 0 0 0, 64),
     (Ipv6 0x64 0xff9b 1 0 0 0 0 0, 48), (Ipv6 0x2001 0 0 0 0 0 0 0, 23), (Ipv6 0x2001 0xdb8 0 0 0 0 0 0, 32),
     (Ipv6 0x2002 0 0 0 0 0 0 0, 16), (Ipv6 0x3fff 0 0 0 0 0 0 0, 20)]"

definition mapped_prefix :: "nat \<times> nat" where
  "mapped_prefix = (v6_number (Ipv6 0 0 0 0 0 0xffff 0 0), 96)"

text \<open>\<open>in_v4_blocks n\<close> for the number of an address and \<open>in_v6_blocks n\<close>, where an IPv4-mapped address
  (\<open>::ffff:0:0/96\<close>) is judged by its last 32 bits.\<close>

definition in_v4_blocks :: "nat \<Rightarrow> bool" where
  "in_v4_blocks n \<longleftrightarrow> list_ex (in_block 32 n) blocked_v4_blocks"

definition in_v6_blocks :: "nat \<Rightarrow> bool" where
  "in_v6_blocks n \<longleftrightarrow> list_ex (in_block 128 n) blocked_v6_blocks
     \<or> (in_block 128 n mapped_prefix \<and> in_v4_blocks (n mod 2 ^ 32))"


section \<open>The tests as blocks\<close>

lemma drop_high: "drop_bit n (w AND NOT (mask n)) = drop_bit n w" for w :: "'a :: len word"
  by (rule bit_word_eqI) (auto simp: bit_simps dest: bit_imp_le_length)

lemma push_high: "push_bit n (drop_bit n w) = w AND NOT (mask n)" for w :: "'a :: len word"
  by (rule bit_word_eqI) (auto simp: bit_simps dest: bit_imp_le_length)

lemma high_bits:
  fixes w c :: "'a :: len word"
  assumes "m = NOT (mask n)" "c AND m = c"
  shows "w AND m = c \<longleftrightarrow> unat w div 2 ^ n = unat c div 2 ^ n"
proof -
  have "w AND m = c \<longleftrightarrow> drop_bit n w = drop_bit n c"
    using assms drop_high [of n] push_high [of n] by metis
  also have "\<dots> \<longleftrightarrow> drop_bit n (unat w) = drop_bit n (unat c)"
    by (simp only: word_unat_eq_iff unat_drop_bit_eq)
  finally show ?thesis by (simp only: drop_bit_eq_div)
qed

lemma segment_bound: "unat (b :: u16) < 65536" 
  using unsigned_less [of b] by simp

lemma high_octet_bits: "b AND 0b11000000 = 64 \<longleftrightarrow> unat b div 64 = 1" for b :: u8
  using high_bits [of "0b11000000" 6 64 b] by (simp add: mask_eq_exp_minus_1)


text \<open>The digits of a number: \<open>q\<close> before the last digit \<open>r\<close> in base \<open>k\<close>.\<close>

lemma digits_eq: "(r :: nat) < k \<Longrightarrow> q * k + r = n \<longleftrightarrow> q = n div k \<and> r = n mod k"
  by auto

lemma digits_div: "(r :: nat) < k \<Longrightarrow> (q * k + r) div k = q"
  by simp

lemma digits_split: "0 < k \<Longrightarrow> (q * (k * j) + r) div k = q * j + r div (k :: nat)"
  by (metis Groups.mult_ac(2) div_mult_self3 mult.left_commute nat_less_le)

lemma octets_div:
  fixes a b c d n :: nat
  assumes n: "n = ((a * 256 + b) * 256 + c) * 256 + d" and "b < 256" "c < 256" "d < 256"
  shows "n div 256 = (a * 256 + b) * 256 + c" "n div 65536 = a * 256 + b" "n div 131072 = a * 128 + b div 2"
    "n div 1048576 = a * 16 + b div 16" "n div 4194304 = a * 4 + b div 64"
    "n div 16777216 = a" "n div 268435456 = a div 16"
proof -
  show 1: "n div 256 = (a * 256 + b) * 256 + c" unfolding n using assms(4) by (rule digits_div)
  have "n div 65536 = ((a * 256 + b) * 256 + c) div 256" using div_mult2_eq [of n 256 256] by (simp only: 1) simp
  also have "\<dots> = a * 256 + b" using assms(3) by (rule digits_div)
  finally show 2: "n div 65536 = a * 256 + b" .
  have "n div 16777216 = (a * 256 + b) div 256" using div_mult2_eq [of n 65536 256] by (simp only: 2) simp
  also have "\<dots> = a" using assms(2) by (rule digits_div)
  finally show 3: "n div 16777216 = a" .
  show "n div 131072 = a * 128 + b div 2" using div_mult2_eq [of n 65536 2] digits_split [of 2 a 128 b] by (simp add: 2)
  show "n div 1048576 = a * 16 + b div 16" using div_mult2_eq [of n 65536 16] digits_split [of 16 a 16 b] by (simp add: 2)
  show "n div 4194304 = a * 4 + b div 64" using div_mult2_eq [of n 65536 64] digits_split [of 64 a 4 b] by (simp add: 2)
  show "n div 268435456 = a div 16" using div_mult2_eq [of n 16777216 16] by (simp add: 3)
qed

lemma v4_blocks: "is_blocked_ipv4 ip \<longleftrightarrow> in_v4_blocks (v4_number ip)"
proof (cases ip)
  case (Ipv4 a b c d)
  define A B C D where "A = unat a" "B = unat b" "C = unat c" "D = unat d"
  then have bounds: "A < 256" "B < 256" "C < 256" "D < 256" by (simp_all add: octet_bound)
  then have parts: "B div 2 < 128" "B div 16 < 16" "B div 64 < 4" by linarith+
  define n where "n = v4_number ip"
  then have "n = ((A * 256 + B) * 256 + C) * 256 + D" by (simp add: Ipv4 A_B_C_D_def)
  note div = octets_div [OF this bounds(2-4)]
  have "in_v4_blocks n \<longleftrightarrow> A = 0 \<or> A = 10 \<or> A * 4 + B div 64 = 401 \<or> A = 127 
     \<or> A * 256 + B = 43518 \<or> A * 16 + B div 16 = 2753 \<or> (A * 256 + B) * 256 + C = 12582912 
     \<or> (A * 256 + B) * 256 + C = 12582914 \<or> (A * 256 + B) * 256 + C = 12605539 
     \<or> A * 256 + B = 49320 \<or> A * 128 + B div 2 = 25353 \<or> (A * 256 + B) * 256 + C = 12989284
     \<or> (A * 256 + B) * 256 + C = 13303921 \<or> A div 16 = 14 \<or> A div 16 = 15"
    by (simp add: in_v4_blocks_def blocked_v4_blocks_def in_block_def div)
  also have "\<dots> \<longleftrightarrow> A = 0 \<or> A = 10 \<or> (A = 100 \<and> B div 64 = 1) \<or> A = 127 \<or> (A = 169 \<and> B = 254)
     \<or> (A = 172 \<and> B div 16 = 1) \<or> (A = 192 \<and> B = 0 \<and> C = 0) \<or> (A = 192 \<and> B = 0 \<and> C = 2)
     \<or> (A = 192 \<and> B = 88 \<and> C = 99) \<or> (A = 192 \<and> B = 168) \<or> (A = 198 \<and> B div 2 = 9)
     \<or> (A = 198 \<and> B = 51 \<and> C = 100) \<or> (A = 203 \<and> B = 0 \<and> C = 113) \<or> A div 16 = 14 \<or> A div 16 = 15"
    by (simp only: digits_eq [OF bounds(2)] digits_eq [OF bounds(3)] digits_eq [OF parts(1)]
      digits_eq [OF parts(2)] digits_eq [OF parts(3)]) simp
  also have "\<dots> \<longleftrightarrow> is_blocked_ipv4 ip"
  proof -
    have "B div 16 = 1 \<longleftrightarrow> B \<ge> 16 \<and> B \<le> 31" "B div 2 = 9 \<longleftrightarrow> B = 18 \<or> B = 19" by linarith+
    moreover have "A div 16 = 14 \<longleftrightarrow> A \<ge> 224 \<and> A \<le> 239" "A div 16 = 15 \<longleftrightarrow> A \<ge> 240" using bounds(1) by linarith+
    moreover have "unat (b AND 0b11000000) = 64 \<longleftrightarrow> B div 64 = 1"
      using high_octet_bits [of b] by (simp add: word_unat_eq_iff A_B_C_D_def)
    ultimately show ?thesis
      by (simp only: Ipv4 is_blocked_ipv4.simps v4_unspecified.simps v4_loopback.simps v4_private.simps
        v4_link_local.simps v4_multicast.simps v4_broadcast.simps Let_def word_unat_eq_iff word_le_nat_alt
        A_B_C_D_def [symmetric] unsigned_numeral unsigned_0)
        (simp, intro iffI; elim disjE; simp)
  qed
  finally show ?thesis by (simp add: n_def)
qed

lemma segment_masks:
  fixes w :: u16
  shows "w AND 0xfe00 = 0xfc00 \<longleftrightarrow> unat w div 512 = 126" "w AND 0xffc0 = 0xfe80 \<longleftrightarrow> unat w div 64 = 1018"
    "w AND 0xff00 = 0xff00 \<longleftrightarrow> unat w div 256 = 255" "w AND 0xf000 = 0 \<longleftrightarrow> unat w div 4096 = 0"
  using high_bits [of "0xfe00" 9 "0xfc00" w] high_bits [of "0xffc0" 6 "0xfe80" w]
    high_bits [of "0xff00" 8 "0xff00" w] high_bits [of "0xf000" 12 0 w]
  by (simp_all add: mask_eq_exp_minus_1)

lemma unat_high_octet: "unat (high_octet w) = unat w div 256"
proof -
  have "unat w div 256 < 256" using segment_bound [of w] by linarith
  then show ?thesis by (simp add: high_octet_def unsigned_ucast_eq unat_drop_bit_eq take_bit_eq_mod del: drop_bit_eq_div) (simp add: drop_bit_eq_div)
qed

lemma unat_low_octet: "unat (low_octet w) = unat w mod 256"
  by (simp add: low_octet_def unsigned_ucast_eq take_bit_eq_mod)

lemma segment_octets: "unat (high_octet w) * 256 + unat (low_octet w) = unat w"
  by (simp add: unat_high_octet unat_low_octet)

lemma peel: "(r :: nat) < 65536 \<Longrightarrow> 16 \<le> e \<Longrightarrow> (q * 65536 + r) div 2 ^ e = q div 2 ^ (e - 16)"
proof -
  assume r: "r < 65536" and e: "16 \<le> e"
  have "(2 :: nat) ^ e = 65536 * 2 ^ (e - 16)" using e power_add [of "2 :: nat" 16 "e - 16"] by simp
  then show ?thesis using r by (simp only: div_mult2_eq digits_div)
qed


text \<open>The prefixes of an IPv6 address as numbers.\<close>

lemma segments_div:
  fixes n :: nat
  assumes p: "p2 = a * 65536 + b" "p3 = p2 * 65536 + c" "p4 = p3 * 65536 + d" "p5 = p4 * 65536 + e"
      "p6 = p5 * 65536 + f" "p7 = p6 * 65536 + g" "n = p7 * 65536 + h"
    and bounds: "b < 65536" "c < 65536" "d < 65536" "e < 65536" "f < 65536" "g < 65536" "h < 65536"
  shows "112 \<le> k \<Longrightarrow> n div 2 ^ k = a div 2 ^ (k - 112)" "96 \<le> k \<Longrightarrow> n div 2 ^ k = p2 div 2 ^ (k - 96)"
    "n div 2 ^ 80 = p3" "n div 2 ^ 64 = p4" "n div 2 ^ 32 = p6"
proof -
  have 7: "n div 2 ^ k = p7 div 2 ^ (k - 16)" if "16 \<le> k" for k using that p(7) bounds(7) peel by metis
  have 6: "n div 2 ^ k = p6 div 2 ^ (k - 32)" if "32 \<le> k" for k
    using that 7 [of k] peel [OF bounds(6), of "k - 16" p6] p(6) by simp
  have 5: "n div 2 ^ k = p5 div 2 ^ (k - 48)" if "48 \<le> k" for k
    using that 6 [of k] peel [OF bounds(5), of "k - 32" p5] p(5) by simp
  have 4: "n div 2 ^ k = p4 div 2 ^ (k - 64)" if "64 \<le> k" for k
    using that 5 [of k] peel [OF bounds(4), of "k - 48" p4] p(4) by simp
  have 3: "n div 2 ^ k = p3 div 2 ^ (k - 80)" if "80 \<le> k" for k
    using that 4 [of k] peel [OF bounds(3), of "k - 64" p3] p(3) by simp
  show 2: "n div 2 ^ k = p2 div 2 ^ (k - 96)" if "96 \<le> k" for k
    using that 3 [of k] peel [OF bounds(2), of "k - 80" p2] p(2) by simp
  show "n div 2 ^ k = a div 2 ^ (k - 112)" if "112 \<le> k" 
    using that 2 [of k] peel [OF bounds(1), of "k - 96" a] p(1) by simp
  show "n div 2 ^ 80 = p3" using 3 [of 80] by simp
  show "n div 2 ^ 64 = p4" using 4 [of 64] by simp
  show "n div 2 ^ 32 = p6" using 6 [of 32] by simp
qed


lemma mapped_octets: "v4_number (Ipv4 (high_octet g) (low_octet g) (high_octet h) (low_octet h)) = unat g * 65536 + unat h"
  using segment_octets [of g] segment_octets [of h] by simp

lemma v6_blocks: "is_blocked_ipv6 ip \<longleftrightarrow> in_v6_blocks (v6_number ip)"
proof (cases ip)
  case (Ipv6 a b c d e f g h)
  define A B C D E F G H where "A = unat a" "B = unat b" "C = unat c" "D = unat d" "E = unat e" "F = unat f"
    "G = unat g" "H = unat h"
  note defs = this
  have bounds: "B < 65536" "C < 65536" "D < 65536" "E < 65536" "F < 65536" "G < 65536" "H < 65536" "A < 65536"
    by (simp_all add: defs segment_bound)
  have parts: "B div 512 < 128" "B div 4096 < 16" using bounds by linarith+
  define p2 p3 p4 p5 p6 p7 n where "p2 = A * 65536 + B" "p3 = p2 * 65536 + C" "p4 = p3 * 65536 + D"
    "p5 = p4 * 65536 + E" "p6 = p5 * 65536 + F" "p7 = p6 * 65536 + G" "n = p7 * 65536 + H"
  note p = this
  have n: "v6_number ip = n" by (simp only: Ipv6 p defs v6_number.simps foldl.simps mult_0 add_0)
  note div = segments_div [OF p bounds(1-7)]
  have "n = (G * 65536 + H) + p6 * 2 ^ 32" "G * 65536 + H < 2 ^ 32" using bounds by (simp_all add: p(6) p(7))
  then have low: "n mod 2 ^ 32 = G * 65536 + H" by (metis mod_less mod_mult_self1)
  have "in_v6_blocks n \<longleftrightarrow> n = 0 \<or> n = 1 \<or> A div 512 = 126 \<or> A div 64 = 1018 \<or> A div 256 = 255
     \<or> p4 = 0x100000000000000 \<or> p3 = 0x64ff9b0001 \<or> p2 div 512 = 0x100080 \<or> p2 = 0x20010db8 \<or> A = 0x2002
     \<or> p2 div 4096 = 0x3fff0 \<or> (p6 = 0xffff \<and> in_v4_blocks (G * 65536 + H))"
  proof -
    have "in_block 128 n (v6_number (Ipv6 0 0 0 0 0 0 0 0), 128) \<longleftrightarrow> n = 0"
      "in_block 128 n (v6_number (Ipv6 0 0 0 0 0 0 0 1), 128) \<longleftrightarrow> n = 1"
      by (simp_all add: in_block_def)
    moreover have "in_block 128 n (v6_number (Ipv6 0xfc00 0 0 0 0 0 0 0), 7) \<longleftrightarrow> A div 512 = 126"
      "in_block 128 n (v6_number (Ipv6 0xfe80 0 0 0 0 0 0 0), 10) \<longleftrightarrow> A div 64 = 1018"
      "in_block 128 n (v6_number (Ipv6 0xff00 0 0 0 0 0 0 0), 8) \<longleftrightarrow> A div 256 = 255"
      "in_block 128 n (v6_number (Ipv6 0x2002 0 0 0 0 0 0 0), 16) \<longleftrightarrow> A = 0x2002"
      using div(1) [of 121] div(1) [of 118] div(1) [of 120] div(1) [of 112] by (simp_all add: in_block_def)
    moreover have "in_block 128 n (v6_number (Ipv6 0x100 0 0 0 0 0 0 0), 64) \<longleftrightarrow> p4 = 0x100000000000000"
      "in_block 128 n (v6_number (Ipv6 0x64 0xff9b 1 0 0 0 0 0), 48) \<longleftrightarrow> p3 = 0x64ff9b0001"
      "in_block 128 n mapped_prefix \<longleftrightarrow> p6 = 0xffff"
      using div(3-5) by (simp_all add: in_block_def mapped_prefix_def)
    moreover have "in_block 128 n (v6_number (Ipv6 0x2001 0 0 0 0 0 0 0), 23) \<longleftrightarrow> p2 div 512 = 0x100080"
      "in_block 128 n (v6_number (Ipv6 0x2001 0xdb8 0 0 0 0 0 0), 32) \<longleftrightarrow> p2 = 0x20010db8"
      "in_block 128 n (v6_number (Ipv6 0x3fff 0 0 0 0 0 0 0), 20) \<longleftrightarrow> p2 div 4096 = 0x3fff0"
      using div(2) [of 105] div(2) [of 96] div(2) [of 108] by (simp_all add: in_block_def)
    ultimately show ?thesis
      by (simp only: in_v6_blocks_def blocked_v6_blocks_def low list.map list_ex_Cons_iff list_ex_Nil_iff prod.case simp_thms disj_assoc)
  qed
  also have "\<dots> \<longleftrightarrow> (\<forall>x \<in> {A, B, C, D, E, F, G, H}. x = 0) \<or> ((\<forall>x \<in> {A, B, C, D, E, F, G}. x = 0) \<and> H = 1)
     \<or> A div 512 = 126 \<or> A div 64 = 1018 \<or> A div 256 = 255
     \<or> (A = 0x100 \<and> B = 0 \<and> C = 0 \<and> D = 0) \<or> (A = 0x64 \<and> B = 0xff9b \<and> C = 1) \<or> (A = 0x2001 \<and> B div 512 = 0)
     \<or> (A = 0x2001 \<and> B = 0xdb8) \<or> A = 0x2002 \<or> (A = 0x3fff \<and> B div 4096 = 0)
     \<or> (A = 0 \<and> B = 0 \<and> C = 0 \<and> D = 0 \<and> E = 0 \<and> F = 0xffff \<and> in_v4_blocks (G * 65536 + H))"
  proof -
    have "p2 div 512 = A * 128 + B div 512" "p2 div 4096 = A * 16 + B div 4096"
      using digits_split [of 512 A 128 B] digits_split [of 4096 A 16 B] by (simp_all add: p)
    then show ?thesis
      by (simp only: p digits_eq [OF bounds(1)] digits_eq [OF bounds(2)] digits_eq [OF bounds(3)] digits_eq [OF bounds(4)]
        digits_eq [OF bounds(5)] digits_eq [OF bounds(6)] digits_eq [OF bounds(7)] digits_eq [OF parts(1)] digits_eq [OF parts(2)])
        (simp add: conj_ac)
  qed
  also have "\<dots> \<longleftrightarrow> is_blocked_ipv6 ip"
  proof -
    have zero: "a = 0 \<longleftrightarrow> A = 0" "b = 0 \<longleftrightarrow> B = 0" "c = 0 \<longleftrightarrow> C = 0" "d = 0 \<longleftrightarrow> D = 0" "e = 0 \<longleftrightarrow> E = 0"
      "f = 0 \<longleftrightarrow> F = 0" "g = 0 \<longleftrightarrow> G = 0" "h = 0 \<longleftrightarrow> H = 0" "h = 1 \<longleftrightarrow> H = 1"
      by (simp_all add: defs word_unat_eq_iff)
    have other: "f = 0xffff \<longleftrightarrow> F = 0xffff" "a = 0x100 \<longleftrightarrow> A = 0x100" "a = 0x64 \<longleftrightarrow> A = 0x64" "b = 0xff9b \<longleftrightarrow> B = 0xff9b"
      "c = 1 \<longleftrightarrow> C = 1" "a = 0x2001 \<longleftrightarrow> A = 0x2001" "b = 0xdb8 \<longleftrightarrow> B = 0xdb8" "a = 0x2002 \<longleftrightarrow> A = 0x2002"
      "a = 0x3fff \<longleftrightarrow> A = 0x3fff" "b < 0x200 \<longleftrightarrow> B div 512 = 0"
      by (simp_all add: defs word_unat_eq_iff word_less_nat_alt) linarith
    have "in_v4_blocks (G * 65536 + H)
        \<longleftrightarrow> is_blocked_ipv4 (Ipv4 (high_octet g) (low_octet g) (high_octet h) (low_octet h))"
      by (simp only: v4_blocks mapped_octets defs)
    then have mapped: "(case to_ipv4_mapped ip of Some ip4 \<Rightarrow> is_blocked_ipv4 ip4 | None \<Rightarrow> False)
        \<longleftrightarrow> A = 0 \<and> B = 0 \<and> C = 0 \<and> D = 0 \<and> E = 0 \<and> F = 0xffff \<and> in_v4_blocks (G * 65536 + H)"
      by (simp add: Ipv6 zero other del: is_blocked_ipv4.simps)
    show ?thesis
      by (simp only: Ipv6 is_blocked_ipv6.simps Let_def mapped [unfolded Ipv6] v6_unspecified.simps v6_loopback.simps
        v6_unique_local.simps v6_unicast_link_local.simps v6_multicast.simps segment_masks list.inject zero other
        ball_simps simp_thms defs [symmetric]) argo
  qed
  finally show ?thesis by (simp add: n)
qed



text \<open>An address under the well-known translation prefix \<open>64:ff9b::/96\<close> carries an IPv4 address in its last two
  segments, as a mapped address does; the policy judges only the mapped one by it.\<close>

lemma nat64_private_passes:
  "\<not> is_blocked_playable_ip (V6 (Ipv6 0x64 0xff9b 0 0 0 0 g h))
   \<and> is_blocked_playable_ip (V6 (Ipv6 0 0 0 0 0 0xffff 0x7f00 1))"
  by (simp add: segment_masks Let_def high_octet_def low_octet_def)

section \<open>Properties\<close>

text \<open>C6. An address is blocked exactly when it lies in one of the special-purpose blocks: the unspecified,
  private, shared, loopback, link-local, documentation, benchmarking, relay, multicast and reserved blocks of
  IPv4; the unspecified, loopback, unique-local, link-local, multicast, discard, translation, protocol,
  documentation and 6to4 blocks of IPv6, a mapped IPv4 address being judged by its last 32 bits.\<close>

theorem blocked_addresses:
  "(is_blocked_playable_ip (V4 p) \<longleftrightarrow> in_v4_blocks (v4_number p))
   \<and> (is_blocked_playable_ip (V6 q) \<longleftrightarrow> in_v6_blocks (v6_number q))"
  by (simp only: is_blocked_playable_ip.simps v4_blocks v6_blocks)

end
