(* ===== verification/PlaybackTarget.thy ===== *)
theory PlaybackTarget
  imports SearchSource Address
begin

text \<open>
  \<open>src/playback_target.rs\<close>: what a URL must satisfy before the player or yt-dlp may open it.  A URL is
  checked as text (\<open>validate_playable_url\<close>), its host is resolved and every address checked
  (\<open>validate_url_destination\<close>), and its redirects are followed here, each hop under the same checks
  (\<open>follow_redirects\<close>).

  The URL parser (crate \<open>url\<close>), name resolution (\<open>tokio\<close>) and the HTTP requests (\<open>reqwest\<close>) are the
  parameters \<open>web\<close> and \<open>network\<close>; the network may answer differently at every hop, so its answers depend
  on the number of the hop.  What is used of the parser is that the text of a parsed URL parses to that
  URL (\<open>url_law\<close>).  An address in an error value stands for its text.
\<close>

definition MAX_PLAYABLE_URL_BYTES :: nat where "MAX_PLAYABLE_URL_BYTES = 4096"
definition MIN_ROUTE_TOKEN_BYTES :: nat where "MIN_ROUTE_TOKEN_BYTES = 22"
definition MAX_ROUTE_TOKEN_BYTES :: nat where "MAX_ROUTE_TOKEN_BYTES = 128"
definition MAX_REDIRECTS :: nat where "MAX_REDIRECTS = 5"

section \<open>Destinations\<close>

datatype credentialed_playback_ref = OpenSubsonicTarget ustring ustring ustring

datatype playback_destination = Direct ustring | Credentialed credentialed_playback_ref

fun direct_target :: "playback_destination \<Rightarrow> ustring option" where
  "direct_target (Direct t) = Some t"
| "direct_target (Credentialed r) = None"

fun credentialed_target :: "playback_destination \<Rightarrow> credentialed_playback_ref option" where
  "credentialed_target (Direct t) = None"
| "credentialed_target (Credentialed r) = Some r"

text \<open>The parts of a parsed URL the code reads: \<open>url_port\<close> is \<open>port_or_known_default\<close> and \<open>url_text\<close> its
  serialisation.  Errors of the crates are their texts.\<close>

record url =
  url_scheme :: ustring
  url_username :: ustring
  url_password :: "ustring option"
  url_host :: "ustring option"
  url_port :: "u16 option"
  url_text :: ustring

record web =
  parse_url :: "ustring \<Rightarrow> ustring + url"
  join_url :: "url \<Rightarrow> ustring \<Rightarrow> ustring + url"

definition url_law :: "web \<Rightarrow> bool" where
  "url_law web \<longleftrightarrow> (\<forall>s u. parse_url web s = Inr u \<longrightarrow> parse_url web (url_text u) = Inr u)"

record response =
  status_code :: nat
  location_header :: "(ustring + ustring) option"

record network =
  client_error :: bool
  lookup_host :: "nat \<Rightarrow> ustring \<Rightarrow> u16 \<Rightarrow> ip_addr list option"
  head_request :: "nat \<Rightarrow> ustring \<Rightarrow> response option"
  range_request :: "nat \<Rightarrow> ustring \<Rightarrow> response option"

text \<open>The platform is a parameter of what is compiled on Windows only.\<close>

definition is_windows_drive_path :: "ustring \<Rightarrow> bool" where
  "is_windows_drive_path raw \<longleftrightarrow> length raw \<ge> 3 \<and> raw ! 1 = 58 \<and> (raw ! 2 = 92 \<or> raw ! 2 = 47)
     \<and> is_ascii_alphabetic (raw ! 0)"

definition local_file_path :: "bool \<Rightarrow> web \<Rightarrow> playback_destination \<Rightarrow> ustring option" where
  "local_file_path windows web d = (case direct_target d of None \<Rightarrow> None | Some raw \<Rightarrow>
     let t = trim raw in
     if t = [] then None
     else if windows \<and> is_windows_drive_path t then Some t
     else (case parse_url web t of Inl e \<Rightarrow> Some t | Inr u \<Rightarrow> None))"

section \<open>Routes of credentialed targets\<close>

record routed_playback =
  route_port :: u16
  route_token :: ustring

definition route_token_char :: "nat \<Rightarrow> bool" where
  "route_token_char c \<longleftrightarrow> is_ascii_alphabetic c \<or> is_ascii_digit c \<or> c = 45 \<or> c = 95"

definition routed_playback_new :: "u16 \<Rightarrow> ustring \<Rightarrow> string + routed_playback" where
  "routed_playback_new port token =
     (if port = 0 \<or> \<not> (MIN_ROUTE_TOKEN_BYTES \<le> byte_len token \<and> byte_len token \<le> MAX_ROUTE_TOKEN_BYTES)
         \<or> \<not> list_all route_token_char token
      then Inl ''invalid_local_route'' else Inr \<lparr>route_port = port, route_token = token\<rparr>)"

definition sealed_loopback_url :: "routed_playback \<Rightarrow> ustring" where
  "sealed_loopback_url r =
     utf ''http://127.0.0.1:'' @ decimal (unat (route_port r)) @ utf ''/stream/'' @ route_token r"

section \<open>Validation of the text\<close>

datatype playable_url_error =
    EmptyUrl | TooLong nat | ControlCharacter | InvalidUrl ustring | UnsupportedScheme ustring | MissingHost
  | UrlCredentials | Localhost | BlockedIp ip_addr | DnsResolution ustring
  | DestinationBlockedIp ustring ip_addr | RedirectLimit nat | RedirectMissingLocation
  | RedirectInvalid ustring | ProbeFailed string

fun handoff_reason :: "playable_url_error \<Rightarrow> string" where
  "handoff_reason EmptyUrl = ''empty''"
| "handoff_reason (TooLong n) = ''too_long''"
| "handoff_reason ControlCharacter = ''control_character''"
| "handoff_reason (InvalidUrl e) = ''invalid_url''"
| "handoff_reason (UnsupportedScheme s) = ''unsupported_scheme''"
| "handoff_reason MissingHost = ''missing_host''"
| "handoff_reason UrlCredentials = ''embedded_credentials''"
| "handoff_reason Localhost = ''blocked_destination''"
| "handoff_reason (BlockedIp ip) = ''blocked_destination''"
| "handoff_reason (DestinationBlockedIp h ip) = ''blocked_destination''"
| "handoff_reason (DnsResolution h) = ''dns_resolution_failed''"
| "handoff_reason (RedirectLimit n) = ''redirect_failed''"
| "handoff_reason RedirectMissingLocation = ''redirect_failed''"
| "handoff_reason (RedirectInvalid e) = ''redirect_failed''"
| "handoff_reason (ProbeFailed e) = ''probe_failed''"

definition is_ascii_control :: "nat \<Rightarrow> bool" where
  "is_ascii_control c \<longleftrightarrow> c < 32 \<or> c = 127"

definition ends_with :: "ustring \<Rightarrow> ustring \<Rightarrow> bool" where
  "ends_with suffix s \<longleftrightarrow> starts_with (rev suffix) (rev s)"

definition normalized_host :: "ustring \<Rightarrow> ustring" where
  "normalized_host host = str_lower (rev (dropWhile (\<lambda>c. c = 46) (rev host)))"

definition ip_host :: "ustring \<Rightarrow> ustring" where
  "ip_host host = (if starts_with [91] host \<and> ends_with [93] (tl host) then butlast (tl host) else host)"

definition validate_playable_url :: "web \<Rightarrow> search_source \<Rightarrow> ustring \<Rightarrow> playable_url_error + ustring" where
  "validate_playable_url web source raw = (let trimmed = trim raw in
     if trimmed = [] then Inl EmptyUrl
     else if byte_len trimmed > MAX_PLAYABLE_URL_BYTES then Inl (TooLong MAX_PLAYABLE_URL_BYTES)
     else if list_ex is_ascii_control trimmed then Inl ControlCharacter
     else (case parse_url web trimmed of Inl e \<Rightarrow> Inl (InvalidUrl e) | Inr u \<Rightarrow>
       if url_scheme u \<notin> {utf ''http'', utf ''https''} then Inl (UnsupportedScheme (url_scheme u))
       else if url_username u \<noteq> [] \<or> url_password u \<noteq> None then Inl UrlCredentials
       else (case url_host u of None \<Rightarrow> Inl MissingHost | Some host \<Rightarrow>
         let h = normalized_host host in
         if h = utf ''localhost'' \<or> ends_with (utf ''.localhost'') h then Inl Localhost
         else (case parse_ip (ip_host h) of
             Some ip \<Rightarrow> if is_blocked_playable_ip ip then Inl (BlockedIp ip) else Inr (url_text u)
           | None \<Rightarrow> Inr (url_text u)))))"

definition is_trusted_handoff_url :: "url \<Rightarrow> bool" where
  "is_trusted_handoff_url u = (case url_host u of None \<Rightarrow> False | Some host \<Rightarrow>
     let h = normalized_host host in
       h = utf ''youtu.be'' \<or> h = utf ''youtube.com'' \<or> ends_with (utf ''.youtube.com'') h
       \<or> h = utf ''googlevideo.com'' \<or> ends_with (utf ''.googlevideo.com'') h)"

definition is_trusted_generated_url :: "search_source \<Rightarrow> url \<Rightarrow> bool" where
  "is_trusted_generated_url source u \<longleftrightarrow> source = Youtube \<and> is_trusted_handoff_url u"

section \<open>Validation of the destination\<close>

text \<open>\<open>saw_any\<close> is the flag of the loop.\<close>

fun resolved_ips_loop :: "ustring \<Rightarrow> bool \<Rightarrow> ip_addr list \<Rightarrow> playable_url_error + unit" where
  "resolved_ips_loop host saw_any [] = (if saw_any then Inr () else Inl (DnsResolution host))"
| "resolved_ips_loop host saw_any (ip # ips) =
     (if is_blocked_playable_ip ip then Inl (DestinationBlockedIp host ip) else resolved_ips_loop host True ips)"

definition validate_resolved_ips :: "ustring \<Rightarrow> ip_addr list \<Rightarrow> playable_url_error + unit" where
  "validate_resolved_ips host ips = resolved_ips_loop host False ips"

definition validate_url_destination :: "network \<Rightarrow> nat \<Rightarrow> url \<Rightarrow> playable_url_error + unit" where
  "validate_url_destination net k u = (case url_host u of None \<Rightarrow> Inl MissingHost | Some host \<Rightarrow>
     (case parse_ip (ip_host (normalized_host host)) of
        Some ip \<Rightarrow> validate_resolved_ips host [ip]
      | None \<Rightarrow> (case url_port u of
          None \<Rightarrow> Inl (ProbeFailed ''URL has no default port for destination check'')
        | Some port \<Rightarrow> (case lookup_host net k host port of
            None \<Rightarrow> Inl (DnsResolution host)
          | Some ips \<Rightarrow> validate_resolved_ips host ips))))"

definition redirect_target :: "web \<Rightarrow> url \<Rightarrow> ustring \<Rightarrow> playable_url_error + url" where
  "redirect_target web base location =
     (case join_url web base location of Inl e \<Rightarrow> Inl (RedirectInvalid e) | Inr u \<Rightarrow> Inr u)"

definition range_probe :: "network \<Rightarrow> nat \<Rightarrow> url \<Rightarrow> playable_url_error + response" where
  "range_probe net k u = (case range_request net k (url_text u) of
     None \<Rightarrow> Inl (ProbeFailed ''HTTP request failed'') | Some r \<Rightarrow> Inr r)"

definition probe_response :: "network \<Rightarrow> nat \<Rightarrow> url \<Rightarrow> playable_url_error + response" where
  "probe_response net k u = (case head_request net k (url_text u) of
     Some r \<Rightarrow> if status_code r = 405 then range_probe net k u else Inr r
   | None \<Rightarrow> range_probe net k u)"

definition is_redirection :: "response \<Rightarrow> bool" where
  "is_redirection r \<longleftrightarrow> 300 \<le> status_code r \<and> status_code r < 400"

definition probe_redirect :: "web \<Rightarrow> network \<Rightarrow> nat \<Rightarrow> url \<Rightarrow> playable_url_error + url option" where
  "probe_redirect web net k u = (case probe_response net k u of Inl e \<Rightarrow> Inl e | Inr r \<Rightarrow>
     if \<not> is_redirection r then Inr None
     else (case location_header r of
         None \<Rightarrow> Inl RedirectMissingLocation
       | Some (Inl e) \<Rightarrow> Inl (RedirectInvalid e)
       | Some (Inr location) \<Rightarrow> (case redirect_target web u location of Inl e \<Rightarrow> Inl e | Inr next \<Rightarrow>
           (case validate_playable_url web AllSources (url_text next) of Inl e \<Rightarrow> Inl e | Inr clean \<Rightarrow>
             (case parse_url web clean of Inl e \<Rightarrow> Inl (RedirectInvalid e) | Inr v \<Rightarrow> Inr (Some v))))))"

text \<open>The loop of \<open>follow_redirects\<close>, with \<open>n\<close> rounds left and \<open>k\<close> the number of the hop.\<close>

fun follow_hops :: "web \<Rightarrow> network \<Rightarrow> nat \<Rightarrow> nat \<Rightarrow> url \<Rightarrow> playable_url_error + url" where
  "follow_hops web net k 0 u = Inl (RedirectLimit MAX_REDIRECTS)"
| "follow_hops web net k (Suc n) u = (case validate_url_destination net k u of Inl e \<Rightarrow> Inl e | Inr _ \<Rightarrow>
     (case probe_redirect web net k u of
        Inl e \<Rightarrow> Inl e
      | Inr None \<Rightarrow> Inr u
      | Inr (Some v) \<Rightarrow> follow_hops web net (Suc k) n v))"

definition follow_redirects :: "web \<Rightarrow> network \<Rightarrow> nat \<Rightarrow> url \<Rightarrow> playable_url_error + url" where
  "follow_redirects web net k u =
     (if client_error net then Inl (ProbeFailed ''HTTP client initialization failed'')
      else follow_hops web net k MAX_REDIRECTS u)"

definition validate_playable_url_destination ::
    "web \<Rightarrow> network \<Rightarrow> search_source \<Rightarrow> ustring \<Rightarrow> playable_url_error + ustring" where
  "validate_playable_url_destination web net source raw =
     (case validate_playable_url web source raw of Inl e \<Rightarrow> Inl e | Inr clean \<Rightarrow>
       (case parse_url web clean of Inl e \<Rightarrow> Inl (InvalidUrl e) | Inr u \<Rightarrow>
         if is_trusted_generated_url source u then Inr clean
         else (case validate_url_destination net 0 u of Inl e \<Rightarrow> Inl e | Inr _ \<Rightarrow>
           (case follow_redirects web net 1 u of Inl e \<Rightarrow> Inl e | Inr v \<Rightarrow> Inr (url_text v)))))"

definition validate_playback_target_for_handoff ::
    "bool \<Rightarrow> web \<Rightarrow> network \<Rightarrow> ustring \<Rightarrow> playable_url_error + ustring" where
  "validate_playback_target_for_handoff windows web net raw = (let trimmed = trim raw in
     case parse_url web trimmed of Inl e \<Rightarrow> Inr raw | Inr u \<Rightarrow>
       if url_scheme u \<in> {utf ''http'', utf ''https''} then
         (if is_trusted_handoff_url u then validate_playable_url web Youtube trimmed
          else validate_playable_url_destination web net AllSources trimmed)
       else if windows \<and> is_windows_drive_path trimmed then Inr raw
       else Inl (UnsupportedScheme (url_scheme u)))"


section \<open>What a validated URL satisfies\<close>

text \<open>\<open>safe_url\<close>: a web URL without credentials whose host is neither local nor a blocked address.\<close>

definition safe_url :: "url \<Rightarrow> bool" where
  "safe_url u \<longleftrightarrow> url_scheme u \<in> {utf ''http'', utf ''https''} \<and> url_username u = [] \<and> url_password u = None
     \<and> (case url_host u of None \<Rightarrow> False | Some host \<Rightarrow> let h = normalized_host host in
         h \<noteq> utf ''localhost'' \<and> \<not> ends_with (utf ''.localhost'') h
         \<and> (case parse_ip (ip_host h) of None \<Rightarrow> True | Some ip \<Rightarrow> \<not> is_blocked_playable_ip ip))"

text \<open>\<open>public_destination net k u\<close>: at hop \<open>k\<close> the host of \<open>u\<close> is a public address, or a name that
  resolves to public addresses only.\<close>

definition public_destination :: "network \<Rightarrow> nat \<Rightarrow> url \<Rightarrow> bool" where
  "public_destination net k u \<longleftrightarrow> (case url_host u of None \<Rightarrow> False | Some host \<Rightarrow>
     (case parse_ip (ip_host (normalized_host host)) of Some ip \<Rightarrow> \<not> is_blocked_playable_ip ip
      | None \<Rightarrow> (case url_port u of None \<Rightarrow> False | Some port \<Rightarrow>
         (case lookup_host net k host port of None \<Rightarrow> False
          | Some ips \<Rightarrow> ips \<noteq> [] \<and> list_all (\<lambda>ip. \<not> is_blocked_playable_ip ip) ips))))"

text \<open>\<open>redirects web net k us\<close>: from hop \<open>k\<close> on the network answers with a redirect from each URL of \<open>us\<close>
  to the next and none from the last, and each is safe and public when it is asked.\<close>

inductive redirects :: "web \<Rightarrow> network \<Rightarrow> nat \<Rightarrow> url list \<Rightarrow> bool" for web net where
  Arrive: "safe_url u \<Longrightarrow> public_destination net k u \<Longrightarrow> probe_redirect web net k u = Inr None \<Longrightarrow>
    redirects web net k [u]"
| Hop: "safe_url u \<Longrightarrow> public_destination net k u \<Longrightarrow> probe_redirect web net k u = Inr (Some v) \<Longrightarrow>
    redirects web net (Suc k) (v # us) \<Longrightarrow> redirects web net k (u # v # us)"

code_pred redirects .

inductive_cases redirects_NilE [elim!]: "redirects web net k []"
inductive_simps redirects_single [simp]: "redirects web net k [u]"
inductive_simps redirects_more [simp]: "redirects web net k (u # v # us)"
inductive_cases redirects_ConsE: "redirects web net k (u # us)"

lemma resolved_loop: "resolved_ips_loop host b ips = Inr () \<longleftrightarrow>
    (b \<or> ips \<noteq> []) \<and> list_all (\<lambda>ip. \<not> is_blocked_playable_ip ip) ips"
  by (induction host b ips rule: resolved_ips_loop.induct) auto

lemma validate_destination_iff: "validate_url_destination net k u = Inr x \<longleftrightarrow> public_destination net k u"
  by (auto simp: validate_url_destination_def public_destination_def validate_resolved_ips_def resolved_loop
    split: option.split)

lemma validate_playable_url_InrD: "validate_playable_url web source s = Inr t \<Longrightarrow>
    \<exists>u. parse_url web (trim s) = Inr u \<and> safe_url u \<and> t = url_text u"
  by (auto simp: validate_playable_url_def safe_url_def Let_def split: if_splits sum.splits option.splits)

lemma probe_redirect_safe: "url_law web \<Longrightarrow> probe_redirect web net k u = Inr (Some v) \<Longrightarrow> safe_url v"
  by (auto simp: probe_redirect_def url_law_def split: if_splits sum.splits option.splits
    dest!: validate_playable_url_InrD)

lemma visited_Cons: "(\<exists>us. (\<exists>vs. us = v # vs \<and> R vs) \<and> last (u # us) = w \<and> length (u # us) \<le> Suc n) \<longleftrightarrow>
    (\<exists>vs. R vs \<and> last (v # vs) = w \<and> length (v # vs) \<le> n)" (is "?l \<longleftrightarrow> ?r")
proof
  assume ?l
  then obtain vs where "R vs" "last (u # v # vs) = w" "length (u # v # vs) \<le> Suc n" by blast
  then have "R vs \<and> last (v # vs) = w \<and> length (v # vs) \<le> n" by simp
  then show ?r by blast
next
  assume ?r
  then obtain vs where "R vs" "last (u # v # vs) = w" "length (u # v # vs) \<le> Suc n" by auto
  then show ?l by blast
qed

lemma follow_hops_iff:
  assumes "url_law web"
  shows "safe_url u \<Longrightarrow> follow_hops web net k n u = Inr w \<longleftrightarrow>
    (\<exists>us. redirects web net k (u # us) \<and> last (u # us) = w \<and> length (u # us) \<le> n)"
proof (induction n arbitrary: k u)
  case 0
  then show ?case by simp
next
  case (Suc n)
  show ?case
  proof (cases "public_destination net k u")
    case True
    then have dest: "validate_url_destination net k u = Inr ()" by (simp add: validate_destination_iff)
    show ?thesis
    proof (cases "probe_redirect web net k u")
      case (Inr answer)
      show ?thesis
      proof (cases answer)
        case None
        have "redirects web net k (u # us) \<longleftrightarrow> us = []" for us
          using Inr None Suc.prems True by (cases us) simp_all
        then show ?thesis using Inr None dest by auto
      next
        case (Some v)
        then have "safe_url v" using Inr probe_redirect_safe [OF assms] by simp
        note IH = Suc.IH [OF this, of "Suc k"]
        have "redirects web net k (u # us) \<longleftrightarrow> (\<exists>vs. us = v # vs \<and> redirects web net (Suc k) (v # vs))" for us
          using Inr Some Suc.prems True by (cases us) auto
        then have "(\<exists>us. redirects web net k (u # us) \<and> last (u # us) = w \<and> length (u # us) \<le> Suc n) \<longleftrightarrow>
            (\<exists>vs. redirects web net (Suc k) (v # vs) \<and> last (v # vs) = w \<and> length (v # vs) \<le> n)" by (simp only: visited_Cons)
        then show ?thesis using IH Inr Some dest by simp
      qed
    qed (use dest in \<open>auto elim: redirects_ConsE\<close>)
  next
    case False
    then have "validate_url_destination net k u \<noteq> Inr x" for x by (simp add: validate_destination_iff)
    then obtain e where "validate_url_destination net k u = Inl e" by (cases "validate_url_destination net k u") auto
    then show ?thesis using False by (auto elim: redirects_ConsE)
  qed
qed


lemma validate_destination_chain:
  assumes "url_law web" "validate_playable_url_destination web net source raw = Inr out"
    "\<forall>u. parse_url web (trim raw) = Inr u \<longrightarrow> \<not> is_trusted_generated_url source u"
  shows "\<exists>u us. parse_url web (trim raw) = Inr u \<and> public_destination net 0 u \<and> redirects web net 1 (u # us)
    \<and> length (u # us) \<le> MAX_REDIRECTS \<and> out = url_text (last (u # us))"
proof -
  obtain clean where clean: "validate_playable_url web source raw = Inr clean"
    using assms(2) by (auto simp: validate_playable_url_destination_def split: sum.splits)
  then obtain u where u: "parse_url web (trim raw) = Inr u" "safe_url u" "clean = url_text u"
    using validate_playable_url_InrD by blast
  then have parse: "parse_url web clean = Inr u" using assms(1) by (simp add: url_law_def)
  have untrusted: "\<not> is_trusted_generated_url source u" using assms(3) u(1) by simp
  obtain x where dest: "validate_url_destination net 0 u = Inr x"
    using assms(2) untrusted by (cases "validate_url_destination net 0 u")
      (simp_all add: validate_playable_url_destination_def clean parse)
  obtain w where w: "follow_redirects web net 1 u = Inr w" "out = url_text w"
    using assms(2) untrusted dest by (cases "follow_redirects web net 1 u")
      (simp_all add: validate_playable_url_destination_def clean parse)
  then have "follow_hops web net 1 MAX_REDIRECTS u = Inr w" by (simp add: follow_redirects_def split: if_splits)
  then show ?thesis using follow_hops_iff [OF assms(1) u(2), where k = 1 and n = MAX_REDIRECTS and w = w]
      dest w(2) u(1) unfolding validate_destination_iff by blast
qed

lemma handoff_cases:
  assumes "url_law web" "validate_playback_target_for_handoff windows web net raw = Inr out"
  shows "(out = raw \<and> (\<exists>e. parse_url web (trim raw) = Inl e))
    \<or> (out = raw \<and> windows \<and> is_windows_drive_path (trim raw)
        \<and> (\<forall>u. parse_url web (trim raw) = Inr u \<longrightarrow> url_scheme u \<notin> {utf ''http'', utf ''https''}))
    \<or> (\<exists>u. parse_url web (trim raw) = Inr u \<and> safe_url u \<and> is_trusted_handoff_url u \<and> out = url_text u)
    \<or> (\<exists>u us. parse_url web (trim raw) = Inr u \<and> public_destination net 0 u \<and> redirects web net 1 (u # us)
        \<and> length (u # us) \<le> 5 \<and> out = url_text (last (u # us)))"
proof (cases "parse_url web (trim raw)")
  case (Inl e)
  then show ?thesis using assms(2) by (simp add: validate_playback_target_for_handoff_def)
next
  case (Inr u)
  note parse = this
  show ?thesis
  proof (cases "url_scheme u \<in> {utf ''http'', utf ''https''}")
    case False
    then show ?thesis using assms(2) parse
      by (auto simp: validate_playback_target_for_handoff_def Let_def split: if_splits)
  next
    case True
    show ?thesis
    proof (cases "is_trusted_handoff_url u")
      case True
      then have "validate_playable_url web Youtube (trim raw) = Inr out"
        using assms(2) parse \<open>url_scheme u \<in> _\<close> by (simp add: validate_playback_target_for_handoff_def)
      then show ?thesis using validate_playable_url_InrD True parse by fastforce
    next
      case False
      then have "validate_playable_url_destination web net AllSources (trim raw) = Inr out"
        using assms(2) parse True by (simp add: validate_playback_target_for_handoff_def)
      then show ?thesis using validate_destination_chain [OF assms(1), of net AllSources "trim raw" out] parse
        by (auto simp: is_trusted_generated_url_def MAX_REDIRECTS_def)
    qed
  qed
qed


section \<open>Literal addresses\<close>

lemma dotted_shape: "\<exists>s c. dotted ip = s @ [c] \<and> is_ascii_digit c" "is_ascii_digit (hd (dotted ip))"
  "str_lower (dotted ip) = dotted ip"
proof -
  obtain a b c d where ip: "ip = Ipv4 a b c d" by (cases ip)
  have digits: "\<exists>s c. decimal n = s @ [c] \<and> is_ascii_digit c" "is_ascii_digit (hd (decimal n))"
      "str_lower (decimal n) = decimal n" for n
  proof -
    show "\<exists>s c. decimal n = s @ [c] \<and> is_ascii_digit c" "is_ascii_digit (hd (decimal n))"
      using decimal_digits [of "last (decimal n)" n] decimal_digits [of "hd (decimal n)" n]
      by simp_all (metis append_butlast_last_id decimal_not_Nil)
    have "to_ascii_lower c = c" if "c \<in> set (decimal n)" for c
      using decimal_digits [OF that] by (simp add: to_ascii_lower_def is_ascii_uppercase_def is_ascii_digit_def)
    then show "str_lower (decimal n) = decimal n" by (simp add: str_lower_def map_idI)
  qed
  show "\<exists>s c. dotted ip = s @ [c] \<and> is_ascii_digit c" using digits(1) [of "unat d"] by (auto simp: ip)
  show "is_ascii_digit (hd (dotted ip))" using digits(2) [of "unat a"] by (simp add: ip)
  have "str_lower (46 # s) = 46 # str_lower s" for s
    by (simp add: str_lower_def to_ascii_lower_def is_ascii_uppercase_def)
  then show "str_lower (dotted ip) = dotted ip" by (simp add: ip digits(3))
qed

lemma normalized_dotted: "normalized_host (dotted ip @ replicate n 46) = dotted ip"
proof -
  obtain s c where "dotted ip = s @ [c]" "is_ascii_digit c" using dotted_shape(1) by blast
  then have "rev (dropWhile (\<lambda>c. c = 46) (rev (dotted ip @ replicate n 46))) = dotted ip"
    by (auto simp: dropWhile_append is_ascii_digit_def)
  then show ?thesis by (simp add: normalized_host_def dotted_shape(3))
qed

lemma dotted_not_local: "dotted ip \<noteq> utf ''localhost''" "\<not> ends_with (utf ''.localhost'') (dotted ip)"
  "ip_host (dotted ip) = dotted ip"
proof -
  obtain s c where d: "dotted ip = s @ [c]" "is_ascii_digit c" using dotted_shape(1) by blast
  show "dotted ip \<noteq> utf ''localhost''" using dotted_shape(2) [of ip] by (auto simp: utf_def is_ascii_digit_def)
  show "\<not> ends_with (utf ''.localhost'') (dotted ip)"
    using d by (simp add: ends_with_def starts_with_def utf_def is_ascii_digit_def)
  have "\<not> starts_with [91] (dotted ip)"
    using dotted_shape(2) [of ip] by (cases "dotted ip") (auto simp: starts_with_def is_ascii_digit_def)
  then show "ip_host (dotted ip) = dotted ip" by (simp add: ip_host_def)
qed

lemma validate_literal:
  assumes "parse_url web (trim raw) = Inr u" "url_host u = Some (dotted ip @ replicate n 46)" "is_blocked_ipv4 ip"
  shows "\<exists>e. validate_playable_url web source raw = Inl e"
    "\<not> public_destination net k u" "\<not> safe_url u"
  using assms(3) by (auto simp: validate_playable_url_def public_destination_def safe_url_def Let_def assms(1,2)
    normalized_dotted dotted_not_local parse_dotted)

section \<open>Properties\<close>

text \<open>C3. The guard before the player lets a web target through only in two ways: the host is one of the YouTube
  domains and the URL is safe (no credentials, no local host, no blocked address); or the target is followed
  through at most five URLs, each of them safe and, at the moment it is asked, at a public address or a name
  that resolves to public addresses only, and what the player gets is the last one, which answered without a
  redirect.  Anything else that passes is not a web URL: text that is no URL at all, or a Windows path.\<close>

theorem handoff_public:
  assumes "url_law web" "validate_playback_target_for_handoff windows web net raw = Inr out"
  shows "(out = raw \<and> (\<exists>e. parse_url web (trim raw) = Inl e))
    \<or> (out = raw \<and> windows \<and> is_windows_drive_path (trim raw)
        \<and> (\<forall>u. parse_url web (trim raw) = Inr u \<longrightarrow> url_scheme u \<notin> {utf ''http'', utf ''https''}))
    \<or> (\<exists>u. parse_url web (trim raw) = Inr u \<and> safe_url u \<and> is_trusted_handoff_url u \<and> out = url_text u)
    \<or> (\<exists>u us. parse_url web (trim raw) = Inr u \<and> public_destination net 0 u \<and> redirects web net 1 (u # us)
        \<and> length (u # us) \<le> 5 \<and> out = url_text (last (u # us)))"
  using handoff_cases [OF assms] by blast

definition demo_url :: "string \<Rightarrow> url" where
  "demo_url host = \<lparr>url_scheme = utf ''https'', url_username = [], url_password = None, url_host = Some (utf host),
     url_port = Some 443, url_text = utf (''https://'' @ host)\<rparr>"

definition demo_web :: web where
  "demo_web = \<lparr>parse_url = (\<lambda>s. if s = utf ''https://radio.fm'' then Inr (demo_url ''radio.fm'')
       else if s = utf ''https://cdn.fm'' then Inr (demo_url ''cdn.fm'') else Inl (utf ''relative URL without a base'')),
     join_url = (\<lambda>base location. if location = utf ''//cdn.fm'' then Inr (demo_url ''cdn.fm'') else Inl [])\<rparr>"

definition demo_network :: network where
  "demo_network = \<lparr>client_error = False, lookup_host = (\<lambda>k host port. Some [V4 (Ipv4 93 184 216 34)]),
     head_request = (\<lambda>k s. if s = utf ''https://radio.fm''
       then Some \<lparr>status_code = 302, location_header = Some (Inr (utf ''//cdn.fm''))\<rparr>
       else Some \<lparr>status_code = 405, location_header = None\<rparr>),
     range_request = (\<lambda>k s. Some \<lparr>status_code = 206, location_header = None\<rparr>)\<rparr>"

lemma demo_law: "url_law demo_web"
  unfolding url_law_def demo_web_def by (auto simp: demo_url_def utf_def split: if_splits)

lemma demo_parse:
  "parse_url demo_web (utf ''https://radio.fm'') = Inr (demo_url ''radio.fm'')"
  "parse_url demo_web (utf ''https://cdn.fm'') = Inr (demo_url ''cdn.fm'')"
  by (simp_all add: demo_web_def utf_def)

lemma demo_text:
  "trim (utf '' https://radio.fm'') = utf ''https://radio.fm''" "trim (utf ''https://radio.fm'') = utf ''https://radio.fm''"
  "trim (utf ''https://cdn.fm'') = utf ''https://cdn.fm''"
  "byte_len (utf ''https://radio.fm'') = 16" "byte_len (utf ''https://cdn.fm'') = 14"
  "\<not> list_ex is_ascii_control (utf ''https://radio.fm'')" "\<not> list_ex is_ascii_control (utf ''https://cdn.fm'')"
  by (simp_all add: trim_def trim_start_def trim_end_def is_whitespace_def utf_def byte_len_def utf8_len_def is_ascii_control_def)

lemma demo_host:
  "normalized_host (utf ''radio.fm'') = utf ''radio.fm''" "normalized_host (utf ''cdn.fm'') = utf ''cdn.fm''"
  "ip_host (utf ''radio.fm'') = utf ''radio.fm''" "ip_host (utf ''cdn.fm'') = utf ''cdn.fm''"
  by (simp_all add: normalized_host_def utf_def str_lower_def to_ascii_lower_def is_ascii_uppercase_def
    ip_host_def starts_with_def)

lemma demo_names: "parse_ip (utf ''radio.fm'') = None" "parse_ip (utf ''cdn.fm'') = None"
  by code_simp+

lemma demo_fields:
  "url_scheme (demo_url h) = utf ''https''" "url_username (demo_url h) = []" "url_password (demo_url h) = None"
  "url_host (demo_url h) = Some (utf h)" "url_port (demo_url h) = Some 443" "url_text (demo_url h) = utf (''https://'' @ h)"
  by (simp_all add: demo_url_def)

lemma demo_urls_valid:
  "validate_playable_url demo_web source (utf ''https://radio.fm'') = Inr (utf ''https://radio.fm'')"
  "validate_playable_url demo_web source (utf ''https://cdn.fm'') = Inr (utf ''https://cdn.fm'')"
  unfolding validate_playable_url_def demo_text demo_parse Let_def
  by (simp_all add: demo_text demo_fields demo_host demo_names MAX_PLAYABLE_URL_BYTES_def)
    (simp_all add: utf_def ends_with_def starts_with_def)

lemma demo_destination:
  "validate_url_destination demo_network k (demo_url ''radio.fm'') = Inr ()"
  "validate_url_destination demo_network k (demo_url ''cdn.fm'') = Inr ()"
  by (simp_all add: validate_url_destination_def demo_fields demo_host demo_names demo_network_def
    validate_resolved_ips_def Let_def)

lemma demo_probe:
  "probe_redirect demo_web demo_network k (demo_url ''radio.fm'') = Inr (Some (demo_url ''cdn.fm''))"
  "probe_redirect demo_web demo_network k (demo_url ''cdn.fm'') = Inr None"
proof -
  have join: "join_url demo_web base (utf ''//cdn.fm'') = Inr (demo_url ''cdn.fm'')" for base
    by (simp add: demo_web_def)
  have "utf ''https://cdn.fm'' \<noteq> utf ''https://radio.fm''" by (simp add: utf_def)
  then have response: "probe_response demo_network k (demo_url ''radio.fm'')
      = Inr \<lparr>status_code = 302, location_header = Some (Inr (utf ''//cdn.fm''))\<rparr>"
    "probe_response demo_network k (demo_url ''cdn.fm'') = Inr \<lparr>status_code = 206, location_header = None\<rparr>"
    by (simp_all add: probe_response_def range_probe_def demo_fields demo_network_def)
  show "probe_redirect demo_web demo_network k (demo_url ''radio.fm'') = Inr (Some (demo_url ''cdn.fm''))"
    using demo_urls_valid(2) demo_parse(2) join
    by (simp add: probe_redirect_def response is_redirection_def redirect_target_def demo_fields)
  show "probe_redirect demo_web demo_network k (demo_url ''cdn.fm'') = Inr None"
    by (simp add: probe_redirect_def response is_redirection_def)
qed

lemma demo_untrusted: "\<not> is_trusted_handoff_url (demo_url ''radio.fm'')"
  by (simp add: is_trusted_handoff_url_def demo_fields demo_host) (simp add: utf_def ends_with_def starts_with_def)

lemma demo_handoff:
  "validate_playback_target_for_handoff False demo_web demo_network (utf '' https://radio.fm'') = Inr (utf ''https://cdn.fm'')"
proof -
  have hops: "follow_redirects demo_web demo_network (Suc 0) (demo_url ''radio.fm'') = Inr (demo_url ''cdn.fm'')"
    by (simp add: follow_redirects_def MAX_REDIRECTS_def eval_nat_numeral demo_destination demo_probe)
      (simp add: demo_network_def)
  have "validate_playable_url_destination demo_web demo_network AllSources (utf ''https://radio.fm'') = Inr (utf ''https://cdn.fm'')"
    by (simp add: validate_playable_url_destination_def demo_urls_valid demo_parse is_trusted_generated_url_def
      demo_destination hops) (simp add: demo_fields)
  then show ?thesis
    by (simp add: validate_playback_target_for_handoff_def demo_text demo_parse demo_untrusted demo_fields)
qed

lemma handoff_public_witness:
  "validate_playback_target_for_handoff False demo_web demo_network (utf '' https://radio.fm'') = Inr (utf ''https://cdn.fm'')
   \<and> (\<exists>us. redirects demo_web demo_network 1 (demo_url ''radio.fm'' # us)
        \<and> utf ''https://cdn.fm'' = url_text (last (demo_url ''radio.fm'' # us)))"
proof -
  have "utf ''https://cdn.fm'' \<noteq> utf '' https://radio.fm''" by (simp add: utf_def)
  then show ?thesis using handoff_public [OF demo_law demo_handoff] demo_handoff demo_untrusted
    unfolding demo_text demo_parse by blast
qed

text \<open>A web URL whose host is a blocked IPv4 address in dotted notation, whatever dots follow it, is refused
  by the guard on any network.\<close>

theorem blocked_literal_refused:
  assumes "url_law web" "parse_url web (trim raw) = Inr u" "url_scheme u \<in> {utf ''http'', utf ''https''}"
    "url_host u = Some (dotted ip @ replicate n 46)" "is_blocked_ipv4 ip"
  shows "\<exists>e. validate_playback_target_for_handoff windows web net raw = Inl e"
proof (rule ccontr)
  assume "\<nexists>e. validate_playback_target_for_handoff windows web net raw = Inl e"
  then obtain out where "validate_playback_target_for_handoff windows web net raw = Inr out"
    by (cases "validate_playback_target_for_handoff windows web net raw") auto
  from handoff_cases [OF assms(1) this] show False
    using validate_literal(3) [OF assms(2,4,5)] assms(2,3) by (auto elim: redirects_ConsE)
qed


lemma blocked_literal_refused_witness:
  "\<exists>e. validate_playback_target_for_handoff False
     \<lparr>parse_url = (\<lambda>s. Inr (demo_url ''10.0.0.1.'')), join_url = (\<lambda>u s. Inl [])\<rparr> demo_network (utf ''https://10.0.0.1.'') = Inl e"
proof -
  let ?web = "\<lparr>parse_url = (\<lambda>s. Inr (demo_url ''10.0.0.1.'')), join_url = (\<lambda>u s. Inl [])\<rparr>"
  have "url_law ?web" by (simp add: url_law_def)
  moreover have "url_host (demo_url ''10.0.0.1.'') = Some (dotted (Ipv4 10 0 0 1) @ replicate 1 46)"
    by (simp add: demo_fields utf_def decimal.simps)
  moreover have "is_blocked_ipv4 (Ipv4 10 0 0 1)" by simp
  ultimately show ?thesis
    using blocked_literal_refused [of ?web "utf ''https://10.0.0.1.''" "demo_url ''10.0.0.1.''" "Ipv4 10 0 0 1" 1 False demo_network]
    by (simp add: demo_fields)
qed

end
