(* ===== verification/SongIdentity.thy ===== *)
theory SongIdentity
  imports Song PlaybackTarget
begin

text \<open>
  The rest of \<open>src/api/domain.rs\<close>: how a track is built from a provider's row, a music server's row or a file,
  which YouTube video it stands for, and what the player is given to open it; and \<open>parse_duration_secs\<close>
  of \<open>src/streaming/candidate.rs\<close>.

  A path is its text.  Resolving a path (\<open>canonicalize\<close>), the query encoding of \<open>reqwest\<close> and the digest behind
  \<open>stable_track_id\<close> (of \<open>src/open_subsonic/model.rs\<close>) are parameters.
\<close>

definition PLAYLIST_ID_PREFIX :: ustring where "PLAYLIST_ID_PREFIX = utf ''ytpl:''"
definition ARTIST_ID_PREFIX :: ustring where "ARTIST_ID_PREFIX = utf ''ytar:''"
definition MAX_ORIGIN_URL_CHARS :: nat where "MAX_ORIGIN_URL_CHARS = 512"

section \<open>Identifiers\<close>

definition ascii_alphanumeric :: "nat \<Rightarrow> bool" where
  "ascii_alphanumeric c \<longleftrightarrow> is_ascii_alphabetic c \<or> is_ascii_digit c"

definition is_youtube_video_id :: "ustring \<Rightarrow> bool" where
  "is_youtube_video_id s \<longleftrightarrow> byte_len s = 11 \<and> list_all (\<lambda>c. ascii_alphanumeric c \<or> c = 95 \<or> c = 45) s"

definition is_definitely_non_video_youtube_ref :: "ustring \<Rightarrow> bool" where
  "is_definitely_non_video_youtube_ref s \<longleftrightarrow> \<not> is_youtube_video_id s
     \<and> (list_ex (\<lambda>p. starts_with p s) [PLAYLIST_ID_PREFIX, ARTIST_ID_PREFIX, utf ''UC'', utf ''UU'', utf ''PL'',
            utf ''VL'', utf ''RD'', utf ''MPRE'', utf ''OLAK5uy'']
        \<or> list_ex (\<lambda>c. \<not> (ascii_alphanumeric c \<or> c = 95 \<or> c = 45 \<or> c = 58 \<or> c = 46)) s)"

section \<open>Durations\<close>

text \<open>\<open>str::parse::<u32>\<close>.\<close>

definition parse_u32 :: "ustring \<Rightarrow> nat option" where
  "parse_u32 s = (let ds = (if starts_with [43] s then tl s else s) in
     if ds \<noteq> [] \<and> list_all is_ascii_digit ds \<and> dec_value ds < 2 ^ 32 then Some (dec_value ds) else None)"

fun duration_loop :: "nat \<Rightarrow> ustring list \<Rightarrow> nat option" where
  "duration_loop acc [] = Some acc"
| "duration_loop acc (part # parts) = (case parse_u32 (trim part) of None \<Rightarrow> None
     | Some n \<Rightarrow> if acc * 60 < 2 ^ 32 \<and> acc * 60 + n < 2 ^ 32 then duration_loop (acc * 60 + n) parts else None)"

definition parse_duration_secs :: "ustring \<Rightarrow> u32 option" where
  "parse_duration_secs s = (let t = trim s in
     if t = [] then None else map_option of_nat (duration_loop 0 (split_on (\<lambda>c. c = 58) t)))"

definition duration_text :: "u32 \<Rightarrow> ustring" where
  "duration_text secs = decimal (unat (secs div 60)) @ 58 # decimal2 (unat (secs mod 60))"

section \<open>Tracks of the catalogs\<close>

definition open_subsonic_item :: "song \<Rightarrow> open_subsonic_item_ref option" where
  "open_subsonic_item s = (case playable s of Some (OpenSubsonicRef item _) \<Rightarrow> Some item | _ \<Rightarrow> None)"

definition song_from_search :: "ustring \<Rightarrow> ustring \<Rightarrow> ustring \<Rightarrow> ustring \<Rightarrow> ustring option \<Rightarrow> song" where
  "song_from_search vid ttl art dur alb = (let s = song_remote vid ttl art dur in
     s\<lparr>duration_secs := parse_duration_secs (duration s), album := sanitize_optional_metadata alb MAX_ALBUM_CHARS\<rparr>)"

text \<open>\<open>stable_track_id\<close> digests the three identifiers, each preceded by its length in bytes (as eight bytes,
  most significant first); \<open>sha256_hex\<close> stands for the crates \<open>sha2\<close> and \<open>data_encoding\<close>.\<close>

type_synonym sha256_hex = "nat list \<Rightarrow> ustring"

definition be_bytes :: "nat \<Rightarrow> nat list" where
  "be_bytes n = map (\<lambda>i. n div 256 ^ i mod 256) [7, 6, 5, 4, 3, 2, 1, 0]"

definition length_prefixed :: "nat list \<Rightarrow> nat list" where
  "length_prefixed bytes = be_bytes (length bytes mod 2 ^ 64) @ bytes"

definition stable_track_id :: "sha256_hex \<Rightarrow> open_subsonic_item_ref \<Rightarrow> ustring" where
  "stable_track_id sha item = utf ''sub:'' @ sha (utf8 (utf ''yututui-open-subsonic-track-v1'' @ [0])
     @ length_prefixed (utf8 (backend_id item)) @ length_prefixed (utf8 (account_scope_id item))
     @ length_prefixed (utf8 (item_id item)))"

definition song_from_source ::
    "sha256_hex \<Rightarrow> search_source \<Rightarrow> ustring \<Rightarrow> ustring \<Rightarrow> ustring \<Rightarrow> ustring \<Rightarrow> playable_ref \<Rightarrow> song" where
  "song_from_source sha src raw_id ttl art dur target =
     (let source_id = sanitize_metadata_text raw_id MAX_PROVIDER_ID_CHARS in
      (song_remote [] ttl art dur)\<lparr>
        video_id := (case (src, target) of
            (Youtube, _) \<Rightarrow> source_id
          | (OpenSubsonicSource, OpenSubsonicRef item _) \<Rightarrow> stable_track_id sha item
          | _ \<Rightarrow> utf (source_id_prefix src) @ 58 # source_id),
        source := src, playable := Some target\<rparr>)"

text \<open>The fields of \<open>ServerSong\<close> that a track takes over.\<close>

record server_song =
  srv_item :: open_subsonic_item_ref
  srv_title :: ustring
  srv_artist :: ustring
  srv_artists :: "ustring list"
  srv_album :: "ustring option"
  srv_album_artist :: "ustring option"
  srv_duration_secs :: "u32 option"
  srv_track_number :: "u32 option"
  srv_disc_number :: "u32 option"
  srv_cover_art_id :: "ustring option"

definition positive :: "u32 option \<Rightarrow> u32 option" where
  "positive n = (case n of Some k \<Rightarrow> if k > 0 then Some k else None | None \<Rightarrow> None)"

definition option_list :: "'a option \<Rightarrow> 'a list" where
  "option_list x = (case x of None \<Rightarrow> [] | Some v \<Rightarrow> [v])"

definition song_from_open_subsonic :: "sha256_hex \<Rightarrow> server_song \<Rightarrow> song" where
  "song_from_open_subsonic sha server =
     (let dur = (case srv_duration_secs server of None \<Rightarrow> [] | Some n \<Rightarrow> duration_text n);
          item = srv_item server;
          s = song_from_source sha OpenSubsonicSource (stable_track_id sha item) (srv_title server) (srv_artist server) dur
                (OpenSubsonicRef item (srv_cover_art_id server));
          by = sanitize_optional_metadata (srv_album_artist server) MAX_ARTIST_CHARS
      in s\<lparr>artists := sanitize_metadata_vec (srv_artists server) MAX_ARTIST_CHARS,
           album := sanitize_optional_metadata (srv_album server) MAX_ALBUM_CHARS,
           album_artist := by, album_artists := option_list by,
           disc_number := positive (srv_disc_number server), track_number := positive (srv_track_number server),
           duration_secs := srv_duration_secs server\<rparr>)"

section \<open>Local files\<close>

text \<open>\<open>rsplit c s\<close>: the text before and after the last \<open>c\<close>.\<close>

definition rsplit :: "nat \<Rightarrow> ustring \<Rightarrow> (ustring \<times> ustring) option" where
  "rsplit c s = (if c \<in> set s
     then Some (rev (tl (dropWhile (\<lambda>x. x \<noteq> c) (rev s))), rev (takeWhile (\<lambda>x. x \<noteq> c) (rev s))) else None)"

text \<open>\<open>Path::file_stem\<close>: the last component of the path, unless it is \<open>..\<close>, without its extension.\<close>

definition file_stem :: "ustring \<Rightarrow> ustring option" where
  "file_stem path = (case filter (\<lambda>w. w \<noteq> [] \<and> w \<noteq> [46]) (split_on (\<lambda>c. c = 47) path) of [] \<Rightarrow> None
     | ws \<Rightarrow> let name = last ws in if name = [46, 46] then None
         else (case rsplit 46 name of None \<Rightarrow> Some name | Some (stem, ext) \<Rightarrow> Some (if stem = [] then name else stem)))"

definition parse_embedded_id :: "ustring \<Rightarrow> (ustring \<times> ustring) option" where
  "parse_embedded_id stem = (let t = trim_end stem in
     if ends_with [93] t then
       (case rsplit 91 (butlast t) of None \<Rightarrow> None | Some (before, vid) \<Rightarrow>
          if \<not> is_youtube_video_id vid then None
          else (let ttl = trim_end before in if ttl \<noteq> [] then Some (ttl, vid) else None))
     else None)"

type_synonym canonicalize = "ustring \<Rightarrow> ustring option"

definition local_id :: "canonicalize \<Rightarrow> ustring \<Rightarrow> ustring" where
  "local_id canonical path = utf ''local:'' @ (case canonical path of Some p \<Rightarrow> p | None \<Rightarrow> path)"

definition local_file :: "canonicalize \<Rightarrow> ustring \<Rightarrow> song" where
  "local_file canonical path =
     (let stem = file_stem path;
          (ttl, yt) = (case Option.bind stem parse_embedded_id of
              Some (t, vid) \<Rightarrow> (t, Some vid)
            | None \<Rightarrow> ((case stem of Some t \<Rightarrow> if trim t \<noteq> [] then t else path | None \<Rightarrow> path), None))
      in (song_remote [] ttl [] [])\<lparr>video_id := local_id canonical path, artist := utf ''Local file'',
           local_path := Some path, yt_video_id := yt\<rparr>)"

definition youtube_id :: "song \<Rightarrow> ustring option" where
  "youtube_id s = (case yt_video_id s of
       Some vid \<Rightarrow> if is_definitely_non_video_youtube_ref vid then None else Some vid
     | None \<Rightarrow> if local_path s \<noteq> None \<or> source s \<noteq> Youtube then None
         else if \<not> starts_with (utf ''local:'') (video_id s) \<and> \<not> starts_with PLAYLIST_ID_PREFIX (video_id s)
           \<and> \<not> is_definitely_non_video_youtube_ref (video_id s) then Some (video_id s) else None)"

definition with_local_path :: "canonicalize \<Rightarrow> song \<Rightarrow> ustring \<Rightarrow> song" where
  "with_local_path canonical s path =
     s\<lparr>video_id := local_id canonical path, local_path := Some path, yt_video_id := youtube_id s\<rparr>"

definition with_yt_id :: "song \<Rightarrow> ustring \<Rightarrow> song" where
  "with_yt_id s vid = s\<lparr>yt_video_id := Some vid\<rparr>"

section \<open>Metadata of the catalogs and of imports\<close>

definition with_catalog_metadata :: "song \<Rightarrow> ustring option \<Rightarrow> u32 option \<Rightarrow> u32 option \<Rightarrow>
    ustring option \<Rightarrow> ustring option \<Rightarrow> ustring option \<Rightarrow> song" where
  "with_catalog_metadata s by disc track code key url =
     (let by = sanitize_optional_metadata by MAX_ARTIST_CHARS in
      s\<lparr>album_artist := by, album_artists := option_list by,
        disc_number := positive disc, track_number := positive track,
        isrc := sanitize_optional_metadata code MAX_PROVIDER_ID_CHARS,
        origin_key := sanitize_optional_metadata key MAX_PROVIDER_ID_CHARS,
        origin_url := sanitize_optional_metadata url MAX_ORIGIN_URL_CHARS\<rparr>)"

record import_metadata =
  im_artists :: "ustring list"
  im_album_artists :: "ustring list"
  im_album_release_date :: "ustring option"
  im_album_release_date_precision :: "ustring option"
  im_album_total_tracks :: "u32 option"
  im_album_type :: "ustring option"
  im_album_art_url :: "ustring option"
  im_explicit :: "bool option"

definition with_import_metadata :: "song \<Rightarrow> import_metadata \<Rightarrow> song" where
  "with_import_metadata s m = s\<lparr>
     artists := sanitize_metadata_vec (im_artists m) MAX_ARTIST_CHARS,
     album_artists := sanitize_metadata_vec (im_album_artists m) MAX_ARTIST_CHARS,
     album_release_date := sanitize_optional_metadata (im_album_release_date m) MAX_DURATION_CHARS,
     album_release_date_precision := sanitize_optional_metadata (im_album_release_date_precision m) MAX_DURATION_CHARS,
     album_total_tracks := positive (im_album_total_tracks m),
     album_type := sanitize_optional_metadata (im_album_type m) MAX_PROVIDER_ID_CHARS,
     album_art_url := sanitize_optional_metadata (im_album_art_url m) MAX_ORIGIN_URL_CHARS,
     explicit := im_explicit m\<rparr>"

definition with_import_session :: "song \<Rightarrow> ustring option \<Rightarrow> u32 option \<Rightarrow> song" where
  "with_import_session s session order =
     s\<lparr>import_session_id := sanitize_optional_metadata session MAX_PROVIDER_ID_CHARS, import_source_order := positive order\<rparr>"

section \<open>What the player opens\<close>

definition unplayable_youtube_ref_reason :: "song \<Rightarrow> ustring option" where
  "unplayable_youtube_ref_reason s =
     (if local_path s \<noteq> None \<or> source s \<noteq> Youtube then None
      else (case playable s of
          Some (YoutubeVideo vid) \<Rightarrow> if is_definitely_non_video_youtube_ref vid
            then Some (utf ''not a YouTube video id: '' @ vid) else None
        | None \<Rightarrow> if is_definitely_non_video_youtube_ref (video_id s)
            then Some (utf ''not a YouTube video id: '' @ video_id s) else None
        | _ \<Rightarrow> None))"

definition youtube_playlist_id :: "song \<Rightarrow> ustring option" where
  "youtube_playlist_id s = strip_prefix PLAYLIST_ID_PREFIX (video_id s)"

definition youtube_artist_id :: "song \<Rightarrow> ustring option" where
  "youtube_artist_id s = strip_prefix ARTIST_ID_PREFIX (video_id s)"

definition share_url :: "song \<Rightarrow> ustring option" where
  "share_url s = map_option (\<lambda>vid. utf ''https://www.youtube.com/watch?v='' @ vid) (youtube_id s)"

text \<open>\<open>Url::parse_with_params\<close>: the text of the URL with the query appended.\<close>

type_synonym with_params = "ustring \<Rightarrow> (ustring \<times> ustring) list \<Rightarrow> ustring option"

definition audius_stream_url :: "with_params \<Rightarrow> ustring \<Rightarrow> ustring \<Rightarrow> ustring" where
  "audius_stream_url params track app_name =
     (let base = utf ''https://discoveryprovider.audius.co/v1/tracks/'' @ track @ utf ''/stream'' in
      case params base [(utf ''app_name'', app_name)] of Some u \<Rightarrow> u
      | None \<Rightarrow> base @ utf ''?app_name='' @ app_name)"

definition music_watch :: "ustring \<Rightarrow> ustring" where
  "music_watch vid = utf ''https://music.youtube.com/watch?v='' @ vid"

definition music_channel :: "ustring \<Rightarrow> ustring" where
  "music_channel vid = utf ''https://music.youtube.com/channel/'' @ vid"

definition watch_url_checked :: "web \<Rightarrow> with_params \<Rightarrow> song \<Rightarrow> playable_url_error + ustring" where
  "watch_url_checked web params s =
     (if source s = OpenSubsonicSource \<and> open_subsonic_item s = None
      then Inl (InvalidUrl (utf ''OpenSubsonic track is missing its exact server identity''))
      else (case playable s of
          Some (YoutubeVideo vid) \<Rightarrow> if \<not> is_definitely_non_video_youtube_ref vid
            then validate_playable_url web Youtube (music_watch vid)
            else validate_playable_url web Youtube (music_channel vid)
        | Some (DirectUrl src u) \<Rightarrow> validate_playable_url web src u
        | Some (YtdlpUrl src u) \<Rightarrow> validate_playable_url web src u
        | Some (JamendoTrackId _ u) \<Rightarrow> validate_playable_url web Jamendo u
        | Some (ArchiveFile _ _ u) \<Rightarrow> validate_playable_url web InternetArchive u
        | Some (OpenSubsonicRef _ _) \<Rightarrow> Inl (InvalidUrl (utf ''OpenSubsonic playback requires the local proxy''))
        | Some (RadioStream u) \<Rightarrow> validate_playable_url web RadioBrowser u
        | Some (AudiusTrackId track app_name) \<Rightarrow> validate_playable_url web Audius (audius_stream_url params track app_name)
        | None \<Rightarrow> if \<not> is_definitely_non_video_youtube_ref (video_id s)
            then validate_playable_url web Youtube (music_watch (video_id s))
            else validate_playable_url web Youtube (music_channel (video_id s))))"

definition watch_url :: "web \<Rightarrow> with_params \<Rightarrow> song \<Rightarrow> ustring" where
  "watch_url web params s = (case watch_url_checked web params s of Inl e \<Rightarrow> [] | Inr t \<Rightarrow> t)"

definition playback_target_checked :: "web \<Rightarrow> with_params \<Rightarrow> song \<Rightarrow> playable_url_error + ustring" where
  "playback_target_checked web params s =
     (case local_path s of Some p \<Rightarrow> Inr p | None \<Rightarrow> watch_url_checked web params s)"

definition playback_target :: "web \<Rightarrow> with_params \<Rightarrow> song \<Rightarrow> ustring" where
  "playback_target web params s = (case playback_target_checked web params s of Inl e \<Rightarrow> [] | Inr t \<Rightarrow> t)"

definition playback_destination_checked ::
    "web \<Rightarrow> with_params \<Rightarrow> song \<Rightarrow> playable_url_error + playback_destination" where
  "playback_destination_checked web params s = (case local_path s of Some p \<Rightarrow> Inr (Direct p)
     | None \<Rightarrow> (case playable s of
         Some (OpenSubsonicRef item _) \<Rightarrow>
           Inr (Credentialed (OpenSubsonicTarget (backend_id item) (account_scope_id item) (item_id item)))
       | _ \<Rightarrow> (case playback_target_checked web params s of Inl e \<Rightarrow> Inl e | Inr t \<Rightarrow> Inr (Direct t))))"

definition resolves_through_youtube :: "song \<Rightarrow> bool" where
  "resolves_through_youtube s \<longleftrightarrow> \<not> is_local s
     \<and> (case playable s of Some (YoutubeVideo _) \<Rightarrow> True | None \<Rightarrow> True | _ \<Rightarrow> False)"

definition prefetch_target :: "web \<Rightarrow> with_params \<Rightarrow> song \<Rightarrow> ustring option" where
  "prefetch_target web params s = (if is_local s then None
     else let resolved = (if unplayable_youtube_ref_reason s = None
            then (case watch_url_checked web params s of Inl e \<Rightarrow> None | Inr t \<Rightarrow> Some t) else None)
     in case playable s of
         None \<Rightarrow> resolved | Some (YoutubeVideo _) \<Rightarrow> resolved | Some (YtdlpUrl _ _) \<Rightarrow> resolved
       | Some (AudiusTrackId _ _) \<Rightarrow> resolved | Some _ \<Rightarrow> None)"


section \<open>Identity\<close>

lemma video_id_is_video: "is_youtube_video_id s \<Longrightarrow> \<not> is_definitely_non_video_youtube_ref s"
  by (simp add: is_definitely_non_video_youtube_ref_def)

lemma youtube_id_is_video: "youtube_id s = Some vid \<Longrightarrow> \<not> is_definitely_non_video_youtube_ref vid"
  by (auto simp: youtube_id_def split: option.splits if_splits)

lemma youtube_id_downloaded: "youtube_id (with_local_path canonical s path) = youtube_id s"
  using youtube_id_is_video [of s] by (cases "youtube_id s") (simp_all add: with_local_path_def youtube_id_def [of "_\<lparr>video_id := _\<rparr>"] youtube_id_def [of "_\<lparr>yt_video_id := _\<rparr>"])

lemma video_id_chars: "is_youtube_video_id vid \<Longrightarrow> c \<in> set vid \<Longrightarrow> c \<noteq> 91 \<and> c \<noteq> 46 \<and> c \<noteq> 47 \<and> c \<noteq> 93"
  by (auto simp: is_youtube_video_id_def ascii_alphanumeric_def is_ascii_alphabetic_def is_ascii_uppercase_def
    is_ascii_lowercase_def is_ascii_digit_def list_all_iff)

lemma rsplit_last:
  assumes "c \<notin> set t"
  shows "rsplit c (s @ c # t) = Some (s, t)"
proof -
  have "takeWhile (\<lambda>x. x \<noteq> c) (rev t @ c # rev s) = rev t" "dropWhile (\<lambda>x. x \<noteq> c) (rev t @ c # rev s) = c # rev s"
    using assms by (auto simp: takeWhile_append dropWhile_append takeWhile_eq_all_conv dropWhile_eq_Nil_conv)
  then show ?thesis by (simp add: rsplit_def)
qed

lemma trim_end_last: "\<not> is_whitespace c \<Longrightarrow> trim_end (s @ [c]) = s @ [c]"
  by (simp add: trim_end_def)

lemma trim_end_space: "trim_end (s @ [32]) = trim_end s"
  by (simp add: trim_end_def is_whitespace_def)

lemma parse_embedded:
  assumes "is_youtube_video_id vid" "trim_end ttl = ttl" "ttl \<noteq> []"
  shows "parse_embedded_id (ttl @ [32, 91] @ vid @ [93]) = Some (ttl, vid)"
proof -
  have "91 \<notin> set vid" using video_id_chars [OF assms(1)] by blast
  then have "rsplit 91 (ttl @ [32, 91] @ vid) = Some (ttl @ [32], vid)"
    using rsplit_last [of 91 vid "ttl @ [32]"] by simp
  moreover have "trim_end (ttl @ [32, 91] @ vid @ [93]) = ttl @ [32, 91] @ vid @ [93]"
    using trim_end_last [of 93 "ttl @ [32, 91] @ vid"] by (simp add: is_whitespace_def)
  ultimately show ?thesis using assms
    by (simp add: parse_embedded_id_def Let_def ends_with_def starts_with_def butlast_append trim_end_space)
qed

lemma split_on_append: "P c \<Longrightarrow> (\<forall>x \<in> set t. \<not> P x) \<Longrightarrow> \<exists>w ws. split_on P (s @ c # t) = w # ws @ [t]"
proof (induction s)
  case Nil
  then show ?case using split_on_word [of t P] by simp
next
  case (Cons x s)
  then obtain w ws where ws: "split_on P (s @ c # t) = w # ws @ [t]" by blast
  then show ?case by (cases "P x") (auto simp: Cons_eq_append_conv)
qed


text \<open>The length in front of each part keeps the parts apart.\<close>

lemma be_bytes_inject:
  assumes "be_bytes m = be_bytes n" "m < 2 ^ 64" "n < 2 ^ 64"
  shows "m = n"
proof -
  have val: "foldl (\<lambda>v b. 256 * v + b) 0 (be_bytes k) = k" if "k < 2 ^ 64" for k
  proof -
    have step: "256 * (k div (256 * x)) + k div x mod 256 = k div x" for x
      using div_mult_mod_eq [of "k div x" 256] by (simp add: div_mult2_eq mult.commute)
    have "k div 256 ^ 7 mod 256 = k div 256 ^ 7" using that by simp
    then show ?thesis using step [of "256 ^ 6"] step [of "256 ^ 5"] step [of "256 ^ 4"] step [of "256 ^ 3"]
        step [of "256 ^ 2"] step [of 256] step [of 1] by (simp add: be_bytes_def)
  qed
  then show ?thesis using assms by metis
qed

lemma length_prefixed_inject:
  assumes "length_prefixed a @ xs = length_prefixed b @ ys" "length a < 2 ^ 64" "length b < 2 ^ 64"
  shows "a = b \<and> xs = ys"
proof -
  have "length (be_bytes (length a mod 2 ^ 64)) = length (be_bytes (length b mod 2 ^ 64))" by (simp add: be_bytes_def)
  then have "be_bytes (length a) = be_bytes (length b)" "a @ xs = b @ ys"
    using assms by (auto simp: length_prefixed_def)
  then have "length a = length b" using be_bytes_inject assms by blast
  then show ?thesis using \<open>a @ xs = b @ ys\<close> by simp
qed

lemma stable_track_id_inject:
  fixes a b :: open_subsonic_item_ref
  assumes "inj sha" "stable_track_id sha a = stable_track_id sha b"
    "\<And>s. s \<in> {backend_id a, account_scope_id a, item_id a, backend_id b, account_scope_id b, item_id b} \<Longrightarrow> byte_len s < 2 ^ 64"
  shows "a = b"
proof -
  let ?p = "\<lambda>s. length_prefixed (utf8 s)"
  have eq: "?p (backend_id a) @ ?p (account_scope_id a) @ ?p (item_id a)
      = ?p (backend_id b) @ ?p (account_scope_id b) @ ?p (item_id b)"
    using assms(1,2) by (auto simp: stable_track_id_def dest: injD)
  have len: "length (utf8 s) < 2 ^ 64" if "s \<in> {backend_id a, account_scope_id a, item_id a, backend_id b, account_scope_id b, item_id b}" for s
    using assms(3) [OF that] by (simp only: length_utf8)
  have 1: "utf8 (backend_id a) = utf8 (backend_id b)" and eq: "?p (account_scope_id a) @ ?p (item_id a) = ?p (account_scope_id b) @ ?p (item_id b)"
    using length_prefixed_inject [OF eq] len by simp_all
  have 2: "utf8 (account_scope_id a) = utf8 (account_scope_id b)" and eq: "?p (item_id a) @ [] = ?p (item_id b) @ []"
    using length_prefixed_inject [OF eq] len by simp_all
  have "utf8 (item_id a) = utf8 (item_id b)" using length_prefixed_inject [OF eq] len by simp
  then show ?thesis using 1 2 by simp
qed

section \<open>File names of downloads\<close>

lemma file_stem_named:
  assumes "47 \<notin> set name" "46 \<notin> set ext" "47 \<notin> set ext" "2 \<le> length name"
  shows "file_stem (dir @ 47 # name @ 46 # ext) = Some name"
proof -
  let ?f = "name @ 46 # ext"
  have "\<forall>x \<in> set ?f. x \<noteq> 47" using assms by auto
  then obtain w ws where "split_on (\<lambda>c. c = 47) (dir @ 47 # ?f) = (w # ws) @ [?f]" using split_on_append [of "\<lambda>c. c = 47" 47 ?f dir] by auto
  moreover have "?f \<noteq> [] \<and> ?f \<noteq> [46]" "?f \<noteq> [46, 46]" using assms(4) by (auto simp: append_eq_Cons_conv)
  ultimately show ?thesis using rsplit_last [OF assms(2), of name] assms(4)
    by (cases "filter (\<lambda>w. w \<noteq> [] \<and> w \<noteq> [46]) (w # ws)") (auto simp: file_stem_def)
qed

lemma local_file_named:
  assumes "is_youtube_video_id vid" "trim_end ttl = ttl" "ttl \<noteq> []" "47 \<notin> set ttl" "46 \<notin> set ext" "47 \<notin> set ext"
  shows "youtube_id (local_file canonical (dir @ 47 # (ttl @ [32, 91] @ vid @ [93]) @ 46 # ext)) = Some vid"
    "title (local_file canonical (dir @ 47 # (ttl @ [32, 91] @ vid @ [93]) @ 46 # ext)) = sanitize_metadata_text ttl MAX_TITLE_CHARS"
proof -
  let ?name = "ttl @ [32, 91] @ vid @ [93]"
  have "47 \<notin> set ?name" using assms(4) video_id_chars [OF assms(1)] by auto
  then have "file_stem (dir @ 47 # ?name @ 46 # ext) = Some ?name" using assms by (intro file_stem_named) auto
  then show "youtube_id (local_file canonical (dir @ 47 # ?name @ 46 # ext)) = Some vid"
    "title (local_file canonical (dir @ 47 # ?name @ 46 # ext)) = sanitize_metadata_text ttl MAX_TITLE_CHARS"
    using parse_embedded [OF assms(1-3)] video_id_is_video [OF assms(1)]
    by (simp_all add: local_file_def youtube_id_def song_remote_def)
qed

section \<open>Durations read back\<close>

lemma digits_no_space: "is_ascii_digit c \<Longrightarrow> \<not> is_whitespace c \<and> c \<noteq> 58 \<and> c \<noteq> 43"
  by (auto simp: is_ascii_digit_def is_whitespace_def)

lemma trim_digits: "ds \<noteq> [] \<Longrightarrow> list_all is_ascii_digit ds \<Longrightarrow> trim ds = ds"
  using digits_no_space by (intro trim_id) (auto simp: trimmed_def list_all_iff)

lemma parse_u32_digits: "ds \<noteq> [] \<Longrightarrow> list_all is_ascii_digit ds \<Longrightarrow> dec_value ds < 2 ^ 32 \<Longrightarrow> parse_u32 ds = Some (dec_value ds)"
  by (cases ds) (auto simp: parse_u32_def starts_with_def is_ascii_digit_def)

lemma parse_duration_text: "parse_duration_secs (duration_text n) = Some n"
proof -
  define m s where "m = decimal (unat (n div 60))" "s = decimal2 (unat (n mod 60))"
  have digits: "list_all is_ascii_digit m" "list_all is_ascii_digit s" "m \<noteq> []" "s \<noteq> []"
    by (auto simp: m_s_def decimal2_def list_all_iff is_ascii_digit_def dest: decimal_digits [unfolded is_ascii_digit_def])
  have val: "dec_value m = unat n div 60" "dec_value s = unat n mod 60"
    by (simp_all add: m_s_def unat_div unat_mod)
  have n: "unat n < 2 ^ 32" using unsigned_less [of n] by simp
  have bounds: "dec_value m < 2 ^ 32" "dec_value s < 2 ^ 32" "dec_value m * 60 < 2 ^ 32"
    using n by (simp_all add: val)
  have no_colon: "\<forall>x \<in> set m. x \<noteq> 58" "\<forall>x \<in> set s. x \<noteq> 58"
    using digits(1,2) digits_no_space by (auto simp: list_all_iff)
  have "trim (m @ 58 # s) = m @ 58 # s"
    using digits digits_no_space by (intro trim_id) (auto simp: trimmed_def list_all_iff)
  moreover have "split_on (\<lambda>c. c = 58) (m @ 58 # s) = [m, s]"
    using split_on_sep [of m "\<lambda>c. c = 58" 58 s] split_on_word [of s "\<lambda>c. c = 58"] no_colon by simp
  moreover have "dec_value m * 60 + dec_value s = unat n" by (simp add: val)
  ultimately show ?thesis using digits bounds n
    by (simp add: parse_duration_secs_def duration_text_def m_s_def [symmetric] trim_digits parse_u32_digits Let_def)
qed


lemma duration_text_clean: "sanitize_metadata_text (duration_text n) MAX_DURATION_CHARS = duration_text n"
proof (rule sanitize_id)
  have "unat n < 2 ^ 32" using unsigned_less [of n] by simp
  then have n: "unat n < 10 ^ 10" by simp
  have "unat n mod 60 < 60" by simp
  then have "unat n mod 60 < 10 ^ 10" by simp
  then have "length (decimal (unat (n div 60))) \<le> 10" "length (decimal2 (unat (n mod 60))) \<le> 11"
    using length_decimal [of "unat n div 60" 10] length_decimal [of "unat n mod 60" 10] n
    by (auto simp: unat_div unat_mod decimal2_def)
  then have "length (duration_text n) \<le> 32" by (simp add: duration_text_def)
  moreover have chars: "is_ascii_digit c \<or> c = 58" if "c \<in> set (duration_text n)" for c
    using that by (auto simp: duration_text_def decimal2_def is_ascii_digit_def split: if_splits
      dest: decimal_digits [unfolded is_ascii_digit_def])
  moreover have "\<not> is_forbidden_metadata_char c \<and> \<not> is_whitespace c" if "is_ascii_digit c \<or> c = 58" for c
    using that by (auto simp: is_ascii_digit_def is_forbidden_metadata_char_def is_control_def is_whitespace_def)
  moreover have "duration_text n \<noteq> []" by (simp add: duration_text_def)
  ultimately show "clean MAX_DURATION_CHARS (duration_text n)"
    by (auto simp: clean_def trimmed_def MAX_DURATION_CHARS_def)
qed

lemma parse_duration_Nil [simp]: "parse_duration_secs [] = None"
  by (simp add: parse_duration_secs_def)

section \<open>Targets\<close>

lemma validated_text: "validate_playable_url web src raw = Inr t \<Longrightarrow>
    \<exists>raw u. parse_url web (trim raw) = Inr u \<and> safe_url u \<and> t = url_text u"
  using validate_playable_url_InrD by blast

lemma watch_url_safe: "watch_url_checked web params s = Inr t \<Longrightarrow>
    (\<exists>raw u. parse_url web (trim raw) = Inr u \<and> safe_url u \<and> t = url_text u)
    \<and> open_subsonic_item s = None \<and> source s \<noteq> OpenSubsonicSource"
  by (auto simp: watch_url_checked_def open_subsonic_item_def split: if_splits option.splits playable_ref.splits
    intro: validated_text)

lemma destination_credentialed: "playback_destination_checked web params s = Inr (Credentialed r) \<longleftrightarrow>
    local_path s = None \<and> (\<exists>item. open_subsonic_item s = Some item
      \<and> r = OpenSubsonicTarget (backend_id item) (account_scope_id item) (item_id item))"
  by (auto simp: playback_destination_checked_def open_subsonic_item_def split: option.splits playable_ref.splits sum.splits)

lemma destination_direct: "playback_destination_checked web params s = Inr (Direct t) \<longleftrightarrow>
    local_path s = Some t \<or> (local_path s = None \<and> watch_url_checked web params s = Inr t)"
  by (cases "local_path s"; cases "playable s")
    (auto simp: playback_destination_checked_def playback_target_checked_def watch_url_checked_def
      split: playable_ref.splits sum.splits)

lemma prefetch_watch: "prefetch_target web params s = Some t \<Longrightarrow> local_path s = None \<and> watch_url_checked web params s = Inr t"
  by (auto simp: prefetch_target_def is_local_def Let_def split: option.splits playable_ref.splits if_splits sum.splits)


section \<open>Properties\<close>

text \<open>C8. What the player is given for a track is its file; or the sealed reference of its server item, with
  exactly the identifiers of the item; or the text of a safe web URL.  A track of a music server never becomes a
  URL, for playing or for prefetching, and what is prefetched is what would be played.\<close>

theorem destination_sealed:
  "case playback_destination_checked web params s of
     Inr (Direct t) \<Rightarrow> local_path s = Some t
       \<or> (local_path s = None \<and> source s \<noteq> OpenSubsonicSource \<and> open_subsonic_item s = None
          \<and> (\<exists>raw u. parse_url web (trim raw) = Inr u \<and> safe_url u \<and> t = url_text u))
   | Inr (Credentialed (OpenSubsonicTarget backend account item)) \<Rightarrow> local_path s = None
       \<and> open_subsonic_item s = Some \<lparr>backend_id = backend, account_scope_id = account, item_id = item\<rparr>
       \<and> prefetch_target web params s = None
   | Inl e \<Rightarrow> local_path s = None \<and> prefetch_target web params s = None"
proof (cases "playback_destination_checked web params s")
  case (Inl e)
  have "prefetch_target web params s = None"
    using prefetch_watch [of web params s] destination_direct [of web params s] Inl
    by (cases "prefetch_target web params s") auto
  moreover have "local_path s = None" using destination_direct [of web params s] Inl by (cases "local_path s") auto
  ultimately show ?thesis using Inl by simp
next
  case (Inr d)
  show ?thesis
  proof (cases d)
    case (Direct t)
    then show ?thesis using Inr destination_direct [of web params s t] watch_url_safe [of web params s t] by auto
  next
    case (Credentialed r)
    obtain item where item: "local_path s = None" "open_subsonic_item s = Some item"
        "r = OpenSubsonicTarget (backend_id item) (account_scope_id item) (item_id item)"
      using Inr Credentialed destination_credentialed [of web params s r] by auto
    then have "prefetch_target web params s = None"
      using prefetch_watch [of web params s] watch_url_safe [of web params s] by fastforce
    then show ?thesis using Inr Credentialed item by simp
  qed
qed

text \<open>C33. A track that is downloaded keeps standing for the same video: under its new path it has the YouTube id it
  had, and when only the file is left, named by the download template \<open>title [id].ext\<close>, the file gives back the
  id and the title.\<close>

theorem downloads_keep_identity:
  assumes "is_youtube_video_id vid" "trim_end ttl = ttl" "ttl \<noteq> []" "47 \<notin> set ttl" "46 \<notin> set ext" "47 \<notin> set ext"
  shows "youtube_id (with_local_path canonical s path) = youtube_id s
    \<and> (let file = local_file canonical (dir @ 47 # (ttl @ [32, 91] @ vid @ [93]) @ 46 # ext) in
        youtube_id file = Some vid \<and> title file = sanitize_metadata_text ttl MAX_TITLE_CHARS)"
  using local_file_named [OF assms] youtube_id_downloaded by (simp add: Let_def)

lemma downloads_keep_identity_witness:
  "youtube_id (local_file (\<lambda>p. None) (utf ''/music/Night Drive [dQw4w9WgXcQ].m4a'')) = Some (utf ''dQw4w9WgXcQ'')"
proof -
  have "is_youtube_video_id (utf ''dQw4w9WgXcQ'')" by code_simp
  moreover have "trim_end (utf ''Night Drive'') = utf ''Night Drive''" "utf ''Night Drive'' \<noteq> []"
    "47 \<notin> set (utf ''Night Drive'')" "46 \<notin> set (utf ''m4a'')" "47 \<notin> set (utf ''m4a'')"
    by (simp_all add: utf_def trim_end_def is_whitespace_def)
  moreover have "utf ''/music/Night Drive [dQw4w9WgXcQ].m4a''
      = utf ''/music'' @ 47 # (utf ''Night Drive'' @ [32, 91] @ utf ''dQw4w9WgXcQ'' @ [93]) @ 46 # utf ''m4a''"
    by (simp add: utf_def)
  ultimately show ?thesis
    using downloads_keep_identity [where vid = "utf ''dQw4w9WgXcQ''" and ttl = "utf ''Night Drive''" and ext = "utf ''m4a''"
      and canonical = "\<lambda>p. None" and dir = "utf ''/music''"]
    unfolding Let_def by metis
qed

text \<open>A row of a music server becomes a track that carries exactly the server's item and reads its duration text
  back to the server's seconds; if SHA-256 tells the two texts apart, two rows get the same track id only when
  they are the same item.\<close>

theorem server_rows_identified:
  assumes "inj sha" "\<forall>s \<in> {backend_id (srv_item a), account_scope_id (srv_item a), item_id (srv_item a),
      backend_id (srv_item b), account_scope_id (srv_item b), item_id (srv_item b)}. byte_len s < 2 ^ 64"
  shows "open_subsonic_item (song_from_open_subsonic sha a) = Some (srv_item a)
    \<and> parse_duration_secs (duration (song_from_open_subsonic sha a)) = srv_duration_secs a
    \<and> (video_id (song_from_open_subsonic sha a) = video_id (song_from_open_subsonic sha b) \<longleftrightarrow> srv_item a = srv_item b)"
proof -
  have "video_id (song_from_open_subsonic sha r) = stable_track_id sha (srv_item r)" for r
    by (simp add: song_from_open_subsonic_def song_from_source_def Let_def)
  moreover have "stable_track_id sha (srv_item a) = stable_track_id sha (srv_item b) \<Longrightarrow> srv_item a = srv_item b"
    using stable_track_id_inject assms by blast
  moreover have "parse_duration_secs (duration (song_from_open_subsonic sha a)) = srv_duration_secs a"
    by (simp add: song_from_open_subsonic_def song_from_source_def song_remote_def Let_def
      duration_text_clean parse_duration_text sanitize_id clean_def trimmed_def split: option.split)
  ultimately show ?thesis
    by (auto simp: song_from_open_subsonic_def song_from_source_def open_subsonic_item_def Let_def)
qed

definition demo_row :: "string \<Rightarrow> server_song" where
  "demo_row item = \<lparr>srv_item = \<lparr>backend_id = utf ''home'', account_scope_id = utf ''ann'', item_id = utf item\<rparr>,
     srv_title = utf ''Drive'', srv_artist = utf ''Nova'', srv_artists = [], srv_album = None, srv_album_artist = None,
     srv_duration_secs = Some 185, srv_track_number = None, srv_disc_number = None, srv_cover_art_id = None\<rparr>"

lemma server_rows_identified_witness:
  "video_id (song_from_open_subsonic id (demo_row ''a'')) \<noteq> video_id (song_from_open_subsonic id (demo_row ''b''))
   \<and> parse_duration_secs (duration (song_from_open_subsonic id (demo_row ''a''))) = Some 185"
  using server_rows_identified [of id "demo_row ''a''" "demo_row ''b''"]
  by (simp add: demo_row_def utf_def byte_len_def utf8_len_def)

end
