(* ===== verification/PlaybackMemory.thy ===== *)
theory PlaybackMemory
  imports Listening SongIdentity
begin

text \<open>
  \<open>src/listening/playback.rs\<close>: what the running playback writes into the listening records (resume points, radio
  visits) and reads back from them (the seek to a resume point or a bookmark), and how a track of the library
  becomes a portable one and back.

  Times are \<open>u64\<close> milliseconds with saturating arithmetic.  The player reports positions as \<open>f64\<close> seconds, an
  abstract type here: \<open>seconds_ops\<close> holds the three facts about a value that \<open>seconds_to_ms\<close> uses.
\<close>

definition AUTO_RESUME_MIN_DURATION_MS :: u64 where "AUTO_RESUME_MIN_DURATION_MS = 20 * 60 * 1000"
definition USEFUL_POSITION_MS :: u64 where "USEFUL_POSITION_MS = 30 * 1000"
definition COMPLETION_MARGIN_MS :: u64 where "COMPLETION_MARGIN_MS = 60 * 1000"
definition RESUME_SAVE_INTERVAL_MS :: u64 where "RESUME_SAVE_INTERVAL_MS = 60 * 1000"
definition PASSPORT_QUALIFY_MS :: u64 where "PASSPORT_QUALIFY_MS = 30 * 1000"

lemmas playback_limits = AUTO_RESUME_MIN_DURATION_MS_def USEFUL_POSITION_MS_def COMPLETION_MARGIN_MS_def
  RESUME_SAVE_INTERVAL_MS_def PASSPORT_QUALIFY_MS_def

text \<open>\<open>u64::saturating_add\<close> and \<open>u64::saturating_sub\<close>.\<close>

definition sat_add :: "u64 \<Rightarrow> u64 \<Rightarrow> u64" where
  "sat_add a b = (if a + b < a then - 1 else a + b)"

definition sat_sub :: "u64 \<Rightarrow> u64 \<Rightarrow> u64" where
  "sat_sub a b = (if a < b then 0 else a - b)"

section \<open>State\<close>

datatype load_reason = Deliberate | SessionRestore | Automatic | RepeatLoad | BookmarkLoad | Restart | Recovery

definition permits_automatic_resume :: "load_reason \<Rightarrow> bool" where
  "permits_automatic_resume r \<longleftrightarrow> r \<in> {Deliberate, SessionRestore}"

record station_visit_target =
  svt_uuid :: ustring
  svt_name :: ustring
  svt_country :: "ustring option"

datatype playback_memory_action =
    SaveResume portable_track u64
  | DropResume portable_track
  | RecordVisit station_visit_target

record pending_seek =
  seek_key :: portable_track_key
  seek_position_ms :: u64
  seek_reason :: load_reason

datatype seek_outcome = Ready pending_seek | Invalid pending_seek

record current_playback =
  cp_track :: portable_track
  cp_live :: bool
  cp_station :: "station_visit_target option"
  cp_seekable :: "bool option"
  cp_duration_ms :: "u64 option"
  cp_position_ms :: u64
  cp_position_confirmed :: bool
  cp_paused :: bool
  cp_buffering :: bool
  cp_last_observed :: "u64 option"
  cp_last_publish :: "u64 option"
  cp_passport_active_ms :: u64
  cp_passport_recorded :: bool
  cp_resume_cleared :: bool

record listening_playback =
  playback_session_id :: ustring
  current_track_state :: "current_playback option"
  pending :: "pending_seek option"
  restored_position :: "u64 option"
  active_preset :: "ustring option"

definition useful_resume :: "u64 \<Rightarrow> u64 \<Rightarrow> bool" where
  "useful_resume position_ms duration_ms \<longleftrightarrow> duration_ms \<ge> AUTO_RESUME_MIN_DURATION_MS
     \<and> position_ms \<ge> USEFUL_POSITION_MS \<and> sat_add position_ms COMPLETION_MARGIN_MS < duration_ms"

definition some_and :: "('a \<Rightarrow> bool) \<Rightarrow> 'a option \<Rightarrow> bool" where
  "some_and P x = (case x of None \<Rightarrow> False | Some v \<Rightarrow> P v)"

definition resume_eligible :: "current_playback \<Rightarrow> bool" where
  "resume_eligible c \<longleftrightarrow> cp_position_confirmed c \<and> \<not> cp_live c \<and> cp_seekable c = Some True
     \<and> some_and (useful_resume (cp_position_ms c)) (cp_duration_ms c)"

definition can_seek :: "current_playback \<Rightarrow> bool" where
  "can_seek c \<longleftrightarrow> \<not> cp_live c \<and> cp_seekable c = Some True \<and> cp_duration_ms c \<noteq> None"

definition resume_snapshot :: "current_playback \<Rightarrow> bool \<Rightarrow> playback_memory_action option" where
  "resume_snapshot c enabled =
     (if \<not> enabled \<or> \<not> cp_position_confirmed c \<or> cp_live c \<or> cp_seekable c \<noteq> Some True then None
      else if some_and (\<lambda>d. d \<ge> AUTO_RESUME_MIN_DURATION_MS \<and> cp_position_ms c \<ge> USEFUL_POSITION_MS
          \<and> sat_add (cp_position_ms c) COMPLETION_MARGIN_MS \<ge> d) (cp_duration_ms c)
        then (if \<not> cp_resume_cleared c then Some (DropResume (cp_track c)) else None)
      else if \<not> resume_eligible c then None
      else Some (SaveResume (cp_track c) (cp_position_ms c)))"

record 'f seconds_ops =
  is_finite :: "'f \<Rightarrow> bool"
  not_negative :: "'f \<Rightarrow> bool"
  rounded_millis :: "'f \<Rightarrow> u64"

definition seconds_to_ms :: "'f seconds_ops \<Rightarrow> 'f \<Rightarrow> u64 option" where
  "seconds_to_ms ops s = (if is_finite ops s \<and> not_negative ops s then Some (rounded_millis ops s) else None)"

section \<open>Operations\<close>

definition listening_default :: "ustring \<Rightarrow> listening_playback" where
  "listening_default session = \<lparr>playback_session_id = session, current_track_state = None, pending = None,
     restored_position = None, active_preset = None\<rparr>"

definition fresh_playback :: "portable_track \<Rightarrow> bool \<Rightarrow> station_visit_target option \<Rightarrow> current_playback" where
  "fresh_playback t live station = \<lparr>cp_track = t, cp_live = live, cp_station = station, cp_seekable = None,
     cp_duration_ms = None, cp_position_ms = 0, cp_position_confirmed = False, cp_paused = False,
     cp_buffering = False, cp_last_observed = None, cp_last_publish = None, cp_passport_active_ms = 0,
     cp_passport_recorded = False, cp_resume_cleared = False\<rparr>"

definition begin_track ::
    "portable_track \<Rightarrow> bool \<Rightarrow> station_visit_target option \<Rightarrow> listening_playback \<Rightarrow> listening_playback" where
  "begin_track t live station s = s\<lparr>
     pending := (case pending s of Some p \<Rightarrow> if seek_key p \<noteq> pt_key t then None else Some p | None \<Rightarrow> None),
     restored_position := None, current_track_state := Some (fresh_playback t live station)\<rparr>"

definition clear_track :: "listening_playback \<Rightarrow> listening_playback" where
  "clear_track s = s\<lparr>current_track_state := None, pending := None, restored_position := None\<rparr>"

definition current_track :: "listening_playback \<Rightarrow> portable_track option" where
  "current_track s = map_option cp_track (current_track_state s)"

definition current_position_ms :: "listening_playback \<Rightarrow> u64 option" where
  "current_position_ms s = (case current_track_state s of None \<Rightarrow> None
     | Some c \<Rightarrow> if cp_position_confirmed c then Some (cp_position_ms c) else None)"

text \<open>\<open>if let Some(current) = self.current.as_mut()\<close>.\<close>

definition on_current :: "(current_playback \<Rightarrow> current_playback) \<Rightarrow> listening_playback \<Rightarrow> listening_playback" where
  "on_current f s = s\<lparr>current_track_state := map_option f (current_track_state s)\<rparr>"

definition rebind_current_track :: "portable_track \<Rightarrow> listening_playback \<Rightarrow> listening_playback" where
  "rebind_current_track t = on_current (\<lambda>c. c\<lparr>cp_track := t\<rparr>)"

definition observe_position_only :: "'f seconds_ops \<Rightarrow> 'f \<Rightarrow> u64 \<Rightarrow> listening_playback \<Rightarrow> listening_playback" where
  "observe_position_only ops secs now s = (case seconds_to_ms ops secs of None \<Rightarrow> s
     | Some ms \<Rightarrow> on_current (\<lambda>c. c\<lparr>cp_position_ms := ms, cp_position_confirmed := True,
         cp_last_observed := Some now\<rparr>) s)"

definition current_can_seek :: "listening_playback \<Rightarrow> bool" where
  "current_can_seek s = some_and can_seek (current_track_state s)"

definition resume_position_eligible :: "u64 \<Rightarrow> listening_playback \<Rightarrow> bool" where
  "resume_position_eligible position_ms s = some_and (\<lambda>c. resume_eligible c
     \<or> some_and (\<lambda>d. \<not> cp_live c \<and> cp_seekable c = Some True \<and> useful_resume position_ms d) (cp_duration_ms c))
     (current_track_state s)"

definition observe_seekable :: "bool option \<Rightarrow> listening_playback \<Rightarrow> listening_playback" where
  "observe_seekable seekable = on_current (\<lambda>c. c\<lparr>cp_seekable := seekable\<rparr>)"

definition observe_duration_secs :: "'f seconds_ops \<Rightarrow> 'f option \<Rightarrow> listening_playback \<Rightarrow> listening_playback" where
  "observe_duration_secs ops dur = on_current (\<lambda>c. c\<lparr>cp_duration_ms := Option.bind dur (seconds_to_ms ops)\<rparr>)"

definition observe_buffering :: "bool \<Rightarrow> listening_playback \<Rightarrow> listening_playback" where
  "observe_buffering buffering = on_current (\<lambda>c.
     (if cp_buffering c \<noteq> buffering then c\<lparr>cp_last_observed := None\<rparr> else c)\<lparr>cp_buffering := buffering\<rparr>)"

fun is_drop :: "playback_memory_action option \<Rightarrow> bool" where
  "is_drop (Some (DropResume t)) = True"
| "is_drop _ = False"

definition observe_paused ::
    "bool \<Rightarrow> bool \<Rightarrow> listening_playback \<Rightarrow> playback_memory_action option \<times> listening_playback" where
  "observe_paused paused enabled s = (case current_track_state s of None \<Rightarrow> (None, s) | Some c \<Rightarrow>
     let became_paused = (paused \<and> \<not> cp_paused c);
         c1 = (if cp_paused c \<noteq> paused then c\<lparr>cp_last_observed := None\<rparr> else c)\<lparr>cp_paused := paused\<rparr>;
         action = (if became_paused then resume_snapshot c1 enabled else None);
         c2 = (if is_drop action then c1\<lparr>cp_resume_cleared := True\<rparr> else c1)
     in (action, s\<lparr>current_track_state := Some c2\<rparr>))"

text \<open>The three parts of \<open>observe_position_secs\<close>: the position and the time listened, the visit, the resume point.\<close>

definition advance_position :: "u64 \<Rightarrow> u64 \<Rightarrow> current_playback \<Rightarrow> current_playback" where
  "advance_position position_ms now c =
     (let elapsed = min (case cp_last_observed c of Some previous \<Rightarrow> sat_sub now previous | None \<Rightarrow> 0) 5000;
          progressing = (cp_position_confirmed c \<and> position_ms > cp_position_ms c
            \<and> sat_sub position_ms (cp_position_ms c) \<le> sat_add elapsed 2000);
          c1 = c\<lparr>cp_position_ms := position_ms, cp_position_confirmed := True, cp_last_observed := Some now\<rparr>
      in if progressing \<and> \<not> cp_paused c \<and> \<not> cp_buffering c
         then c1\<lparr>cp_passport_active_ms := sat_add (cp_passport_active_ms c) elapsed\<rparr> else c1)"

definition passport_step :: "current_playback \<Rightarrow> playback_memory_action list \<times> current_playback" where
  "passport_step c =
     (if \<not> cp_passport_recorded c \<and> cp_passport_active_ms c \<ge> PASSPORT_QUALIFY_MS
      then (case cp_station c of Some station \<Rightarrow> ([RecordVisit station], c\<lparr>cp_passport_recorded := True\<rparr>)
        | None \<Rightarrow> ([], c))
      else ([], c))"

definition publish_due :: "u64 \<Rightarrow> current_playback \<Rightarrow> bool" where
  "publish_due now c \<longleftrightarrow> (case cp_last_publish c of None \<Rightarrow> True
     | Some published \<Rightarrow> sat_sub now published \<ge> RESUME_SAVE_INTERVAL_MS)"

definition publish_step :: "u64 \<Rightarrow> bool \<Rightarrow> current_playback \<Rightarrow> playback_memory_action list \<times> current_playback" where
  "publish_step now enabled c =
     (if publish_due now c then (case resume_snapshot c enabled of
          Some action \<Rightarrow> ([action], c\<lparr>cp_last_publish := Some now, cp_resume_cleared := is_drop (Some action)\<rparr>)
        | None \<Rightarrow> ([], c))
      else ([], c))"

definition observe_position_secs :: "'f seconds_ops \<Rightarrow> 'f \<Rightarrow> u64 \<Rightarrow> bool \<Rightarrow> listening_playback \<Rightarrow>
    playback_memory_action list \<times> listening_playback" where
  "observe_position_secs ops secs now enabled s = (case current_track_state s of None \<Rightarrow> ([], s) | Some c \<Rightarrow>
     (case seconds_to_ms ops secs of None \<Rightarrow> ([], s) | Some position_ms \<Rightarrow>
       let (passport, c1) = passport_step (advance_position position_ms now c);
           (resumes, c2) = publish_step now enabled c1
       in (passport @ resumes, s\<lparr>current_track_state := Some c2\<rparr>)))"

definition snapshot_resume :: "bool \<Rightarrow> listening_playback \<Rightarrow> playback_memory_action option" where
  "snapshot_resume enabled s = Option.bind (current_track_state s) (\<lambda>c. resume_snapshot c enabled)"

definition complete_track :: "listening_playback \<Rightarrow> playback_memory_action option \<times> listening_playback" where
  "complete_track s = (case current_track_state s of None \<Rightarrow> (None, s) | Some c \<Rightarrow>
     (if \<not> cp_live c then Some (DropResume (cp_track c)) else None,
      s\<lparr>current_track_state := None, pending := None, restored_position := None\<rparr>))"

definition request_seek :: "portable_track_key \<Rightarrow> u64 \<Rightarrow> load_reason \<Rightarrow> listening_playback \<Rightarrow> listening_playback" where
  "request_seek key position_ms reason s =
     s\<lparr>pending := Some \<lparr>seek_key = key, seek_position_ms = position_ms, seek_reason = reason\<rparr>\<rparr>"

definition has_pending_seek :: "listening_playback \<Rightarrow> bool" where
  "has_pending_seek s \<longleftrightarrow> pending s \<noteq> None"

definition cancel_pending_seek :: "listening_playback \<Rightarrow> listening_playback" where
  "cancel_pending_seek s = s\<lparr>pending := None\<rparr>"

fun seek_valid :: "load_reason \<Rightarrow> u64 \<Rightarrow> u64 \<Rightarrow> bool" where
  "seek_valid Deliberate position_ms d \<longleftrightarrow> useful_resume position_ms d"
| "seek_valid SessionRestore position_ms d \<longleftrightarrow> useful_resume position_ms d"
| "seek_valid BookmarkLoad position_ms d \<longleftrightarrow> position_ms < d"
| "seek_valid Recovery position_ms d \<longleftrightarrow> position_ms < d"
| "seek_valid Restart position_ms d \<longleftrightarrow> position_ms = 0"
| "seek_valid Automatic position_ms d \<longleftrightarrow> position_ms = 0"
| "seek_valid RepeatLoad position_ms d \<longleftrightarrow> position_ms = 0"

definition pending_seek_outcome :: "listening_playback \<Rightarrow> seek_outcome option" where
  "pending_seek_outcome s = (case (current_track_state s, pending s) of
     (Some c, Some p) \<Rightarrow>
       if seek_key p \<noteq> pt_key (cp_track c) then None
       else if cp_live c \<or> cp_seekable c = Some False then Some (Invalid p)
       else if cp_seekable c = None then None
       else (case cp_duration_ms c of None \<Rightarrow> None
         | Some d \<Rightarrow> Some (if seek_valid (seek_reason p) (seek_position_ms p) d then Ready p else Invalid p))
   | _ \<Rightarrow> None)"

definition take_ready_seek :: "listening_playback \<Rightarrow> pending_seek option \<times> listening_playback" where
  "take_ready_seek s = (case pending_seek_outcome s of None \<Rightarrow> (None, s)
     | Some (Ready p) \<Rightarrow> (Some p, s\<lparr>pending := None\<rparr>)
     | Some (Invalid p) \<Rightarrow> (None, s\<lparr>pending := None\<rparr>))"

definition note_restored_position :: "u64 \<Rightarrow> listening_playback \<Rightarrow> listening_playback" where
  "note_restored_position position_ms s = on_current (\<lambda>c. c\<lparr>cp_position_ms := position_ms,
     cp_position_confirmed := False, cp_last_observed := None\<rparr>) (s\<lparr>restored_position := Some position_ms\<rparr>)"

definition set_active_preset_name :: "ustring option \<Rightarrow> listening_playback \<Rightarrow> listening_playback" where
  "set_active_preset_name name s = s\<lparr>active_preset := name\<rparr>"


lemma unat_sat_add: "unat (sat_add a b) = min (unat a + unat b) (2 ^ 64 - 1)"
proof (cases "unat a + unat b < 2 ^ 64")
  case True
  then have "unat (a + b) = unat a + unat b" by (simp add: unat_word_ariths)
  then show ?thesis using True by (simp add: sat_add_def word_less_nat_alt)
next
  case False
  have "unat a < 2 ^ 64" "unat b < 2 ^ 64" using unsigned_less [of a] unsigned_less [of b] by simp_all
  moreover have "unat (a + b) = (unat a + unat b) mod 2 ^ 64" by (simp add: unat_word_ariths)
  moreover have "(unat a + unat b) mod 2 ^ 64 = unat a + unat b - 2 ^ 64"
    using False calculation by (simp add: le_mod_geq)
  ultimately have "unat (a + b) < unat a" using False by linarith
  moreover have "unat (- 1 :: u64) = 2 ^ 64 - 1" by (simp add: unsigned_minus_1_eq_mask mask_eq_exp_minus_1)
  ultimately show ?thesis using False by (simp add: sat_add_def word_less_nat_alt)
qed

lemma unat_sat_sub: "unat (sat_sub a b) = unat a - unat b"
  by (simp add: sat_sub_def word_less_nat_alt unat_sub word_le_nat_alt not_less)

section \<open>A playback as a sequence of calls\<close>

text \<open>The calls the player makes, with their arguments; \<open>playback_step\<close> gives the actions and the new state.\<close>

datatype 'f playback_event =
    BeginTrack portable_track bool "station_visit_target option"
  | ClearTrack
  | RebindTrack portable_track
  | ObservePositionOnly 'f u64
  | ObserveSeekable "bool option"
  | ObserveDuration "'f option"
  | ObserveBuffering bool
  | ObservePaused bool bool
  | ObservePosition 'f u64 bool
  | CompleteTrack
  | RequestSeek portable_track_key u64 load_reason
  | CancelSeek
  | TakeSeek
  | NoteRestored u64
  | SetPreset "ustring option"

definition action_list :: "playback_memory_action option \<times> 's \<Rightarrow> playback_memory_action list \<times> 's" where
  "action_list r = (case r of (None, s) \<Rightarrow> ([], s) | (Some a, s) \<Rightarrow> ([a], s))"

fun playback_step :: "'f seconds_ops \<Rightarrow> 'f playback_event \<Rightarrow> listening_playback \<Rightarrow>
    playback_memory_action list \<times> listening_playback" where
  "playback_step ops (BeginTrack t live station) s = ([], begin_track t live station s)"
| "playback_step ops ClearTrack s = ([], clear_track s)"
| "playback_step ops (RebindTrack t) s = ([], rebind_current_track t s)"
| "playback_step ops (ObservePositionOnly x now) s = ([], observe_position_only ops x now s)"
| "playback_step ops (ObserveSeekable b) s = ([], observe_seekable b s)"
| "playback_step ops (ObserveDuration d) s = ([], observe_duration_secs ops d s)"
| "playback_step ops (ObserveBuffering b) s = ([], observe_buffering b s)"
| "playback_step ops (ObservePaused b enabled) s = action_list (observe_paused b enabled s)"
| "playback_step ops (ObservePosition x now enabled) s = observe_position_secs ops x now enabled s"
| "playback_step ops CompleteTrack s = action_list (complete_track s)"
| "playback_step ops (RequestSeek key ms reason) s = ([], request_seek key ms reason s)"
| "playback_step ops CancelSeek s = ([], cancel_pending_seek s)"
| "playback_step ops TakeSeek s = ([], snd (take_ready_seek s))"
| "playback_step ops (NoteRestored ms) s = ([], note_restored_position ms s)"
| "playback_step ops (SetPreset name) s = ([], set_active_preset_name name s)"

fun playback_run :: "'f seconds_ops \<Rightarrow> 'f playback_event list \<Rightarrow> listening_playback \<Rightarrow>
    playback_memory_action list \<times> listening_playback" where
  "playback_run ops [] s = ([], s)"
| "playback_run ops (e # es) s =
     (let (xs, s) = playback_step ops e s; (ys, s) = playback_run ops es s in (xs @ ys, s))"

text \<open>The clock readings of the calls, the radio visits among the actions, and the events of one track.\<close>

fun event_clock :: "'f playback_event \<Rightarrow> u64 list" where
  "event_clock (ObservePositionOnly x now) = [now]"
| "event_clock (ObservePosition x now enabled) = [now]"
| "event_clock e = []"

definition clocks :: "'f playback_event list \<Rightarrow> u64 list" where
  "clocks es = concat (map event_clock es)"

lemma clocks_simps [simp]: "clocks [] = []" "clocks (e # es) = event_clock e @ clocks es"
  by (simp_all add: clocks_def)

fun is_begin :: "'f playback_event \<Rightarrow> bool" where
  "is_begin (BeginTrack t live station) = True"
| "is_begin e = False"

fun action_visits :: "playback_memory_action \<Rightarrow> station_visit_target list" where
  "action_visits (RecordVisit v) = [v]"
| "action_visits a = []"

definition visits :: "playback_memory_action list \<Rightarrow> station_visit_target list" where
  "visits xs = concat (map action_visits xs)"

lemma visits_append [simp]: "visits (xs @ ys) = visits xs @ visits ys"
  by (simp add: visits_def)

lemma visits_simps [simp]: "visits [] = []" "visits (RecordVisit v # xs) = v # visits xs"
  "visits (SaveResume t ms # xs) = visits xs" "visits (DropResume t # xs) = visits xs"
  by (simp_all add: visits_def)

lemma resume_snapshot_cases: "resume_snapshot c enabled \<in> {None, Some (DropResume (cp_track c)), Some (SaveResume (cp_track c) (cp_position_ms c))}"
  by (simp add: resume_snapshot_def)

lemma resume_snapshot_no_visit: "resume_snapshot c enabled = Some a \<Longrightarrow> action_visits a = []"
  using resume_snapshot_cases [of c enabled] by auto

section \<open>Radio visits\<close>

text \<open>\<open>heard t0 t1 c\<close>: the time counted for the visit fits between the first clock reading \<open>t0\<close> and the one the
  next interval will be measured from, and no reading is later than \<open>t1\<close>.\<close>

definition heard :: "u64 \<Rightarrow> u64 \<Rightarrow> current_playback \<Rightarrow> bool" where
  "heard t0 t1 c \<longleftrightarrow> unat (cp_passport_active_ms c) + unat t0 \<le> unat t1
     \<and> (case cp_last_observed c of None \<Rightarrow> True
        | Some l \<Rightarrow> l \<le> t1 \<and> unat (cp_passport_active_ms c) + unat t0 \<le> unat l)"

lemma heard_later: "heard t0 t1 c \<Longrightarrow> t1 \<le> t2 \<Longrightarrow> heard t0 t2 c"
  by (auto simp: heard_def word_le_nat_alt split: option.splits)

lemma heard_cong: "cp_passport_active_ms d = cp_passport_active_ms c \<Longrightarrow> cp_last_observed d = cp_last_observed c \<Longrightarrow>
    heard t0 t1 d \<longleftrightarrow> heard t0 t1 c"
  by (simp add: heard_def split: option.split)

lemma heard_reset: "heard t0 t1 c \<Longrightarrow> cp_passport_active_ms d = cp_passport_active_ms c \<Longrightarrow> cp_last_observed d = None \<Longrightarrow>
    heard t0 t1 d"
  by (simp add: heard_def)

lemma heard_advance:
  assumes "heard t0 t1 c" "t1 \<le> now"
  shows "heard t0 now (advance_position ms now c)"
proof -
  let ?e = "min (case cp_last_observed c of Some previous \<Rightarrow> sat_sub now previous | None \<Rightarrow> 0) 5000"
  let ?a = "unat (cp_passport_active_ms c)"
  have "?a + unat ?e + unat t0 \<le> unat now"
  proof (cases "cp_last_observed c")
    case (Some l)
    then have "?a + unat t0 \<le> unat l" "unat l \<le> unat now"
      using assms by (auto simp: heard_def word_le_nat_alt)
    moreover have "unat ?e \<le> unat now - unat l" using Some by (simp add: min_def word_le_nat_alt unat_sat_sub)
    ultimately show ?thesis by linarith
  qed (use assms in \<open>simp add: heard_def word_le_nat_alt\<close>)
  then have "unat (sat_add (cp_passport_active_ms c) ?e) + unat t0 \<le> unat now" "?a + unat t0 \<le> unat now"
    unfolding unat_sat_add by linarith+
  then show ?thesis by (simp add: heard_def advance_position_def Let_def)
qed

text \<open>One call that does not begin a track: it keeps the station and the account of the time, and records the visit
  only once, when enough time has been counted.\<close>

definition visit_kept :: "u64 \<Rightarrow> u64 \<Rightarrow> current_playback \<Rightarrow> playback_memory_action list \<Rightarrow> current_playback \<Rightarrow> bool" where
  "visit_kept t0 t1 c xs d \<longleftrightarrow> cp_station d = cp_station c \<and> heard t0 t1 d
     \<and> (visits xs = [] \<and> cp_passport_recorded d = cp_passport_recorded c
        \<or> \<not> cp_passport_recorded c \<and> cp_passport_recorded d \<and> PASSPORT_QUALIFY_MS \<le> cp_passport_active_ms d
          \<and> (\<exists>v. cp_station c = Some v \<and> visits xs = [v]))"

lemma publish_step_visits: "publish_step now enabled c = (xs, d) \<Longrightarrow> visits xs = [] \<and> cp_station d = cp_station c
    \<and> cp_passport_recorded d = cp_passport_recorded c \<and> cp_passport_active_ms d = cp_passport_active_ms c
    \<and> cp_last_observed d = cp_last_observed c"
  using resume_snapshot_cases [of c enabled] by (auto simp: publish_step_def split: if_splits option.splits)

lemma visit_kept_position:
  assumes "heard t0 t1 c" "t1 \<le> now" "passport_step (advance_position ms now c) = (xs, c1)" "publish_step now enabled c1 = (ys, d)"
  shows "visit_kept t0 now c (xs @ ys) d"
proof -
  let ?c = "advance_position ms now c"
  have "heard t0 now ?c" using assms by (intro heard_advance)
  moreover have "cp_station ?c = cp_station c" "cp_passport_recorded ?c = cp_passport_recorded c"
    by (simp_all add: advance_position_def Let_def)
  ultimately show ?thesis using assms(3) publish_step_visits [OF assms(4)]
    by (auto simp: visit_kept_def passport_step_def heard_cong [of d "?c"] heard_cong [of d "?c\<lparr>cp_passport_recorded := True\<rparr>"]
      heard_cong [of "?c\<lparr>cp_passport_recorded := True\<rparr>" "?c"] split: if_splits option.splits)
qed


lemma visit_kept_same: "heard t0 t1 c \<Longrightarrow> t1 \<le> t2 \<Longrightarrow> visit_kept t0 t2 c [] c"
  by (simp add: visit_kept_def heard_later)

lemma visit_kept_quiet:
  assumes "heard t0 t1 c" "cp_station d = cp_station c" "cp_passport_recorded d = cp_passport_recorded c"
    "cp_passport_active_ms d = cp_passport_active_ms c" "cp_last_observed d \<in> {cp_last_observed c, None}" "visits xs = []"
  shows "visit_kept t0 t1 c xs d"
  using assms heard_cong [of d c] heard_reset [of t0 t1 c d] by (auto simp: visit_kept_def)

lemma paused_visit_kept:
  assumes "observe_paused b enabled s = (a, s')" "current_track_state s = Some c" "heard t0 t1 c"
  shows "\<exists>d. current_track_state s' = Some d \<and> visit_kept t0 t1 c (some_list a) d"
proof -
  let ?c = "(if cp_paused c \<noteq> b then c\<lparr>cp_last_observed := None\<rparr> else c)\<lparr>cp_paused := b\<rparr>"
  obtain d where d: "current_track_state s' = Some d" "d = (if is_drop a then ?c\<lparr>cp_resume_cleared := True\<rparr> else ?c)"
    "a = None \<or> a = resume_snapshot ?c enabled"
    using assms(1,2) by (auto simp: observe_paused_def Let_def)
  have "visits (some_list a) = []" using d(3) resume_snapshot_cases [of ?c enabled]
    by (auto simp: some_list_def)
  then have "visit_kept t0 t1 c (some_list a) d" using d(2) by (intro visit_kept_quiet [OF assms(3)]) auto
  then show ?thesis using d(1) by blast
qed

lemma step_without_track: "current_track_state s = None \<Longrightarrow> \<not> is_begin e \<Longrightarrow> playback_step ops e s = (xs, s') \<Longrightarrow>
    xs = [] \<and> current_track_state s' = None"
  by (cases e) (auto simp: action_list_def clear_track_def rebind_current_track_def on_current_def observe_position_only_def
    observe_seekable_def observe_duration_secs_def observe_buffering_def observe_paused_def observe_position_secs_def
    complete_track_def request_seek_def cancel_pending_seek_def take_ready_seek_def note_restored_position_def
    set_active_preset_name_def split: option.splits seek_outcome.splits)

lemma step_with_track:
  assumes "playback_step ops e s = (xs, s')" "\<not> is_begin e" "current_track_state s = Some c" "heard t0 t1 c"
    "\<And>now. now \<in> set (event_clock e) \<Longrightarrow> t1 \<le> now"
  shows "(current_track_state s' = None \<and> visits xs = [])
    \<or> (\<exists>d. current_track_state s' = Some d \<and> visit_kept t0 (last (t1 # event_clock e)) c xs d)"
proof (cases e)
  case (ObservePaused b enabled)
  then obtain a where "observe_paused b enabled s = (a, s')" "xs = some_list a"
    using assms(1) by (auto simp: action_list_def some_list_def split: prod.splits option.splits)
  then show ?thesis using paused_visit_kept assms(3,4) ObservePaused by fastforce
next
  case (ObservePosition x now enabled)
  then have "t1 \<le> now" using assms(5) by simp
  show ?thesis
  proof (cases "seconds_to_ms ops x")
    case None
    then show ?thesis using ObservePosition assms visit_kept_same [OF assms(4) \<open>t1 \<le> now\<close>]
      by (simp add: observe_position_secs_def)
  next
    case (Some ms)
    obtain ys c1 where p: "passport_step (advance_position ms now c) = (ys, c1)" by force
    obtain zs d where q: "publish_step now enabled c1 = (zs, d)" by force
    show ?thesis using visit_kept_position [OF assms(4) \<open>t1 \<le> now\<close> p q] ObservePosition assms(1,3) Some p q
      by (auto simp: observe_position_secs_def)
  qed
next
  case (ObservePositionOnly x now)
  then have "t1 \<le> now" using assms(5) by simp
  show ?thesis
  proof (cases "seconds_to_ms ops x")
    case None
    then show ?thesis using ObservePositionOnly assms visit_kept_same [OF assms(4) \<open>t1 \<le> now\<close>]
      by (simp add: observe_position_only_def)
  next
    case (Some ms)
    have "heard t0 now (c\<lparr>cp_position_ms := ms, cp_position_confirmed := True, cp_last_observed := Some now\<rparr>)"
      using assms(4) \<open>t1 \<le> now\<close> by (auto simp: heard_def word_le_nat_alt)
    then show ?thesis using ObservePositionOnly assms(1,3) Some
      by (auto simp: observe_position_only_def on_current_def visit_kept_def)
  qed
next
  case CompleteTrack
  then show ?thesis using assms(1,3) by (auto simp: action_list_def complete_track_def split: if_splits)
qed (use assms in \<open>auto simp: clear_track_def rebind_current_track_def on_current_def observe_seekable_def
    observe_duration_secs_def observe_buffering_def request_seek_def cancel_pending_seek_def take_ready_seek_def
    note_restored_position_def set_active_preset_name_def intro!: visit_kept_quiet [OF assms(4)]
    split: option.splits seek_outcome.splits if_splits\<close>)

lemma run_without_track: "current_track_state s = None \<Longrightarrow> list_all (\<lambda>e. \<not> is_begin e) es \<Longrightarrow>
    visits (fst (playback_run ops es s)) = []"
proof (induction es arbitrary: s)
  case (Cons e es)
  obtain xs s' ys s'' where step: "playback_step ops e s = (xs, s')" "playback_run ops es s' = (ys, s'')" by (metis surj_pair)
  then have "xs = []" "current_track_state s' = None" using step_without_track [of s e ops xs s'] Cons.prems by auto
  then show ?case using Cons.IH [of s'] Cons.prems(2) step by simp
qed simp

lemma run_with_track:
  assumes "current_track_state s = Some c" "heard t0 t1 c" "list_all (\<lambda>e. \<not> is_begin e) es" "sorted (t1 # clocks es)"
  shows "visits (fst (playback_run ops es s)) = []
    \<or> (\<not> cp_passport_recorded c \<and> (\<exists>v. cp_station c = Some v \<and> visits (fst (playback_run ops es s)) = [v])
       \<and> 30000 + unat t0 \<le> unat (last (t1 # clocks es)))"
  using assms
proof (induction es arbitrary: s c t1)
  case (Cons e es)
  obtain xs s' where step: "playback_step ops e s = (xs, s')" by force
  obtain ys s'' where run: "playback_run ops es s' = (ys, s'')" by force
  let ?t = "last (t1 # event_clock e)"
  have later: "\<And>now. now \<in> set (event_clock e) \<Longrightarrow> t1 \<le> now" using Cons.prems(4) by auto
  have sorted: "sorted (?t # clocks es)" using Cons.prems(4)
    by (cases e) auto
  have last: "last (t1 # clocks (e # es)) = last (?t # clocks es)" by (cases e) simp_all
  consider "current_track_state s' = None" "visits xs = []"
    | d where "current_track_state s' = Some d" "visit_kept t0 ?t c xs d"
    using step_with_track [OF step _ Cons.prems(1,2) later] Cons.prems(3) by auto
  then show ?case
  proof cases
    case 1
    then show ?thesis using run_without_track [of s' es ops] Cons.prems(3) step run by simp
  next
    case 2
    have IH: "visits ys = [] \<or> (\<not> cp_passport_recorded d \<and> (\<exists>v. cp_station d = Some v \<and> visits ys = [v])
        \<and> 30000 + unat t0 \<le> unat (last (?t # clocks es)))"
      using Cons.IH [OF 2(1) _ _ sorted] 2(2) Cons.prems(3) run by (simp add: visit_kept_def)
    have "unat ?t \<le> unat (last (?t # clocks es))" using sorted by (cases "clocks es") (auto simp: word_le_nat_alt)
    then show ?thesis using IH 2(2) step run last
      by (auto simp: visit_kept_def heard_def PASSPORT_QUALIFY_MS_def word_le_nat_alt)
  qed
qed simp


lemma begun_track_visits:
  assumes "list_all (\<lambda>e. \<not> is_begin e) es" "sorted (clocks es)"
  shows "visits (fst (playback_run ops es (begin_track t live station s))) = []
    \<or> (\<exists>v. station = Some v \<and> visits (fst (playback_run ops es (begin_track t live station s))) = [v]
        \<and> clocks es \<noteq> [] \<and> 30000 + unat (hd (clocks es)) \<le> unat (last (clocks es)))"
proof -
  let ?s = "begin_track t live station s"
  have s: "current_track_state ?s = Some (fresh_playback t live station)" by (simp add: begin_track_def)
  have h: "heard t0 t0 (fresh_playback t live station)" for t0 by (simp add: heard_def fresh_playback_def)
  let ?t = "case clocks es of [] \<Rightarrow> 0 | c # cs \<Rightarrow> c"
  have "sorted (?t # clocks es)" using assms(2) by (cases "clocks es") auto
  from run_with_track [OF s h assms(1) this, of ops] show ?thesis
    by (cases "clocks es") (auto simp: fresh_playback_def)
qed

section \<open>Resume points\<close>

text \<open>The clock readings at which a position report published a resume point or its end.\<close>

fun publishes :: "'f seconds_ops \<Rightarrow> 'f playback_event list \<Rightarrow> listening_playback \<Rightarrow> u64 list" where
  "publishes ops [] s = []"
| "publishes ops (e # es) s =
     (case e of ObservePosition x now enabled \<Rightarrow>
        if list_ex (\<lambda>a. action_visits a = []) (fst (playback_step ops e s)) then [now] else []
      | _ \<Rightarrow> []) @ publishes ops es (snd (playback_step ops e s))"

lemma publish_position:
  assumes "observe_position_secs ops x now enabled s = (xs, s')" "current_track_state s = Some c"
  shows "\<exists>d. current_track_state s' = Some d
    \<and> (if list_ex (\<lambda>a. action_visits a = []) xs then publish_due now c \<and> cp_last_publish d = Some now
       else cp_last_publish d = cp_last_publish c)"
proof (cases "seconds_to_ms ops x")
  case None
  then show ?thesis using assms by (auto simp: observe_position_secs_def)
next
  case (Some ms)
  obtain ys c1 where p: "passport_step (advance_position ms now c) = (ys, c1)" by force
  obtain zs d where q: "publish_step now enabled c1 = (zs, d)" by force
  have "\<not> list_ex (\<lambda>a. action_visits a = []) ys" "cp_last_publish c1 = cp_last_publish c"
    using p by (auto simp: passport_step_def advance_position_def Let_def split: if_splits option.splits)
  moreover have "if list_ex (\<lambda>a. action_visits a = []) zs then publish_due now c1 \<and> cp_last_publish d = Some now
      else cp_last_publish d = cp_last_publish c1"
    using q resume_snapshot_no_visit [of c1 enabled] by (auto simp: publish_step_def split: if_splits option.splits)
  ultimately show ?thesis using assms Some p q
    by (auto simp: observe_position_secs_def publish_due_def)
qed

lemma publish_due_later: "publish_due now c \<Longrightarrow> cp_last_publish c = Some l \<Longrightarrow> unat l + 60000 \<le> unat now"
  by (auto simp: publish_due_def RESUME_SAVE_INTERVAL_MS_def word_le_nat_alt unat_sat_sub)

lemma step_keeps_publish:
  assumes "playback_step ops e s = (xs, s')" "\<not> is_begin e" "current_track_state s = Some c"
    "\<And>x now enabled. e \<noteq> ObservePosition x now enabled"
  shows "case current_track_state s' of None \<Rightarrow> True | Some d \<Rightarrow> cp_last_publish d = cp_last_publish c"
  using assms by (cases e) (auto simp: action_list_def clear_track_def rebind_current_track_def on_current_def
    observe_position_only_def observe_seekable_def observe_duration_secs_def observe_buffering_def observe_paused_def
    complete_track_def request_seek_def cancel_pending_seek_def take_ready_seek_def note_restored_position_def
    set_active_preset_name_def Let_def split: option.splits seek_outcome.splits if_splits prod.splits)

lemma publishes_without_track: "current_track_state s = None \<Longrightarrow> list_all (\<lambda>e. \<not> is_begin e) es \<Longrightarrow> publishes ops es s = []"
proof (induction es arbitrary: s)
  case (Cons e es)
  obtain xs s' where step: "playback_step ops e s = (xs, s')" by force
  then have "xs = []" "current_track_state s' = None" using step_without_track [of s e ops xs s'] Cons.prems by auto
  then show ?case using Cons.IH [of s'] Cons.prems(2) step by (cases e) auto
qed simp

lemma publishes_spaced:
  "current_track_state s = Some c \<Longrightarrow> list_all (\<lambda>e. \<not> is_begin e) es \<Longrightarrow>
    sorted_wrt (\<lambda>a b. unat a + 60000 \<le> unat b) (publishes ops es s)
    \<and> (\<forall>l. cp_last_publish c = Some l \<longrightarrow> (\<forall>b \<in> set (publishes ops es s). unat l + 60000 \<le> unat b))"
proof (induction es arbitrary: s c)
  case (Cons e es)
  obtain xs s' where step: "playback_step ops e s = (xs, s')" by force
  show ?case
  proof (cases "\<exists>x now enabled. e = ObservePosition x now enabled")
    case True
    then obtain x now enabled where e: "e = ObservePosition x now enabled" by blast
    then obtain d where d: "current_track_state s' = Some d"
        "if list_ex (\<lambda>a. action_visits a = []) xs then publish_due now c \<and> cp_last_publish d = Some now
         else cp_last_publish d = cp_last_publish c"
      using publish_position [of ops x now enabled s xs s' c] step Cons.prems(1) by auto
    note IH = Cons.IH [OF d(1)]
    show ?thesis
    proof (cases "list_ex (\<lambda>a. action_visits a = []) xs")
      case True
      then have "publish_due now c" "cp_last_publish d = Some now" using d(2) by simp_all
      then have "\<forall>l. cp_last_publish c = Some l \<longrightarrow> unat l + 60000 \<le> unat now" using publish_due_later by blast
      moreover have "sorted_wrt (\<lambda>a b. unat a + 60000 \<le> unat b) (publishes ops es s')"
        "\<forall>b \<in> set (publishes ops es s'). unat now + 60000 \<le> unat b"
        using IH Cons.prems(2) \<open>cp_last_publish d = Some now\<close> by simp_all
      ultimately show ?thesis using True e step by auto
    next
      case False
      then show ?thesis using IH Cons.prems(2) d(2) e step by simp
    qed
  next
    case False
    then have same: "publishes ops (e # es) s = publishes ops es s'" using step by (cases e) simp_all
    show ?thesis
    proof (cases "current_track_state s'")
      case None
      then have "publishes ops es s' = []" using publishes_without_track [OF None, of es ops] Cons.prems(2) by simp
      then show ?thesis unfolding same by simp
    next
      case (Some d)
      then have "cp_last_publish d = cp_last_publish c"
        using step_keeps_publish [OF step _ Cons.prems(1)] False Cons.prems(2) by auto
      then show ?thesis using Cons.IH [OF Some] Cons.prems(2) same by simp
    qed
  qed
qed simp





section \<open>Seeking back\<close>




section \<open>Portable tracks\<close>

definition local_placeholder_prefix :: "sha256_hex \<Rightarrow> ustring \<Rightarrow> ustring" where
  "local_placeholder_prefix sha scope =
     sha (utf8 (utf ''ytt-listening-local-owner-v1'' @ [0]) @ utf8 scope) @ [58]"

definition local_safe_label :: "ustring \<Rightarrow> ustring \<Rightarrow> ustring" where
  "local_safe_label s fallback = (let t = trim s in
     if t = [] then fallback
     else if 47 \<in> set t \<or> 92 \<in> set t then
       (case file_stem t of Some name \<Rightarrow> if trim name \<noteq> [] then name else fallback | None \<Rightarrow> fallback)
     else t)"

definition portable_track_of :: "sha256_hex \<Rightarrow> song \<Rightarrow> ustring option \<Rightarrow> portable_track" where
  "portable_track_of sha s scope =
     (let pure_local = (is_local s \<and> youtube_id s = None);
          key = (case open_subsonic_item s of
              Some item \<Rightarrow> OpenSubsonicKey (backend_id item) (account_scope_id item) (item_id item)
            | None \<Rightarrow> (case youtube_id s of
                Some vid \<Rightarrow> Catalog (utf ''youtube'') vid
              | None \<Rightarrow> if is_local s then
                  (let digest = sha (utf8 (utf ''ytt-listening-local-v1'' @ [0]) @ utf8 (video_id s)) in
                   LocalPlaceholder (case scope of None \<Rightarrow> utf ''unbound:'' @ digest
                     | Some scope \<Rightarrow> local_placeholder_prefix sha scope @ digest))
                else Catalog (utf (source_id_prefix (source s))) (video_id s)))
      in \<lparr>pt_key = key,
          pt_title = (if pure_local then local_safe_label (title s) (utf ''Local track'') else title s),
          pt_artist = (if pure_local then local_safe_label (artist s) (utf ''Local file'') else artist s),
          pt_album = (if pure_local then None else album s),
          pt_duration_secs = (case duration_secs s of Some n \<Rightarrow> Some n | None \<Rightarrow> parse_duration_secs (duration s)),
          pt_isrc = (if pure_local then None else isrc s)\<rparr>)"

definition radio_station_target :: "song \<Rightarrow> station_visit_target option" where
  "radio_station_target s =
     (if \<not> is_radio_station s then None
      else (case strip_prefix (utf ''rad:'') (video_id s) of None \<Rightarrow> None | Some uuid \<Rightarrow>
        if uuid \<noteq> [] then Some \<lparr>svt_uuid = uuid, svt_name = title s, svt_country = radio_country_code s\<rparr> else None))"

definition resolved_song ::
    "portable_track \<Rightarrow> ustring \<Rightarrow> search_source \<Rightarrow> playable_ref option \<Rightarrow> song" where
  "resolved_song t vid src target =
     (song_remote vid (pt_title t) (pt_artist t) (case pt_duration_secs t of None \<Rightarrow> [] | Some n \<Rightarrow> duration_text n))
       \<lparr>source := src, playable := target, album := pt_album t, duration_secs := pt_duration_secs t, isrc := pt_isrc t\<rparr>"

text \<open>A local placeholder is not resolved here, with or without a scope.\<close>

definition resolve_portable_track :: "sha256_hex \<Rightarrow> portable_track \<Rightarrow> song option" where
  "resolve_portable_track sha t = (case pt_key t of
     Catalog provider vid \<Rightarrow> if provider \<in> {utf ''youtube'', utf ''yt''}
       then Some (resolved_song t vid Youtube None) else None
   | OpenSubsonicKey backend account item \<Rightarrow>
       if server_id_ok backend \<and> server_id_ok account \<and> server_id_ok item
       then let it = \<lparr>backend_id = backend, account_scope_id = account, item_id = item\<rparr> in
         Some (resolved_song t (stable_track_id sha it) OpenSubsonicSource (Some (OpenSubsonicRef it None)))
       else None
   | LocalPlaceholder p \<Rightarrow> None)"

lemma resolved_fields [simp]:
  "video_id (resolved_song t vid src target) = sanitize_metadata_text vid MAX_PROVIDER_ID_CHARS"
  "source (resolved_song t vid src target) = src" "playable (resolved_song t vid src target) = target"
  "local_path (resolved_song t vid src target) = None" "yt_video_id (resolved_song t vid src target) = None"
  by (simp_all add: resolved_song_def song_remote_def)

lemma youtube_id_shape: "youtube_id s = Some vid \<Longrightarrow> \<not> starts_with PLAYLIST_ID_PREFIX vid"
proof
  assume "youtube_id s = Some vid" and p: "starts_with PLAYLIST_ID_PREFIX vid"
  then have "\<not> is_definitely_non_video_youtube_ref vid" using youtube_id_is_video by blast
  then have "is_youtube_video_id vid" using p by (auto simp: is_definitely_non_video_youtube_ref_def)
  moreover obtain rest where "vid = PLAYLIST_ID_PREFIX @ rest" using starts_with_D [OF p] by blast
  then have "58 \<in> set vid" by (simp add: PLAYLIST_ID_PREFIX_def utf_def)
  ultimately show False
    by (auto simp: is_youtube_video_id_def list_all_iff ascii_alphanumeric_def is_ascii_alphabetic_def
      is_ascii_uppercase_def is_ascii_lowercase_def is_ascii_digit_def)
qed


lemma portable_key: "pt_key (portable_track_of sha s scope) = (case open_subsonic_item s of
    Some item \<Rightarrow> OpenSubsonicKey (backend_id item) (account_scope_id item) (item_id item)
  | None \<Rightarrow> (case youtube_id s of Some vid \<Rightarrow> Catalog (utf ''youtube'') vid
      | None \<Rightarrow> if is_local s then
          LocalPlaceholder (case scope of
              None \<Rightarrow> utf ''unbound:'' @ sha (utf8 (utf ''ytt-listening-local-v1'' @ [0]) @ utf8 (video_id s))
            | Some c \<Rightarrow> local_placeholder_prefix sha c @ sha (utf8 (utf ''ytt-listening-local-v1'' @ [0]) @ utf8 (video_id s)))
        else Catalog (utf (source_id_prefix (source s))) (video_id s)))"
  by (simp add: portable_track_of_def Let_def split: option.split)

lemma resolve_round_trip:
  assumes "resolve_portable_track sha (portable_track_of sha s scope) = Some r"
    "open_subsonic_item s \<noteq> None
      \<or> (\<exists>vid. youtube_id s = Some vid \<and> clean MAX_PROVIDER_ID_CHARS vid \<and> \<not> starts_with (utf ''local:'') vid)"
  shows "pt_key (portable_track_of sha r scope) = pt_key (portable_track_of sha s scope)"
proof (cases "open_subsonic_item s")
  case (Some item)
  obtain b u i where "item = \<lparr>backend_id = b, account_scope_id = u, item_id = i\<rparr>" by (cases item) auto
  then have "r = resolved_song (portable_track_of sha s scope) (stable_track_id sha item) OpenSubsonicSource (Some (OpenSubsonicRef item None))"
    using assms(1) Some by (simp add: resolve_portable_track_def portable_key Let_def split: if_splits)
  then have "open_subsonic_item r = Some item" by (simp add: open_subsonic_item_def)
  then show ?thesis using Some by (simp add: portable_key)
next
  case None
  then obtain vid where vid: "youtube_id s = Some vid" "clean MAX_PROVIDER_ID_CHARS vid" "\<not> starts_with (utf ''local:'') vid"
    using assms(2) by blast
  then have r: "r = resolved_song (portable_track_of sha s scope) vid Youtube None"
    using assms(1) None by (simp add: resolve_portable_track_def portable_key utf_def split: if_splits)
  have "video_id r = vid" using vid(2) by (simp add: r sanitize_id)
  then have "youtube_id r = Some vid"
    using vid(3) youtube_id_is_video [OF vid(1)] youtube_id_shape [OF vid(1)] by (simp add: youtube_id_def r)
  moreover have "open_subsonic_item r = None" by (simp add: r open_subsonic_item_def)
  ultimately show ?thesis using None vid(1) by (simp add: portable_key)
qed






section \<open>Properties\<close>

text \<open>C21. While one track plays, whatever the order of the player's reports, at most one radio visit is recorded; it is
  that of the track's station, and when the clock never goes back at least 30 seconds lie between the first and
  the last clock reading.\<close>

theorem passport_visit_earned:
  assumes "list_all (\<lambda>e. \<not> is_begin e) es" "sorted (clocks es)"
  shows "visits (fst (playback_run ops es (begin_track t live station s))) = []
    \<or> (\<exists>v. station = Some v \<and> visits (fst (playback_run ops es (begin_track t live station s))) = [v]
        \<and> clocks es \<noteq> [] \<and> 30000 + unat (hd (clocks es)) \<le> unat (last (clocks es)))"
  using assms by (rule begun_track_visits)

definition millis_ops :: "u64 seconds_ops" where
  "millis_ops = \<lparr>is_finite = (\<lambda>_. True), not_negative = (\<lambda>_. True), rounded_millis = (\<lambda>ms. ms)\<rparr>"

definition radio_reports :: "u64 playback_event list" where
  "radio_reports = map (\<lambda>ms. ObservePosition ms ms True) [1000, 6000, 11000, 16000, 21000, 26000, 31000, 36000]"

definition demo_station :: station_visit_target where
  "demo_station = \<lparr>svt_uuid = utf ''9617'', svt_name = utf ''Nova'', svt_country = None\<rparr>"

lemma radio_reports_visit:
  "visits (fst (playback_run millis_ops radio_reports (begin_track t True (Some demo_station) s))) = [demo_station]"
  by (simp add: radio_reports_def playback_run.simps observe_position_secs_def begin_track_def fresh_playback_def
    seconds_to_ms_def millis_ops_def advance_position_def passport_step_def publish_step_def publish_due_def
    resume_snapshot_def sat_add_def sat_sub_def playback_limits Let_def)

lemma passport_visit_earned_witness:
  "\<exists>v. visits (fst (playback_run millis_ops radio_reports
      (begin_track \<lparr>pt_key = Catalog [] [], pt_title = [], pt_artist = [], pt_album = None, pt_duration_secs = None, pt_isrc = None\<rparr>
        True (Some demo_station) (listening_default [])))) = [v] \<and> v = demo_station
    \<and> 30000 + unat (hd (clocks radio_reports)) \<le> unat (last (clocks radio_reports))"
  using passport_visit_earned [of radio_reports millis_ops _ True "Some demo_station" "listening_default []"]
    radio_reports_visit [of _ "listening_default []"]
  by (simp add: radio_reports_def)



definition talk :: portable_track where
  "talk = \<lparr>pt_key = Catalog (utf ''youtube'') (utf ''talk''), pt_title = [], pt_artist = [], pt_album = None,
     pt_duration_secs = None, pt_isrc = None\<rparr>"






text \<open>C25. A track that is stored in portable form and resolved on a device is the same track when it is stored again: a
  music server's item always, a YouTube video when its id is clean and does not look like a local file's.\<close>

theorem portable_round_trip:
  assumes "resolve_portable_track sha (portable_track_of sha s scope) = Some r"
    "open_subsonic_item s \<noteq> None
      \<or> (\<exists>vid. youtube_id s = Some vid \<and> clean MAX_PROVIDER_ID_CHARS vid \<and> \<not> starts_with (utf ''local:'') vid)"
  shows "pt_key (portable_track_of sha r scope) = pt_key (portable_track_of sha s scope)"
  using assms by (rule resolve_round_trip)

definition demo_video :: song where
  "demo_video = (song_remote [] (utf ''Drive'') (utf ''Nova'') [])\<lparr>video_id := utf ''dQw4w9WgXcQ''\<rparr>"

lemma demo_video_id: "youtube_id demo_video = Some (utf ''dQw4w9WgXcQ'')"
proof -
  have "is_youtube_video_id (utf ''dQw4w9WgXcQ'')" by code_simp
  moreover have "\<not> starts_with (utf ''local:'') (utf ''dQw4w9WgXcQ'')" "\<not> starts_with PLAYLIST_ID_PREFIX (utf ''dQw4w9WgXcQ'')"
    by (simp_all add: starts_with_def utf_def PLAYLIST_ID_PREFIX_def)
  ultimately show ?thesis by (simp add: youtube_id_def demo_video_def song_remote_def video_id_is_video)
qed

lemma portable_round_trip_witness:
  "\<exists>r. resolve_portable_track id (portable_track_of id demo_video None) = Some r
    \<and> pt_key (portable_track_of id r None) = Catalog (utf ''youtube'') (utf ''dQw4w9WgXcQ'')"
proof -
  have item: "open_subsonic_item demo_video = None" by (simp add: open_subsonic_item_def demo_video_def song_remote_def)
  have key: "pt_key (portable_track_of id demo_video None) = Catalog (utf ''youtube'') (utf ''dQw4w9WgXcQ'')"
    by (simp add: portable_key item demo_video_id)
  then obtain r where r: "resolve_portable_track id (portable_track_of id demo_video None) = Some r"
    by (simp add: resolve_portable_track_def)
  have "clean MAX_PROVIDER_ID_CHARS (utf ''dQw4w9WgXcQ'')"
    by (simp add: clean_def trimmed_def MAX_PROVIDER_ID_CHARS_def is_forbidden_metadata_char_def is_control_def
      is_whitespace_def utf_def)
  moreover have "\<not> starts_with (utf ''local:'') (utf ''dQw4w9WgXcQ'')" by (simp add: starts_with_def utf_def)
  ultimately have "pt_key (portable_track_of id r None) = pt_key (portable_track_of id demo_video None)"
    using portable_round_trip [OF r] demo_video_id by blast
  then show ?thesis using key r by simp
qed



text \<open>A label with backslashes is split like a path of the platform: on Unix, where the slash alone separates, the
  whole Windows path stays.\<close>

lemma backslash_label_kept:
  "local_safe_label (utf ''C:'' @ [92] @ utf ''Users'' @ [92] @ utf ''ann'' @ [92] @ utf ''talk.mp3'') fallback
   = utf ''C:'' @ [92] @ utf ''Users'' @ [92] @ utf ''ann'' @ [92] @ utf ''talk''"
  by (simp add: local_safe_label_def file_stem_def rsplit_def trim_def trim_start_def trim_end_def is_whitespace_def utf_def Let_def)

end
