(* ===== verification/Spec2Isabelle.thy ===== *)
theory Spec2Isabelle
  imports QueueMutation PlaybackPolicy EventPolicy Delivery Chord LedgerMerge CompactionSound PlaybackMemory
begin

text \<open>Root.\<close>

end
